(* ===== verification/Prelude.thy ===== *)
theory Prelude
  imports Main "HOL-Library.Word" "HOL-Library.Monad_Syntax" "HOL-Library.Char_ord"
begin

text \<open>
  Shared vocabulary of the development: the machine integers of the two programs, the
  collections their automation is kept in, and generic facts on lists, words and folds that
  more than one component needs.
\<close>

unbundle bit_operations_syntax

section \<open>Machine integers\<close>

text \<open>
  CoreMark fixes the width of every integer in its porting header (ee_u8, ee_u16, ...); the VSL
  tool chain uses the \<open>int\<close> and \<open>unsigned\<close> of a 32-bit machine, as the comment of its hash
  function says. A signed integer is the word with the same bits: signed reads go through
  \<open>sint\<close> and \<open>scast\<close>, and arithmetic wraps as the two's-complement targets do.
\<close>

type_synonym u8 = "8 word"
type_synonym u16 = "16 word"
type_synonym s16 = "16 word"
type_synonym u32 = "32 word"
type_synonym s32 = "32 word"

named_theorems seq_simps
  \<open>rewrite rules that execute a sequence of model steps\<close>

named_theorems bounds
  \<open>bounds that arithmetic over model values needs\<close>

section \<open>Iteration\<close>

lemma funpow_inj:
  fixes f :: "'a \<Rightarrow> 'a"
  assumes "inj f" and "(f ^^ n) a = (f ^^ n) b"
  shows "a = b"
  using inj_fn [OF assms(1)] assms(2) by (rule injD)

lemma funpow_commute:
  fixes f :: "'a \<Rightarrow> 'a" and g :: "'b \<Rightarrow> 'b"
  assumes "\<And>x. h (f x) = g (h x)"
  shows "h ((f ^^ n) x) = (g ^^ n) (h x)"
  by (induction n) (simp_all add: assms)

lemma fold_invariant_upt:
  assumes "P a s" and "a \<le> b"
    and "\<And>i s. a \<le> i \<Longrightarrow> i < b \<Longrightarrow> P i s \<Longrightarrow> P (Suc i) (f i s)"
  shows "P b (fold f [a..<b] s)"
  using assms(2,3)
proof (induction b)
  case 0
  then show ?case using assms(1) by simp
next
  case (Suc b)
  show ?case
  proof (cases "a = Suc b")
    case True
    then show ?thesis using assms(1) by simp
  next
    case False
    with Suc.prems have "a \<le> b" by simp
    with Suc have "P b (fold f [a..<b] s)" by simp
    with Suc.prems \<open>a \<le> b\<close> show ?thesis by simp
  qed
qed

section \<open>Arrays and counted loops\<close>

text \<open>An access outside an array, which the programs never intend, is \<open>None\<close>.\<close>

definition rd :: "'a list \<Rightarrow> nat \<Rightarrow> 'a option" where
  "rd xs i = (if i < length xs then Some (xs ! i) else None)"

definition wr :: "'a list \<Rightarrow> nat \<Rightarrow> 'a \<Rightarrow> 'a list option" where
  "wr xs i x = (if i < length xs then Some (xs[i := x]) else None)"

fun for_each :: "nat list \<Rightarrow> (nat \<Rightarrow> 's \<Rightarrow> 's option) \<Rightarrow> 's \<Rightarrow> 's option" where
  "for_each [] b s = Some s"
| "for_each (i # is) b s = do { s \<leftarrow> b i s; for_each is b s }"

lemma for_each_append: "for_each (is @ js) b s = for_each is b s \<bind> for_each js b"
proof (induction "is" arbitrary: s)
  case (Cons i "is")
  show ?case by (cases "b i s") (simp_all add: Cons.IH)
qed simp

lemma for_each_single: "for_each [i] b = b i"
proof
  show "for_each [i] b s = b i s" for s by (cases "b i s") simp_all
qed

lemma for_each_map: "for_each (map f is) b = for_each is (b \<circ> f)"
  by (induction "is"; rule ext) simp_all

lemma for_each_cong:
  "(\<And>i. i \<in> set is \<Longrightarrow> b i = b' i) \<Longrightarrow> for_each is b = for_each is b'"
  by (induction "is"; rule ext) simp_all

lemma for_each_total:
  assumes "\<And>i s. i \<in> set is \<Longrightarrow> \<exists>s'. b i s = Some s'"
  shows "\<exists>s'. for_each is b s = Some s'"
  using assms
proof (induction "is" arbitrary: s)
  case (Cons i "is")
  from Cons.prems [of i s] obtain s' where "b i s = Some s'" by auto
  moreover have "\<exists>s''. for_each is b s' = Some s''" using Cons.prems by (intro Cons.IH) simp
  ultimately show ?case by simp
qed simp

lemma for_each_invar:
  assumes "P 0 s" and "\<And>k s. k < m \<Longrightarrow> P k s \<Longrightarrow> \<exists>s'. b k s = Some s' \<and> P (Suc k) s'"
  shows "\<exists>s'. for_each [0..<m] b s = Some s' \<and> P m s'"
  using assms(2)
proof (induction m)
  case (Suc m)
  then obtain s1 where s1: "for_each [0..<m] b s = Some s1" "P m s1" by auto
  with Suc.prems [of m s1] obtain s2 where "b m s1 = Some s2" "P (Suc m) s2" by auto
  with s1(1) show ?case by (simp add: for_each_append)
qed (use assms(1) in simp)

lemma rd_wr_simps: "i < length xs \<Longrightarrow> rd xs i = Some (xs ! i)" "i < length xs \<Longrightarrow> wr xs i x = Some (xs[i := x])"
  by (simp_all add: rd_def wr_def)

section \<open>Bits of words\<close>

lemma less_16_cases:
  assumes "n < (16::nat)"
  shows "n \<in> {0, 1, 2, 3, 4, 5, 6, 7, 8, 9, 10, 11, 12, 13, 14, 15}"
proof -
  have "n \<in> {..<16}" using assms by simp
  then show ?thesis by (auto simp: lessThan_nat_numeral lessThan_Suc)
qed

lemma word_one_iff_odd: "((x::'a::len word) AND 1 = 1) = odd x"
  by (simp add: and_one_eq mod2_eq_if)

section \<open>Decimal and hexadecimal text\<close>

text \<open>
  What \<open>printf\<close> writes for \<open>%u\<close>, \<open>%d\<close> and \<open>%08x\<close>: both programs print through it, and CoreMark
  reads decimal text back.
\<close>

definition digit_char :: "nat \<Rightarrow> char" where
  "digit_char d = (if d < 10 then char_of (48 + d) else char_of (87 + d))"

fun show_base :: "nat \<Rightarrow> nat \<Rightarrow> string" where
  "show_base b n =
     (if n < b \<or> b < 2 then [digit_char n]
      else show_base b (n div b) @ [digit_char (n mod b)])"

declare show_base.simps [simp del]

abbreviation show_nat :: "nat \<Rightarrow> string" where
  "show_nat \<equiv> show_base 10"

definition show_u :: "u32 \<Rightarrow> string" where
  "show_u w = show_nat (unat w)"

definition show_d :: "s32 \<Rightarrow> string" where
  "show_d w = (if sint w < 0 then CHR ''-'' # show_nat (nat (- sint w)) else show_nat (nat (sint w)))"

definition pad_left :: "nat \<Rightarrow> char \<Rightarrow> string \<Rightarrow> string" where
  "pad_left w c s = replicate (w - length s) c @ s"

definition show_hex :: "nat \<Rightarrow> nat \<Rightarrow> string" where
  "show_hex w n = pad_left w (CHR ''0'') (show_base 16 n)"

lemma show_base_nonempty [simp]: "show_base b n \<noteq> []"
  by (subst show_base.simps) simp

lemma show_base_digits:
  assumes "1 < b" and "c \<in> set (show_base b n)"
  shows "\<exists>d<b. c = digit_char d"
  using assms
proof (induction b n rule: show_base.induct)
  case (1 b n)
  show ?case
  proof (cases "n < b")
    case True
    with 1 show ?thesis by (auto simp: show_base.simps [of b n])
  next
    case False
    then have "set (show_base b n) = insert (digit_char (n mod b)) (set (show_base b (n div b)))"
      using "1.prems"(1) by (simp add: show_base.simps [of b n])
    moreover have "n mod b < b" using "1.prems"(1) by simp
    ultimately show ?thesis using 1 False by (metis insertE less_irrefl_nat linorder_not_less numeral_2_eq_2 Suc_leI One_nat_def)
  qed
qed

end
