(* ===== verification/CoreMark_Util.thy ===== *)
theory CoreMark_Util
  imports Prelude
begin

text \<open>
  CoreMark's service functions (\<open>coremark/core_util.c\<close>): the 16-bit CRC every benchmark kernel
  folds its results into, the argument parser behind the seeds, and the data-type check.
\<close>

section \<open>CRC\<close>

text \<open>
  One round of the loop of \<open>crcu8\<close>. The carry bit is or-ed in or masked out after the shift, as
  the source writes it.
\<close>

definition crcu8_round :: "u8 \<times> u16 \<Rightarrow> u8 \<times> u16" where
  "crcu8_round s = (case s of (data, crc) \<Rightarrow>
     let x16 = (data AND 1) XOR (ucast crc AND 1);
         data' = drop_bit 1 data
     in if x16 = 1
        then (data', drop_bit 1 (crc XOR 0x4002) OR 0x8000)
        else (data', drop_bit 1 crc AND 0x7fff))"

definition crcu8 :: "u8 \<Rightarrow> u16 \<Rightarrow> u16" where
  "crcu8 data crc = snd ((crcu8_round ^^ 8) (data, crc))"

definition crcu16 :: "u16 \<Rightarrow> u16 \<Rightarrow> u16" where
  "crcu16 newval crc =
     (let crc = crcu8 (ucast newval) crc
      in crcu8 (ucast (drop_bit 8 newval)) crc)"

definition crc16 :: "s16 \<Rightarrow> u16 \<Rightarrow> u16" where
  "crc16 newval crc = crcu16 newval crc"

definition crcu32 :: "u32 \<Rightarrow> u16 \<Rightarrow> u16" where
  "crcu32 newval crc =
     (let crc = crc16 (ucast newval) crc
      in crc16 (ucast (drop_bit 16 newval)) crc)"

text \<open>
  The reference: the reflected CRC-16 with polynomial 0xA001 (CRC-16/ARC), which xors the byte
  into the register first and then shifts eight times.
\<close>

definition arc_round :: "u16 \<Rightarrow> u16" where
  "arc_round c = (if odd c then drop_bit 1 c XOR 0xA001 else drop_bit 1 c)"

definition arc_byte :: "u8 \<Rightarrow> u16 \<Rightarrow> u16" where
  "arc_byte data crc = (arc_round ^^ 8) (crc XOR ucast data)"

definition arc_unround :: "u16 \<Rightarrow> u16" where
  "arc_unround c = (if bit c 15 then push_bit 1 (c XOR 0xA001) OR 1 else push_bit 1 c)"

definition arc_stream :: "u8 list \<Rightarrow> u16 \<Rightarrow> u16" where
  "arc_stream bs crc = fold arc_byte bs crc"

lemma crcu8_round_odd:
  "drop_bit 1 (c XOR 0x4002) OR 0x8000 = drop_bit 1 c XOR (0xA001 :: u16)"
proof (rule bit_word_eqI)
  fix n assume "n < LENGTH(16)"
  then have "n < 16" by simp
  from less_16_cases [OF this]
  show "bit (drop_bit 1 (c XOR 0x4002) OR 0x8000) n = bit (drop_bit 1 c XOR (0xA001::u16)) n"
    by (auto simp: bit_simps dest: bit_imp_le_length)
qed

lemma crcu8_round_even: "drop_bit 1 c AND 0x7fff = drop_bit 1 (c :: u16)"
proof (rule bit_word_eqI)
  fix n assume "n < LENGTH(16)"
  then have "n < 16" by simp
  from less_16_cases [OF this]
  show "bit (drop_bit 1 c AND 0x7fff) n = bit (drop_bit 1 c) n"
    by (auto simp: bit_simps dest: bit_imp_le_length)
qed

lemma word_bit0_mask: "(x::'a::len word) AND 1 = (if odd x then 1 else 0)"
  by (simp add: and_one_eq mod2_eq_if)

lemma odd_ucast: "odd (ucast (x::'a::len word) :: 'b::len word) = odd x"
  by (simp flip: bit_0 add: bit_simps)

lemma crcu8_round_parity:
  "((d AND 1) XOR (ucast (c::u16) AND 1) = (1::u8)) = odd (c XOR ucast d)"
  by (simp add: word_bit0_mask odd_ucast even_xor_iff)

lemma drop_ucast_u8: "drop_bit 1 (ucast (d::u8) :: u16) = ucast (drop_bit 1 d)"
  by (rule bit_word_eqI) (auto simp: bit_simps dest: bit_imp_le_length)

definition crc_view :: "u8 \<times> u16 \<Rightarrow> u16" where
  "crc_view s = snd s XOR ucast (fst s)"

lemma crcu8_round_eq:
  "crcu8_round (d, c) =
     (drop_bit 1 d,
      if odd (c XOR ucast d) then drop_bit 1 c XOR 0xA001 else drop_bit 1 c)"
  unfolding crcu8_round_def Let_def prod.case crcu8_round_parity crcu8_round_odd
    crcu8_round_even by simp

lemma crc_view_round: "crc_view (crcu8_round s) = arc_round (crc_view s)"
proof (cases s)
  case (Pair d c)
  have "drop_bit 1 (c XOR ucast d) = drop_bit 1 c XOR ucast (drop_bit 1 d)"
    by (simp only: drop_bit_xor drop_ucast_u8)
  then show ?thesis
    unfolding Pair crc_view_def crcu8_round_eq arc_round_def fst_conv snd_conv
    by (simp only: if_distrib xor.assoc xor.commute [of "0xA001"] xor.left_commute split: if_split) simp
qed

lemma crcu8_round_data: "fst ((crcu8_round ^^ n) (d, c)) = drop_bit n d"
proof (induction n)
  case (Suc n)
  obtain d' c' where "(crcu8_round ^^ n) (d, c) = (d', c')" by fastforce
  with Suc show ?case by (simp add: crcu8_round_eq)
qed simp

lemma drop_bit_all_u8: "drop_bit 8 (d::u8) = 0"
  by (rule bit_word_eqI) (auto simp: bit_simps dest: bit_imp_le_length)

lemma crcu8_eq_arc_byte: "crcu8 d c = arc_byte d c"
proof -
  have "crc_view ((crcu8_round ^^ 8) (d, c)) = (arc_round ^^ 8) (crc_view (d, c))"
    by (rule funpow_commute) (rule crc_view_round)
  then show ?thesis
    by (simp add: crc_view_def crcu8_round_data drop_bit_all_u8 crcu8_def arc_byte_def)
qed


text \<open>A CRC round loses nothing: it has an inverse, so any single corrupted byte shows.\<close>

lemma arc_round_high: "bit (arc_round c) 15 = odd c"
  by (auto simp: arc_round_def bit_simps dest: bit_imp_le_length)

lemma double_drop_bit:
  "push_bit 1 (drop_bit 1 (c::u16)) = (if odd c then c - 1 else c)"
  using div_mult_mod_eq [of c 2]
  by (auto simp: drop_bit_Suc push_bit_eq_mult odd_iff_mod_2_eq_one even_iff_mod_2_eq_zero
      algebra_simps)

lemma arc_unround_round: "arc_unround (arc_round c) = c"
proof (cases "odd c")
  case True
  have "push_bit 1 (drop_bit 1 c) OR 1 = c"
    using True by (simp only: or_one_eq double_drop_bit) simp
  with True show ?thesis
    unfolding arc_unround_def arc_round_high by (simp add: arc_round_def xor.assoc)
next
  case False
  then show ?thesis
    unfolding arc_unround_def arc_round_high
    using double_drop_bit [of c] by (simp add: arc_round_def)
qed

lemma inj_arc_round: "inj arc_round"
  by (rule inj_on_inverseI) (rule arc_unround_round)

lemma ucast_ucast_id_u8: "ucast (ucast (d::u8) :: u16) = d"
  by (rule bit_word_eqI) (auto simp: bit_simps)

lemma xor_cancel_left: "(c::'a::len word) XOR x = c XOR y \<Longrightarrow> x = y"
  by (metis xor.assoc xor_self_eq xor.left_neutral)

lemma arc_byte_inj_crc: "arc_byte d c = arc_byte d c' \<Longrightarrow> c = c'"
  unfolding arc_byte_def
  by (drule funpow_inj [OF inj_arc_round], rule xor_cancel_left) (simp add: xor.commute)

lemma arc_byte_inj_data: "arc_byte d c = arc_byte d' c \<Longrightarrow> d = d'"
  unfolding arc_byte_def
  by (drule funpow_inj [OF inj_arc_round], drule xor_cancel_left) (metis ucast_ucast_id_u8)

lemma arc_round_xor: "arc_round (x XOR y) = arc_round x XOR arc_round y"
  by (auto simp: arc_round_def drop_bit_xor even_xor_iff ac_simps
      simp flip: xor.assoc [of "0xA001" "0xA001"])

lemma arc_rounds_xor: "(arc_round ^^ n) (x XOR y) = (arc_round ^^ n) x XOR (arc_round ^^ n) y"
  by (induction n) (simp_all add: arc_round_xor)

lemma arc_round_push:
  assumes "j < 8"
  shows "arc_round (push_bit (Suc j) (ucast (h::u8))) = push_bit j (ucast h)"
proof -
  have "drop_bit 1 (push_bit (Suc j) (ucast h :: u16)) = push_bit j (ucast h)"
    using assms
    by (intro bit_word_eqI) (auto simp: bit_simps simp del: push_bit_Suc dest: bit_imp_le_length)
  moreover have "even (push_bit (Suc j) (ucast h :: u16))"
    by (simp add: push_bit_eq_mult)
  ultimately show ?thesis by (simp only: arc_round_def if_False not_True_eq_False)
qed

lemma arc_rounds_shift:
  "n \<le> k \<Longrightarrow> k \<le> 8 \<Longrightarrow> (arc_round ^^ n) (push_bit k (ucast (h::u8))) = push_bit (k - n) (ucast h)"
proof (induction n)
  case (Suc n)
  then have "(arc_round ^^ n) (push_bit k (ucast h)) = push_bit (Suc (k - Suc n)) (ucast h)"
    by (simp only: Suc_diff_Suc Suc_le_lessD less_imp_le)
  with Suc.prems show ?case by (simp only: funpow.simps comp_apply arc_round_push)
qed simp

lemma ucast_halves:
  "(newval::u16) = ucast (ucast newval :: u8) XOR push_bit 8 (ucast (ucast (drop_bit 8 newval) :: u8))"
proof (rule bit_word_eqI)
  fix n assume "n < LENGTH(16)"
  then have "n < 16" by simp
  from less_16_cases [OF this]
  show "bit newval n = bit (ucast (ucast newval :: u8) XOR
      push_bit 8 (ucast (ucast (drop_bit 8 newval) :: u8) :: u16)) n"
    by (auto simp: bit_simps)
qed

text \<open>Sixteen bits at once: the register xored with the value, shifted sixteen times.\<close>

lemma crcu16_rounds: "crcu16 newval crc = (arc_round ^^ 16) (crc XOR newval)"
proof -
  let ?lo = "ucast (ucast newval :: u8) :: u16"
  let ?hi = "ucast (ucast (drop_bit 8 newval) :: u8) :: u16"
  have "(arc_round ^^ 16) (crc XOR newval) = (arc_round ^^ 8) ((arc_round ^^ 8) (crc XOR newval))"
    by (simp flip: funpow_add [THEN fun_cong, unfolded comp_def])
  also have "(arc_round ^^ 8) (crc XOR newval) =
      (arc_round ^^ 8) (crc XOR ?lo) XOR (arc_round ^^ 8) (push_bit 8 ?hi)"
    by (subst ucast_halves [of newval]) (simp only: arc_rounds_xor xor.assoc)
  also have "(arc_round ^^ 8) (push_bit 8 ?hi) = ?hi"
    using arc_rounds_shift [of 8 8 "ucast (drop_bit 8 newval)"] by simp
  finally show ?thesis
    by (simp add: crcu16_def crcu8_eq_arc_byte arc_byte_def Let_def)
qed

section \<open>Seeds\<close>

text \<open>
  \<open>parseval\<close> reads an optional sign, an optional 0x prefix, digits and a K or M suffix. A C
  string is a \<open>string\<close> whose end is the terminating NUL, which is none of the characters the
  loops accept.
\<close>

fun parse_hex :: "s32 \<Rightarrow> string \<Rightarrow> s32 \<times> string" where
  "parse_hex retval [] = (retval, [])"
| "parse_hex retval (c # cs) =
     (if (CHR ''0'' \<le> c \<and> c \<le> CHR ''9'') \<or> (CHR ''a'' \<le> c \<and> c \<le> CHR ''f'')
      then let digit = of_char c - of_char (CHR ''0'');
               digit = (if digit > (9::nat) then 10 + of_char c - of_char (CHR ''a'') else digit)
           in parse_hex (retval * 16 + of_nat digit) cs
      else (retval, c # cs))"

fun parse_dec :: "s32 \<Rightarrow> string \<Rightarrow> s32 \<times> string" where
  "parse_dec retval [] = (retval, [])"
| "parse_dec retval (c # cs) =
     (if CHR ''0'' \<le> c \<and> c \<le> CHR ''9''
      then parse_dec (retval * 10 + of_nat (of_char c - of_char (CHR ''0''))) cs
      else (retval, c # cs))"

definition parseval :: "string \<Rightarrow> s32" where
  "parseval valstring =
     (let (neg, s) = (if take 1 valstring = ''-'' then (-1, drop 1 valstring) else (1, valstring));
          (retval, s) = (if take 2 s = ''0x'' then parse_hex 0 (drop 2 s) else parse_dec 0 s);
          retval = (if take 1 s = ''K'' then retval * 1024 else retval);
          retval = (if take 1 s = ''M'' then retval * (1024 * 1024) else retval)
      in retval * neg)"

definition get_seed_args :: "nat \<Rightarrow> string list \<Rightarrow> s32" where
  "get_seed_args i argv = (if length argv > i then parseval (argv ! i) else 0)"

text \<open>The volatile seeds of the port, by number; any other number is seed zero.\<close>

definition get_seed_32 :: "(nat \<Rightarrow> s32) \<Rightarrow> nat \<Rightarrow> s32" where
  "get_seed_32 seed_volatile i =
     (if i = 1 then seed_volatile 1
      else if i = 2 then seed_volatile 2
      else if i = 3 then seed_volatile 3
      else if i = 4 then seed_volatile 4
      else if i = 5 then seed_volatile 5
      else 0)"

lemma digit_char_dec:
  assumes "d < 10"
  shows "CHR ''0'' \<le> digit_char d \<and> digit_char d \<le> CHR ''9''"
    and "of_char (digit_char d) = (48 + d :: nat)"
  using assms by (auto simp: digit_char_def less_eq_char_def)

lemma digit_char_hex:
  assumes "d < 16"
  shows "(CHR ''0'' \<le> digit_char d \<and> digit_char d \<le> CHR ''9'') \<or>
         (CHR ''a'' \<le> digit_char d \<and> digit_char d \<le> CHR ''f'')"
    and "of_char (digit_char d) = (if d < 10 then 48 + d else 87 + d :: nat)"
  using assms by (auto simp: digit_char_def less_eq_char_def)

lemma parse_dec_show:
  "parse_dec r (show_nat n @ s) = parse_dec (r * 10 ^ length (show_nat n) + of_nat n) s"
proof (induction "10::nat" n arbitrary: r s rule: show_base.induct)
  case (1 n)
  show ?case
  proof (cases "n < 10")
    case True
    then show ?thesis using digit_char_dec [of n] by (simp add: show_base.simps [of 10 n])
  next
    case False
    let ?d = "n mod 10" and ?q = "show_base 10 (n div 10)"
    have unfold: "show_base 10 n = ?q @ [digit_char ?d]"
      using False by (subst show_base.simps) simp
    have "of_nat n = (of_nat (n div 10 * 10 + ?d) :: s32)" by simp
    then have n: "of_nat n = (of_nat (n div 10) * 10 + of_nat ?d :: s32)"
      by (simp only: of_nat_add of_nat_mult of_nat_numeral)
    have d: "parse_dec a (digit_char ?d # s) = parse_dec (a * 10 + of_nat ?d) s" for a
      using digit_char_dec [of ?d] by simp
    have "parse_dec r (show_base 10 n @ s) = parse_dec r (?q @ digit_char ?d # s)"
      by (simp only: unfold append_assoc append_Cons append_Nil)
    also have "\<dots> = parse_dec ((r * 10 ^ length ?q + of_nat (n div 10)) * 10 + of_nat ?d) s"
      using False by (subst "1.hyps") (simp_all only: d, simp)
    also have "(r * 10 ^ length ?q + of_nat (n div 10)) * 10 + of_nat ?d =
        r * 10 ^ length (show_base 10 n) + of_nat n"
      by (simp only: n unfold length_append list.size power_add distrib_right mult.assoc add.assoc) simp
    finally show ?thesis .
  qed
qed

lemma parse_hex_show:
  "parse_hex r (show_base 16 n @ s) = parse_hex (r * 16 ^ length (show_base 16 n) + of_nat n) s"
proof (induction "16::nat" n arbitrary: r s rule: show_base.induct)
  case (1 n)
  show ?case
  proof (cases "n < 16")
    case True
    then show ?thesis using digit_char_hex [of n] by (simp add: show_base.simps [of 16 n])
  next
    case False
    let ?d = "n mod 16" and ?q = "show_base 16 (n div 16)"
    have unfold: "show_base 16 n = ?q @ [digit_char ?d]"
      using False by (subst show_base.simps) simp
    have "of_nat n = (of_nat (n div 16 * 16 + ?d) :: s32)" by simp
    then have n: "of_nat n = (of_nat (n div 16) * 16 + of_nat ?d :: s32)"
      by (simp only: of_nat_add of_nat_mult of_nat_numeral)
    have d: "parse_hex a (digit_char ?d # s) = parse_hex (a * 16 + of_nat ?d) s" for a
      using digit_char_hex [of ?d] by simp
    have "parse_hex r (show_base 16 n @ s) = parse_hex r (?q @ digit_char ?d # s)"
      by (simp only: unfold append_assoc append_Cons append_Nil)
    also have "\<dots> = parse_hex ((r * 16 ^ length ?q + of_nat (n div 16)) * 16 + of_nat ?d) s"
      using False by (subst "1.hyps") (simp_all only: d, simp)
    also have "(r * 16 ^ length ?q + of_nat (n div 16)) * 16 + of_nat ?d =
        r * 16 ^ length (show_base 16 n) + of_nat n"
      by (simp only: n unfold length_append list.size power_add distrib_right mult.assoc add.assoc) simp
    finally show ?thesis .
  qed
qed

section \<open>Data type check\<close>

text \<open>The sizes of the port's types, as the compiler of the target reports them.\<close>

record port_sizes =
  sz_u8 :: nat
  sz_u16 :: nat
  sz_s16 :: nat
  sz_s32 :: nat
  sz_u32 :: nat
  sz_ptr_int :: nat
  sz_int_ptr :: nat

definition size_error :: "bool \<Rightarrow> string \<Rightarrow> u8 \<times> string list \<Rightarrow> u8 \<times> string list" where
  "size_error bad msg r = (if bad then (fst r + 1, snd r @ [msg]) else r)"

definition check_data_types :: "port_sizes \<Rightarrow> u8 \<times> string list" where
  "check_data_types z =
     (let r = (0, []);
          r = size_error (sz_u8 z \<noteq> 1) ''ERROR: ee_u8 is not an 8b datatype!'' r;
          r = size_error (sz_u16 z \<noteq> 2) ''ERROR: ee_u16 is not a 16b datatype!'' r;
          r = size_error (sz_s16 z \<noteq> 2) ''ERROR: ee_s16 is not a 16b datatype!'' r;
          r = size_error (sz_s32 z \<noteq> 4) ''ERROR: ee_s32 is not a 32b datatype!'' r;
          r = size_error (sz_u32 z \<noteq> 4) ''ERROR: ee_u32 is not a 32b datatype!'' r;
          r = size_error (sz_ptr_int z \<noteq> sz_int_ptr z)
                ''ERROR: ee_ptr_int is not a datatype that holds an int pointer!'' r
      in if fst r > 0
         then (fst r, snd r @ [''ERROR: Please modify the datatypes in core_portme.h!''])
         else r)"

section \<open>Properties\<close>

lemma inj_arc_rounds: "(arc_round ^^ n) x = (arc_round ^^ n) y \<longleftrightarrow> x = y"
  using funpow_inj [OF inj_arc_round] by blast

lemma ucast_bytes:
  "(ucast (ucast (v::u32) :: u16) :: u8) = ucast v"
  "(ucast (drop_bit 8 (ucast (v::u32) :: u16)) :: u8) = ucast (drop_bit 8 v)"
  "(ucast (ucast (drop_bit 16 (v::u32)) :: u16) :: u8) = ucast (drop_bit 16 v)"
  "(ucast (drop_bit 8 (ucast (drop_bit 16 (v::u32)) :: u16)) :: u8) = ucast (drop_bit 24 v)"
  by (auto intro!: bit_word_eqI simp: bit_simps ac_simps)

text \<open>C31: The CRC of a 32-bit result, computed by \<open>crcu32\<close> through \<open>crc16\<close>, \<open>crcu16\<close> and the
  bit loop of \<open>crcu8\<close>, is the reflected CRC-16 with polynomial 0xA001 of its four bytes, least
  significant byte first.\<close>

theorem crcu32_is_crc16_arc:
  "crcu32 v crc =
     arc_stream [ucast v, ucast (drop_bit 8 v), ucast (drop_bit 16 v), ucast (drop_bit 24 v)] crc"
  by (simp add: crcu32_def crc16_def crcu16_def crcu8_eq_arc_byte arc_stream_def Let_def ucast_bytes)

text \<open>Folding a 16-bit result into the CRC loses nothing: for a given register the new CRC
  determines the value, and for a given value it determines the register. A single wrong kernel
  result therefore always changes the reported CRC.\<close>

theorem crcu16_detects_change:
  "(crcu16 v crc = crcu16 w crc \<longleftrightarrow> v = w) \<and> (crcu16 v crc = crcu16 v crc' \<longleftrightarrow> crc = crc')"
proof
  show "crcu16 v crc = crcu16 w crc \<longleftrightarrow> v = w"
    unfolding crcu16_rounds inj_arc_rounds by (auto dest: xor_cancel_left)
  show "crcu16 v crc = crcu16 v crc' \<longleftrightarrow> crc = crc'"
    unfolding crcu16_rounds inj_arc_rounds by (auto simp: xor.commute [of _ v] dest: xor_cancel_left)
qed

lemma show_base_no_prefix:
  assumes "1 < b" "b \<le> 16" and s: "CHR ''x'' \<notin> set s"
  shows "take 1 (show_base b n @ s) \<noteq> ''-''" and "take 2 (show_base b n @ s) \<noteq> ''0x''"
proof -
  have notin: "c \<notin> set (show_base b n)" if "c = CHR ''-'' \<or> c = CHR ''x''" for c
    using that assms show_base_digits [OF assms(1), of c n]
    by (auto simp: digit_char_def dest!: arg_cong [of _ _ "of_char :: char \<Rightarrow> nat"] split: if_splits)
  obtain c cs where "show_base b n = c # cs" by (meson neq_Nil_conv show_base_nonempty)
  then show "take 1 (show_base b n @ s) \<noteq> ''-''"
    using notin [of "CHR ''-''"] by auto
  show "take 2 (show_base b n @ s) \<noteq> ''0x''"
  proof
    assume "take 2 (show_base b n @ s) = ''0x''"
    then have "CHR ''x'' \<in> set (show_base b n @ s)"
      by (metis in_set_takeD list.set_intros(1) list.set_intros(2))
    then show False using notin s by simp
  qed
qed

lemma parse_stop:
  "parse_dec r [] = (r, [])" "parse_hex r [] = (r, [])"
  "parse_dec r ''K'' = (r, ''K'')" "parse_dec r ''M'' = (r, ''M'')"
  by (simp_all add: less_eq_char_def)

lemma parseval_unsigned:
  assumes "s = [] \<or> s = ''K'' \<or> s = ''M''"
  shows "parseval (show_nat n @ s) =
           of_nat n * (if s = ''K'' then 1024 else if s = ''M'' then 1048576 else 1)"
proof -
  have "CHR ''x'' \<notin> set s" using assms by auto
  then have pre: "take 1 (show_nat n @ s) \<noteq> ''-''" "take 2 (show_nat n @ s) \<noteq> ''0x''"
    by (intro show_base_no_prefix; simp)+
  have "parse_dec 0 (show_nat n @ s) = (of_nat n, s)"
    using assms parse_dec_show [of 0 n s] by (elim disjE) (simp_all add: parse_stop)
  with pre have "parseval (show_nat n @ s) =
      (let retval = (if take 1 s = ''K'' then of_nat n * 1024 else of_nat n);
           retval = (if take 1 s = ''M'' then retval * (1024 * 1024) else retval)
       in retval * 1)"
    unfolding parseval_def by (simp only: if_False Let_def prod.case)
  then show ?thesis using assms by auto
qed

lemma parseval_minus:
  "parseval (CHR ''-'' # show_nat n) = - of_nat n"
  using show_base_no_prefix [of 10 "[]" n] parse_dec_show [of 0 n "[]"]
  by (simp add: parseval_def Let_def)

lemma parseval_hex:
  "parseval (''0x'' @ show_base 16 n) = of_nat n"
  using parse_hex_show [of 0 n "[]"] by (simp add: parseval_def Let_def)

text \<open>C32: \<open>parseval\<close> reads back what is printed: decimal, negative decimal and 0x-hexadecimal text of
  any number evaluate to that number modulo 2^32, and the suffixes K and M scale it by 2^10 and
  2^20.\<close>

theorem parseval_reads_back:
  "parseval (show_nat n) = of_nat n \<and>
   parseval (CHR ''-'' # show_nat n) = - of_nat n \<and>
   parseval (''0x'' @ show_base 16 n) = of_nat n \<and>
   parseval (show_nat n @ ''K'') = of_nat (n * 1024) \<and>
   parseval (show_nat n @ ''M'') = of_nat (n * 1048576)"
  using parseval_unsigned [of "[]" n] parseval_unsigned [of "''K''" n]
    parseval_unsigned [of "''M''" n] parseval_minus [of n] parseval_hex [of n]
  by simp

end
