(* ===== verification/CoreMark_State.thy ===== *)
theory CoreMark_State
  imports CoreMark_Util
begin

text \<open>
  CoreMark's state-machine kernel (\<open>coremark/core_state.c\<close>): the number-format recogniser, the
  generator of its input, and the benchmark that scans, corrupts, rescans and repairs the input
  block. Memory is the byte list of the block; a read or write outside it is \<open>None\<close>.
\<close>

section \<open>The state machine\<close>

datatype core_state =
    CORE_START
  | CORE_INVALID
  | CORE_S1
  | CORE_S2
  | CORE_INT
  | CORE_FLOAT
  | CORE_EXPONENT
  | CORE_SCIENTIFIC

definition NUM_CORE_STATES :: nat where
  "NUM_CORE_STATES = 8"

text \<open>The value of the enumerator, which indexes the counter arrays.\<close>

fun state_ix :: "core_state \<Rightarrow> nat" where
  "state_ix CORE_START = 0"
| "state_ix CORE_INVALID = 1"
| "state_ix CORE_S1 = 2"
| "state_ix CORE_S2 = 3"
| "state_ix CORE_INT = 4"
| "state_ix CORE_FLOAT = 5"
| "state_ix CORE_EXPONENT = 6"
| "state_ix CORE_SCIENTIFIC = 7"

type_synonym counts = "u32 list"

definition bump :: "core_state \<Rightarrow> counts \<Rightarrow> counts" where
  "bump s cs = cs[state_ix s := cs ! state_ix s + 1]"

abbreviation ch :: "char \<Rightarrow> u8" where
  "ch c \<equiv> of_char c"

definition ee_isdigit :: "u8 \<Rightarrow> bool" where
  "ee_isdigit c \<longleftrightarrow> ch (CHR ''0'') \<le> c \<and> c \<le> ch (CHR ''9'')"

definition is_sign :: "u8 \<Rightarrow> bool" where
  "is_sign c \<longleftrightarrow> c = ch (CHR ''+'') \<or> c = ch (CHR ''-'')"

definition is_dot :: "u8 \<Rightarrow> bool" where
  "is_dot c \<longleftrightarrow> c = ch (CHR ''.'')"

definition is_exp :: "u8 \<Rightarrow> bool" where
  "is_exp c \<longleftrightarrow> c = ch (CHR ''E'') \<or> c = ch (CHR ''e'')"

text \<open>
  The switch of \<open>core_state_transition\<close>: one symbol, with the counters the source bumps in each
  branch (the start and scientific states count an invalid symbol under CORE_INVALID, the others
  under the state they leave).
\<close>

fun state_switch :: "u8 \<Rightarrow> core_state \<Rightarrow> counts \<Rightarrow> core_state \<times> counts" where
  "state_switch c CORE_START tc =
     (let (s, tc) =
        (if ee_isdigit c then (CORE_INT, tc)
         else if is_sign c then (CORE_S1, tc)
         else if is_dot c then (CORE_FLOAT, tc)
         else (CORE_INVALID, bump CORE_INVALID tc))
      in (s, bump CORE_START tc))"
| "state_switch c CORE_S1 tc =
     (if ee_isdigit c then (CORE_INT, bump CORE_S1 tc)
      else if is_dot c then (CORE_FLOAT, bump CORE_S1 tc)
      else (CORE_INVALID, bump CORE_S1 tc))"
| "state_switch c CORE_INT tc =
     (if is_dot c then (CORE_FLOAT, bump CORE_INT tc)
      else if \<not> ee_isdigit c then (CORE_INVALID, bump CORE_INT tc)
      else (CORE_INT, tc))"
| "state_switch c CORE_FLOAT tc =
     (if is_exp c then (CORE_S2, bump CORE_FLOAT tc)
      else if \<not> ee_isdigit c then (CORE_INVALID, bump CORE_FLOAT tc)
      else (CORE_FLOAT, tc))"
| "state_switch c CORE_S2 tc =
     (if is_sign c then (CORE_EXPONENT, bump CORE_S2 tc)
      else (CORE_INVALID, bump CORE_S2 tc))"
| "state_switch c CORE_EXPONENT tc =
     (if ee_isdigit c then (CORE_SCIENTIFIC, bump CORE_EXPONENT tc)
      else (CORE_INVALID, bump CORE_EXPONENT tc))"
| "state_switch c CORE_SCIENTIFIC tc =
     (if \<not> ee_isdigit c then (CORE_INVALID, bump CORE_INVALID tc)
      else (CORE_SCIENTIFIC, tc))"
| "state_switch c CORE_INVALID tc = (CORE_INVALID, tc)"

function transition_loop ::
  "u8 list \<Rightarrow> nat \<Rightarrow> core_state \<Rightarrow> counts \<Rightarrow> (core_state \<times> nat \<times> counts) option" where
  "transition_loop mem str state tc =
     (case rd mem str of
        None \<Rightarrow> None
      | Some c \<Rightarrow>
          if c = 0 \<or> state = CORE_INVALID then Some (state, str, tc)
          else if c = ch (CHR '','') then Some (state, str + 1, tc)
          else let (state, tc) = state_switch c state tc
               in transition_loop mem (str + 1) state tc)"
  by pat_completeness auto
termination
  by (relation "measure (\<lambda>(mem, str, state, tc). length mem - str)")
    (auto simp: rd_def split: if_splits)

declare transition_loop.simps [simp del]

definition core_state_transition ::
  "u8 list \<Rightarrow> nat \<Rightarrow> counts \<Rightarrow> (core_state \<times> nat \<times> counts) option" where
  "core_state_transition mem instr transition_count =
     transition_loop mem instr CORE_START transition_count"

lemma transition_loop_progress:
  "transition_loop mem str s tc = Some (s', p, tc') \<Longrightarrow> str \<le> p \<and> p \<le> length mem"
proof (induction mem str s tc rule: transition_loop.induct)
  case (1 mem str s tc)
  then show ?case
    by (subst (asm) transition_loop.simps)
      (fastforce simp: rd_def split: if_splits prod.splits)
qed

lemma transition_consumes:
  assumes "core_state_transition mem p tc = Some (s', p', tc')"
    and "rd mem p = Some c" and "c \<noteq> 0"
  shows "p < p' \<and> p' \<le> length mem"
proof (cases "c = ch (CHR '','')")
  case True
  with assms show ?thesis
    by (simp add: core_state_transition_def transition_loop.simps [of mem p] rd_def split: if_splits)
next
  case False
  with assms obtain s tc0 where "transition_loop mem (p + 1) s tc0 = Some (s', p', tc')"
    by (auto simp: core_state_transition_def transition_loop.simps [of mem p] split: prod.splits)
  from transition_loop_progress [OF this] show ?thesis by simp
qed

section \<open>The benchmark\<close>

text \<open>The loop that runs the machine over the whole input.\<close>

function scan_tokens :: "u8 list \<Rightarrow> nat \<Rightarrow> counts \<Rightarrow> counts \<Rightarrow> (counts \<times> counts) option" where
  "scan_tokens mem p final_counts track_counts =
     (case rd mem p of
        None \<Rightarrow> None
      | Some c \<Rightarrow>
          if c = 0 then Some (final_counts, track_counts)
          else case core_state_transition mem p track_counts of
                 None \<Rightarrow> None
               | Some (fstate, p', track_counts) \<Rightarrow>
                   scan_tokens mem p' (bump fstate final_counts) track_counts)"
  by pat_completeness auto
termination
  by (relation "measure (\<lambda>(mem, p, f, t). length mem - p)")
    (auto dest!: transition_consumes simp: rd_def split: if_splits)

declare scan_tokens.simps [simp del]

text \<open>
  The corruption loop, used twice: every \<open>step\<close> bytes, a byte that is not a comma is xored with
  the low byte of the seed. A step of zero never ends.
\<close>

partial_function (option) corrupt :: "u8 list \<Rightarrow> int \<Rightarrow> int \<Rightarrow> u8 \<Rightarrow> int \<Rightarrow> u8 list option" where
  "corrupt mem p blksize seed step =
     (if p < blksize then
        if p < 0 then None
        else do {
          c \<leftarrow> rd mem (nat p);
          mem \<leftarrow> (if c \<noteq> ch (CHR '','') then wr mem (nat p) (c XOR seed) else Some mem);
          corrupt mem (p + step) blksize seed step
        }
      else Some mem)"

declare corrupt.simps [code]

definition core_bench_state ::
  "u32 \<Rightarrow> u8 list \<Rightarrow> s16 \<Rightarrow> s16 \<Rightarrow> s16 \<Rightarrow> u16 \<Rightarrow> (u16 \<times> u8 list) option" where
  "core_bench_state blksize memblock seed1 seed2 step crc = do {
     let zeros = replicate NUM_CORE_STATES 0;
     (final_counts, track_counts) \<leftarrow> scan_tokens memblock 0 zeros zeros;
     memblock \<leftarrow> corrupt memblock 0 (uint blksize) (ucast seed1) (sint step);
     (final_counts, track_counts) \<leftarrow> scan_tokens memblock 0 final_counts track_counts;
     memblock \<leftarrow> corrupt memblock 0 (uint blksize) (ucast seed2) (sint step);
     let crc = fold (\<lambda>i crc. crcu32 (track_counts ! i) (crcu32 (final_counts ! i) crc))
                 [0..<NUM_CORE_STATES] crc;
     Some (crc, memblock)
   }"

section \<open>Input generation\<close>

definition pat :: "string \<Rightarrow> u8 list" where
  "pat s = map of_char s"

definition intpat :: "u8 list list" where
  "intpat = map pat [''5012'', ''1234'', ''-874'', ''+122'']"

definition floatpat :: "u8 list list" where
  "floatpat = map pat [''35.54400'', ''.1234500'', ''-110.700'', ''+0.64400'']"

definition scipat :: "u8 list list" where
  "scipat = map pat [''5.500e+3'', ''-.123e-2'', ''-87e+832'', ''+0.6e-12'']"

definition errpat :: "u8 list list" where
  "errpat = map pat [''T0.3e-1F'', ''-T.T++Tq'', ''1T3.4e4z'', ''34.0e-T^'']"

fun store_bytes :: "u8 list \<Rightarrow> nat \<Rightarrow> u8 list \<Rightarrow> u8 list option" where
  "store_bytes mem i [] = Some mem"
| "store_bytes mem i (b # bs) = wr mem i b \<bind> (\<lambda>mem. store_bytes mem (i + 1) bs)"

text \<open>The pattern the seed selects and its length.\<close>

definition select_pattern :: "s16 \<Rightarrow> u8 list \<times> u32" where
  "select_pattern seed =
     (let kind = unat ((scast seed :: s32) AND 7);
          k = unat (signed_drop_bit 3 (scast seed :: s32) AND 3)
      in if kind \<le> 2 then (intpat ! k, 4)
         else if kind \<le> 4 then (floatpat ! k, 8)
         else if kind \<le> 6 then (scipat ! k, 8)
         else (errpat ! k, 8))"

partial_function (option) init_loop ::
  "u32 \<Rightarrow> u32 \<Rightarrow> u32 \<Rightarrow> u8 list \<Rightarrow> s16 \<Rightarrow> u8 list \<Rightarrow> (u32 \<times> u8 list) option" where
  "init_loop lim tot next buf seed p =
     (if tot + next + 1 < lim then do {
        p \<leftarrow> (if next > 0
              then store_bytes p (unat tot) (take (unat next) buf @ [ch (CHR '','')])
              else Some p);
        let tot = (if next > 0 then tot + next + 1 else tot);
        let seed = seed + 1;
        let (buf, next) = select_pattern seed;
        init_loop lim tot next buf seed p
      }
      else Some (tot, p))"

declare init_loop.simps [code]

definition core_init_state :: "u32 \<Rightarrow> s16 \<Rightarrow> u8 list \<Rightarrow> u8 list option" where
  "core_init_state sz seed p = do {
     (tot, p) \<leftarrow> init_loop (sz - 1) 0 0 [] seed p;
     store_bytes p (unat tot) (replicate (unat sz - unat tot) 0)
   }"


section \<open>The language each state recognises\<close>

text \<open>
  The switch without its counters, and its run over one token. The states' languages are stated
  as sets of byte strings: an optional sign, digits, a fraction, and a signed exponent.
\<close>

definition delta :: "core_state \<Rightarrow> u8 \<Rightarrow> core_state" where
  "delta s c = fst (state_switch c s (replicate NUM_CORE_STATES 0))"

lemma state_switch_delta: "fst (state_switch c s tc) = delta s c"
  by (cases s) (auto simp: delta_def Let_def)

definition run_token :: "u8 list \<Rightarrow> core_state" where
  "run_token t = foldl delta CORE_START t"

definition digits :: "u8 list \<Rightarrow> bool" where
  "digits ds \<longleftrightarrow> list_all ee_isdigit ds"

definition opt_sign :: "u8 list \<Rightarrow> bool" where
  "opt_sign sg \<longleftrightarrow> sg = [] \<or> (\<exists>c. sg = [c] \<and> is_sign c)"

definition int_token :: "u8 list \<Rightarrow> bool" where
  "int_token t \<longleftrightarrow> (\<exists>sg ds. t = sg @ ds \<and> opt_sign sg \<and> digits ds \<and> ds \<noteq> [])"

definition float_token :: "u8 list \<Rightarrow> bool" where
  "float_token t \<longleftrightarrow>
     (\<exists>sg ds d fs. t = sg @ ds @ d # fs \<and> opt_sign sg \<and> digits ds \<and> is_dot d \<and> digits fs)"

definition sci_token :: "u8 list \<Rightarrow> bool" where
  "sci_token t \<longleftrightarrow>
     (\<exists>u e s ds. t = u @ e # s # ds \<and> float_token u \<and> is_exp e \<and> is_sign s \<and> digits ds \<and> ds \<noteq> [])"

lemmas char_classes = ee_isdigit_def is_sign_def is_dot_def is_exp_def

lemma classes_disjoint [simp]:
  "is_sign c \<Longrightarrow> ee_isdigit c = False" "is_dot c \<Longrightarrow> ee_isdigit c = False"
  "is_exp c \<Longrightarrow> ee_isdigit c = False" "is_dot c \<Longrightarrow> is_sign c = False"
  "is_exp c \<Longrightarrow> is_sign c = False" "is_exp c \<Longrightarrow> is_dot c = False"
  by (auto simp: char_classes)

lemma delta_simps [simp]:
  "delta CORE_START c = (if ee_isdigit c then CORE_INT else if is_sign c then CORE_S1
     else if is_dot c then CORE_FLOAT else CORE_INVALID)"
  "delta CORE_S1 c = (if ee_isdigit c then CORE_INT else if is_dot c then CORE_FLOAT else CORE_INVALID)"
  "delta CORE_INT c = (if is_dot c then CORE_FLOAT else if ee_isdigit c then CORE_INT else CORE_INVALID)"
  "delta CORE_FLOAT c = (if is_exp c then CORE_S2 else if ee_isdigit c then CORE_FLOAT else CORE_INVALID)"
  "delta CORE_S2 c = (if is_sign c then CORE_EXPONENT else CORE_INVALID)"
  "delta CORE_EXPONENT c = (if ee_isdigit c then CORE_SCIENTIFIC else CORE_INVALID)"
  "delta CORE_SCIENTIFIC c = (if ee_isdigit c then CORE_SCIENTIFIC else CORE_INVALID)"
  "delta CORE_INVALID c = CORE_INVALID"
  by (simp_all add: delta_def Let_def)

lemma foldl_digits:
  "digits ds \<Longrightarrow> s = CORE_INT \<or> s = CORE_FLOAT \<or> s = CORE_SCIENTIFIC \<Longrightarrow> foldl delta s ds = s"
  by (induction ds) (auto simp: digits_def)

lemma foldl_digits_Cons:
  "digits ds \<Longrightarrow> ds \<noteq> [] \<Longrightarrow> s = CORE_START \<or> s = CORE_S1 \<Longrightarrow> foldl delta s ds = CORE_INT"
  "digits ds \<Longrightarrow> ds \<noteq> [] \<Longrightarrow> foldl delta CORE_EXPONENT ds = CORE_SCIENTIFIC"
  by (cases ds; auto simp: digits_def foldl_digits)+

lemma foldl_opt_sign: "opt_sign sg \<Longrightarrow> foldl delta CORE_START sg = (if sg = [] then CORE_START else CORE_S1)"
  by (auto simp: opt_sign_def)

lemma run_int: "int_token t \<Longrightarrow> run_token t = CORE_INT"
  by (auto simp: int_token_def run_token_def foldl_opt_sign foldl_digits_Cons)

lemma run_float: "float_token t \<Longrightarrow> run_token t = CORE_FLOAT"
proof -
  assume "float_token t"
  then obtain sg ds d fs where t: "t = sg @ ds @ d # fs" "opt_sign sg" "digits ds" "is_dot d" "digits fs"
    by (auto simp: float_token_def)
  then have "delta (foldl delta (foldl delta CORE_START sg) ds) d = CORE_FLOAT"
    by (cases "ds = []") (auto simp: foldl_opt_sign foldl_digits_Cons)
  with t show ?thesis by (simp add: run_token_def foldl_digits)
qed

lemma run_sci: "sci_token t \<Longrightarrow> run_token t = CORE_SCIENTIFIC"
proof -
  assume "sci_token t"
  then obtain u e s ds where t: "t = u @ e # s # ds" "float_token u" "is_exp e" "is_sign s" "digits ds" "ds \<noteq> []"
    by (auto simp: sci_token_def)
  with run_float [of u] show ?thesis by (simp add: run_token_def foldl_digits_Cons)
qed

text \<open>The shape of the strings that lead to each state, by induction from the right.\<close>

definition state_shape :: "core_state \<Rightarrow> u8 list \<Rightarrow> bool" where
  "state_shape s t = (case s of
       CORE_START \<Rightarrow> t = []
     | CORE_INVALID \<Rightarrow> True
     | CORE_S1 \<Rightarrow> opt_sign t \<and> t \<noteq> []
     | CORE_S2 \<Rightarrow> (\<exists>u e. t = u @ [e] \<and> float_token u \<and> is_exp e)
     | CORE_INT \<Rightarrow> int_token t
     | CORE_FLOAT \<Rightarrow> float_token t
     | CORE_EXPONENT \<Rightarrow> (\<exists>u e s. t = u @ [e, s] \<and> float_token u \<and> is_exp e \<and> is_sign s)
     | CORE_SCIENTIFIC \<Rightarrow> sci_token t)"

lemma int_token_snoc: "int_token t \<or> opt_sign t \<Longrightarrow> ee_isdigit c \<Longrightarrow> int_token (t @ [c])"
  by (fastforce simp: int_token_def digits_def intro: exI [of _ "[]"])

lemma float_token_snoc: "float_token t \<Longrightarrow> ee_isdigit c \<Longrightarrow> float_token (t @ [c])"
proof -
  assume "float_token t" and c: "ee_isdigit c"
  then obtain sg ds d fs where "t = sg @ ds @ d # fs" "opt_sign sg" "digits ds" "is_dot d" "digits fs"
    by (auto simp: float_token_def)
  with c have "t @ [c] = sg @ ds @ d # (fs @ [c]) \<and> digits (fs @ [c])"
    by (simp add: digits_def)
  with \<open>opt_sign sg\<close> \<open>digits ds\<close> \<open>is_dot d\<close> show ?thesis unfolding float_token_def by blast
qed

lemma float_token_dot: "int_token t \<or> opt_sign t \<Longrightarrow> is_dot c \<Longrightarrow> float_token (t @ [c])"
proof -
  assume t: "int_token t \<or> opt_sign t" and c: "is_dot c"
  have "opt_sign t \<Longrightarrow> t = t @ [] \<and> digits []" by (simp add: digits_def)
  with t obtain sg ds where "t = sg @ ds" "opt_sign sg" "digits ds"
    unfolding int_token_def by blast
  with c show ?thesis unfolding float_token_def
    by (intro exI [of _ sg] exI [of _ ds] exI [of _ c] exI [of _ "[]"]) (simp add: digits_def)
qed

lemma sci_token_snoc: "sci_token t \<Longrightarrow> ee_isdigit c \<Longrightarrow> sci_token (t @ [c])"
  by (fastforce simp: sci_token_def digits_def)

lemma sci_token_start:
  "float_token u \<Longrightarrow> is_exp e \<Longrightarrow> is_sign s \<Longrightarrow> ee_isdigit c \<Longrightarrow> sci_token (u @ [e, s, c])"
  unfolding sci_token_def
  by (intro exI [of _ u] exI [of _ e] exI [of _ s] exI [of _ "[c]"]) (simp add: digits_def)

lemma opt_sign_simps: "opt_sign []" "opt_sign [c] = is_sign c"
  by (simp_all add: opt_sign_def)

lemma state_shape_run: "state_shape (run_token t) t"
proof (induction t rule: rev_induct)
  case Nil
  then show ?case by (simp add: run_token_def state_shape_def)
next
  case (snoc c t)
  have "run_token (t @ [c]) = delta (run_token t) c" by (simp add: run_token_def)
  with snoc show ?case
    by (cases "run_token t")
      (auto simp: state_shape_def opt_sign_simps int_token_snoc float_token_snoc float_token_dot
        sci_token_snoc sci_token_start [simplified] int_token_snoc [of "[]", simplified]
        float_token_dot [of "[]", simplified])
qed

lemma run_token_iff:
  "run_token t = CORE_INT \<longleftrightarrow> int_token t"
  "run_token t = CORE_FLOAT \<longleftrightarrow> float_token t"
  "run_token t = CORE_SCIENTIFIC \<longleftrightarrow> sci_token t"
  using state_shape_run [of t] run_int [of t] run_float [of t] run_sci [of t]
  by (cases "run_token t"; fastforce simp: state_shape_def)+

section \<open>Scanning stays inside the block\<close>

lemma transition_loop_total:
  "z < length mem \<Longrightarrow> mem ! z = 0 \<Longrightarrow> str \<le> z \<Longrightarrow>
     \<exists>s' p tc'. transition_loop mem str s tc = Some (s', p, tc') \<and> str \<le> p \<and> p \<le> z"
proof (induction mem str s tc rule: transition_loop.induct)
  case (1 mem str s tc)
  let ?c = "mem ! str"
  have rd: "rd mem str = Some ?c" using "1.prems" by (simp add: rd_def)
  consider (stop) "?c = 0 \<or> s = CORE_INVALID" | (comma) "?c \<noteq> 0" "s \<noteq> CORE_INVALID" "?c = ch (CHR '','')"
    | (go) "?c \<noteq> 0" "s \<noteq> CORE_INVALID" "?c \<noteq> ch (CHR '','')" by blast
  then show ?case
  proof cases
    case stop
    then show ?thesis using "1.prems" by (subst transition_loop.simps) (auto simp: rd)
  next
    case comma
    with "1.prems" have "str < z" by (metis nat_less_le)
    with comma show ?thesis by (subst transition_loop.simps) (simp add: rd)
  next
    case go
    with "1.prems" have "str + 1 \<le> z" by (metis Suc_eq_plus1 Suc_leI nat_less_le)
    obtain s2 tc2 where sw: "state_switch ?c s tc = (s2, tc2)" by fastforce
    from go "1.IH" [OF rd _ _ sw [symmetric] refl] "1.prems" \<open>str + 1 \<le> z\<close>
    obtain s' p tc' where "transition_loop mem (str + 1) s2 tc2 = Some (s', p, tc')" "str + 1 \<le> p" "p \<le> z"
      by auto
    with go sw show ?thesis by (subst transition_loop.simps) (simp add: rd)
  qed
qed

lemma scan_tokens_total:
  "z < length mem \<Longrightarrow> mem ! z = 0 \<Longrightarrow> p \<le> z \<Longrightarrow> \<exists>f' t'. scan_tokens mem p f t = Some (f', t')"
proof (induction mem p f t rule: scan_tokens.induct)
  case (1 mem p f t)
  let ?c = "mem ! p"
  have rd: "rd mem p = Some ?c" using "1.prems" by (simp add: rd_def)
  show ?case
  proof (cases "?c = 0")
    case True
    then show ?thesis by (subst scan_tokens.simps) (simp add: rd)
  next
    case False
    obtain s p' t2 where tr: "core_state_transition mem p t = Some (s, p', t2)" "p' \<le> z"
      using transition_loop_total [OF "1.prems"] unfolding core_state_transition_def by blast
    with "1.IH" [OF rd False tr(1) refl refl] "1.prems" False show ?thesis
      by (subst scan_tokens.simps) (simp add: rd)
  qed
qed

section \<open>Corruption\<close>

definition visited :: "int \<Rightarrow> int \<Rightarrow> int \<Rightarrow> nat \<Rightarrow> bool" where
  "visited p blksize step i \<longleftrightarrow> p \<le> int i \<and> int i < blksize \<and> step dvd (int i - p)"

definition flip_byte :: "u8 \<Rightarrow> u8 \<Rightarrow> u8" where
  "flip_byte seed c = (if c \<noteq> ch (CHR '','') then c XOR seed else c)"

definition corrupted :: "u8 list \<Rightarrow> int \<Rightarrow> int \<Rightarrow> u8 \<Rightarrow> int \<Rightarrow> u8 list" where
  "corrupted mem p blksize seed step =
     map (\<lambda>i. if visited p blksize step i then flip_byte seed (mem ! i) else mem ! i) [0..<length mem]"

lemma visited_step:
  assumes "0 < step" "p < blksize"
  shows "visited p blksize step i \<longleftrightarrow> int i = p \<or> visited (p + step) blksize step i"
proof -
  have "step dvd (int i - p) \<longleftrightarrow> step dvd (int i - (p + step))"
  proof -
    have "int i - (p + step) = (int i - p) - step" by simp
    then show ?thesis by (metis dvd_refl dvd_diff_left_iff dvd_diff_right_iff)
  qed
  moreover have "p + step \<le> int i" if "step dvd (int i - p)" "p \<le> int i" "int i \<noteq> p"
    using zdvd_imp_le [OF that(1)] that by simp
  ultimately show ?thesis using assms unfolding visited_def by auto
qed

lemma corrupt_eq:
  assumes "0 \<le> p" "0 < step" "blksize \<le> int (length mem)"
  shows "corrupt mem p blksize seed step = Some (corrupted mem p blksize seed step)"
  using assms
proof (induction "nat (blksize - p)" arbitrary: mem p rule: less_induct)
  case less
  show ?case
  proof (cases "p < blksize")
    case False
    then have "corrupted mem p blksize seed step = mem"
      by (intro nth_equalityI) (auto simp: corrupted_def visited_def)
    with False show ?thesis by (subst corrupt.simps) simp
  next
    case True
    let ?i = "nat p"
    let ?m = "mem[?i := flip_byte seed (mem ! ?i)]"
    have i: "?i < length mem" "int ?i = p" using True less.prems by auto
    have comma: "mem[?i := ch (CHR '','')] = mem" if "mem ! ?i = ch (CHR '','')"
      using that by (metis list_update_id)
    have "(if mem ! ?i \<noteq> ch (CHR '','') then wr mem ?i (mem ! ?i XOR seed) else Some mem) = Some ?m"
      using i comma by (simp add: wr_def flip_byte_def)
    then have "corrupt mem p blksize seed step = corrupt ?m (p + step) blksize seed step"
      using True less.prems(1) i(1) by (subst corrupt.simps) (simp add: rd_def)
    also have "\<dots> = Some (corrupted ?m (p + step) blksize seed step)"
      using True less.prems by (intro less.hyps) auto
    also have "corrupted ?m (p + step) blksize seed step = corrupted mem p blksize seed step"
    proof (rule nth_equalityI)
      fix j assume "j < length (corrupted ?m (p + step) blksize seed step)"
      then show "corrupted ?m (p + step) blksize seed step ! j = corrupted mem p blksize seed step ! j"
        using i visited_step [OF less.prems(2) True, of j] less.prems(2)
        by (cases "j = ?i") (auto simp: corrupted_def visited_def)
    qed (simp add: corrupted_def)
    finally show ?thesis .
  qed
qed

lemma length_corrupted [simp]: "length (corrupted mem p b s st) = length mem"
  by (simp add: corrupted_def)

lemma visited_not_adjacent:
  assumes "2 \<le> step" shows "\<not> (visited p b step i \<and> visited p b step (Suc i))"
proof
  assume "visited p b step i \<and> visited p b step (Suc i)"
  then have "step dvd (int i - p)" "step dvd (int (Suc i) - p)" by (auto simp: visited_def)
  then have "step dvd ((int (Suc i) - p) - (int i - p))" by (rule dvd_diff [rotated])
  then have "step dvd 1" by simp
  then show False using assms by (simp add: zdvd_not_zless)
qed

section \<open>The benchmark on a terminated block\<close>

text \<open>Two zero bytes at the end of the block, which is how the generator leaves it.\<close>

definition terminated :: "nat \<Rightarrow> u8 list \<Rightarrow> bool" where
  "terminated n mem \<longleftrightarrow> 2 \<le> n \<and> n \<le> length mem \<and> mem ! (n - 1) = 0 \<and> mem ! (n - 2) = 0"

lemma terminated_zero_kept:
  assumes "terminated n mem" "2 \<le> step"
  obtains z where "z < n" "corrupted mem 0 (int n) seed step ! z = 0"
proof -
  have adj: "\<not> (visited 0 (int n) step (n - 2) \<and> visited 0 (int n) step (Suc (n - 2)))"
    using assms(2) by (rule visited_not_adjacent)
  have n: "Suc (n - 2) = n - 1" "n - 1 < length mem" "n - 2 < length mem" "2 \<le> n"
    using assms(1) by (auto simp: terminated_def)
  show thesis
  proof (cases "visited 0 (int n) step (n - 2)")
    case True
    with adj n assms(1) show thesis
      by (intro that [of "n - 1"]) (auto simp: corrupted_def terminated_def)
  next
    case False
    with n assms(1) show thesis
      by (intro that [of "n - 2"]) (auto simp: corrupted_def terminated_def)
  qed
qed

lemma bench_state_eq:
  assumes "terminated (unat blksize) mem" "2 \<le> sint step"
  obtains crc' where
    "core_bench_state blksize mem seed1 seed2 step crc =
       Some (crc', corrupted (corrupted mem 0 (uint blksize) (ucast seed1) (sint step))
                     0 (uint blksize) (ucast seed2) (sint step))"
proof -
  let ?n = "unat blksize"
  let ?m = "corrupted mem 0 (uint blksize) (ucast seed1) (sint step)"
  have len: "uint blksize = int ?n" "?n \<le> length mem" "?n - 1 < length mem" "mem ! (?n - 1) = 0"
    using assms(1) by (auto simp: terminated_def)
  have le: "uint blksize \<le> int (length mem)"
    using len(2) unfolding len(1) by (rule of_nat_mono)
  have c1: "corrupt mem 0 (uint blksize) (ucast seed1) (sint step) = Some ?m"
    using assms(2) le by (intro corrupt_eq) simp_all
  have c2: "corrupt ?m 0 (uint blksize) (ucast seed2) (sint step) =
      Some (corrupted ?m 0 (uint blksize) (ucast seed2) (sint step))"
    using assms(2) le by (intro corrupt_eq) simp_all
  obtain z where "z < ?n" "?m ! z = 0"
    using terminated_zero_kept [OF assms] len(1) by metis
  then have s2: "\<exists>f' t'. scan_tokens ?m 0 f t = Some (f', t')" for f t
    using len(2) by (intro scan_tokens_total [of z]) auto
  have s1: "\<exists>f' t'. scan_tokens mem 0 f t = Some (f', t')" for f t
    using len(3,4) by (intro scan_tokens_total [of "?n - 1"]) auto
  obtain f1 t1 where "scan_tokens mem 0 (replicate NUM_CORE_STATES 0) (replicate NUM_CORE_STATES 0) = Some (f1, t1)"
    using s1 by blast
  moreover obtain f2 t2 where "scan_tokens ?m 0 f1 t1 = Some (f2, t2)" using s2 by blast
  ultimately have "\<exists>crc'. core_bench_state blksize mem seed1 seed2 step crc =
      Some (crc', corrupted ?m 0 (uint blksize) (ucast seed2) (sint step))"
    unfolding core_bench_state_def Let_def
    by (simp only: c1 c2 bind.bind_lunit prod.case option.simps ex_simps prod.inject HOL.simp_thms)
  then show thesis using that by blast
qed

lemma corrupted_twice:
  assumes "\<And>i. i < length mem \<Longrightarrow> mem ! i \<noteq> ch (CHR '','') \<Longrightarrow> mem ! i XOR s \<noteq> ch (CHR '','')"
  shows "corrupted (corrupted mem p b s st) p b s st = mem"
  using assms
  by (intro nth_equalityI) (auto simp: corrupted_def flip_byte_def xor.assoc)

section \<open>The generator\<close>

lemma store_bytes_eq:
  "i + length bs \<le> length mem \<Longrightarrow>
     store_bytes mem i bs = Some (take i mem @ bs @ drop (i + length bs) mem)"
proof (induction bs arbitrary: mem i)
  case (Cons b bs)
  then show ?case
    by (simp add: wr_def take_Suc_conv_app_nth drop_update_cancel take_update_swap
        upd_conv_take_nth_drop add.commute)
qed simp

lemma word_and_3: "unat ((x::s32) AND 3) \<in> {0, 1, 2, 3}"
proof -
  have "x AND 3 = take_bit 2 x" by (simp add: take_bit_eq_mask mask_eq_exp_minus_1)
  then have "unat (x AND 3) = take_bit 2 (unat x)" by (simp only: unsigned_take_bit_eq)
  also have "\<dots> < 2 ^ 2" by (rule take_bit_nat_less_exp)
  finally have "unat (x AND 3) < 4" by simp
  then show ?thesis by auto
qed

lemma select_pattern_length:
  assumes "select_pattern seed = (buf, next)"
  shows "length buf = unat next \<and> 4 \<le> unat next \<and> unat next \<le> 8"
  using assms word_and_3 [of "signed_drop_bit 3 (scast seed :: s32)"]
  by (auto simp: select_pattern_def Let_def intpat_def floatpat_def scipat_def errpat_def pat_def
      split: if_splits)

text \<open>All the bytes the generator writes, the final zeros apart.\<close>

definition pattern_bytes :: "u8 list" where
  "pattern_bytes = ch (CHR '','') # concat (intpat @ floatpat @ scipat @ errpat)"

lemma select_pattern_bytes: "set (fst (select_pattern seed)) \<subseteq> set pattern_bytes"
  using word_and_3 [of "signed_drop_bit 3 (scast seed :: s32)"]
  by (auto simp: select_pattern_def Let_def pattern_bytes_def intpat_def floatpat_def scipat_def errpat_def)

lemma init_loop_total:
  assumes "unat lim + 16 < 2 ^ 32" "unat lim \<le> length p" "unat tot \<le> unat lim"
    and "length buf = unat next" "unat next \<le> 8"
    and "set buf \<subseteq> set pattern_bytes" "set (take (unat tot) p) \<subseteq> set pattern_bytes"
  shows "\<exists>tot' p'. init_loop lim tot next buf seed p = Some (tot', p') \<and> length p' = length p \<and>
           (tot' = tot \<or> unat tot' < unat lim) \<and> set (take (unat tot') p') \<subseteq> set pattern_bytes"
  using assms
proof (induction "2 * (unat lim - unat tot) + (if next = 0 then 1 else 0)"
    arbitrary: tot "next" buf seed p rule: less_induct)
  case less
  have u: "unat (tot + next + 1) = unat tot + unat next + 1"
    using less.prems by (simp add: unat_word_ariths)
  show ?case
  proof (cases "tot + next + 1 < lim")
    case False
    then show ?thesis using less.prems(7) by (subst init_loop.simps) simp
  next
    case True
    then have lt: "unat tot + unat next + 1 < unat lim" by (simp add: word_less_nat_alt u)
    define tot2 where "tot2 = (if next > 0 then tot + next + 1 else tot)"
    obtain buf2 next2 where sel: "select_pattern (seed + 1) = (buf2, next2)" by fastforce
    note len2 = select_pattern_length [OF sel]
    have "\<exists>p2. (if next > 0 then store_bytes p (unat tot) (take (unat next) buf @ [ch (CHR '','')])
        else Some p) = Some p2 \<and> length p2 = length p \<and> set (take (unat tot2) p2) \<subseteq> set pattern_bytes"
    proof (cases "next = 0")
      case True
      with less.prems show ?thesis by (simp add: tot2_def)
    next
      case False
      then have "unat tot2 = unat tot + unat next + 1" using u by (simp add: tot2_def word_gt_0)
      with False less.prems lt show ?thesis
        by (auto simp: store_bytes_eq word_gt_0 pattern_bytes_def dest!: set_mp [OF set_take_subset])
    qed
    then obtain p2 where st: "(if next > 0 then store_bytes p (unat tot) (take (unat next) buf @ [ch (CHR '','')])
        else Some p) = Some p2" and lp: "length p2 = length p" "set (take (unat tot2) p2) \<subseteq> set pattern_bytes" by blast
    have dec: "2 * (unat lim - unat tot2) + (if next2 = 0 then 1 else 0) <
        2 * (unat lim - unat tot) + (if next = 0 then 1 else 0)"
      using lt len2 u by (auto simp: tot2_def word_gt_0)
    have t2: "unat tot2 \<le> unat lim" "tot2 = tot \<or> unat tot2 < unat lim"
      using lt u by (auto simp: tot2_def)
    have "init_loop lim tot next buf seed p = init_loop lim tot2 next2 buf2 (seed + 1) p2"
      using True st by (subst init_loop.simps) (simp add: sel tot2_def)
    moreover have "set buf2 \<subseteq> set pattern_bytes" using select_pattern_bytes [of "seed + 1"] sel by simp
    ultimately show ?thesis
      using less.hyps [OF dec, of p2 buf2 "seed + 1"] less.prems len2 lp t2 by auto
  qed
qed

lemma init_state_terminated:
  assumes "2 \<le> unat sz" "unat sz + 16 < 2 ^ 32" "unat sz \<le> length p"
  obtains p' where "core_init_state sz seed p = Some p'" "length p' = length p" "terminated (unat sz) p'"
    "set (take (unat sz) p') \<subseteq> insert 0 (set pattern_bytes)"
proof -
  have s1: "unat (sz - 1) = unat sz - 1"
    using assms(1) by (simp add: unat_sub word_le_nat_alt)
  obtain tot' p1 where il: "init_loop (sz - 1) 0 0 [] seed p = Some (tot', p1)"
    and l1: "length p1 = length p" and t1: "tot' = 0 \<or> unat tot' < unat (sz - 1)"
    and b1: "set (take (unat tot') p1) \<subseteq> set pattern_bytes"
  proof -
    have "unat (sz - 1) + 16 < 2 ^ 32" "unat (sz - 1) \<le> length p"
      unfolding s1 using assms by auto
    from init_loop_total [OF this, of 0 "[]" 0 seed] that show ?thesis by auto
  qed
  let ?k = "unat tot'"
  have k: "?k + 2 \<le> unat sz" using t1 s1 assms(1) by auto
  let ?p = "take ?k p1 @ replicate (unat sz - ?k) 0 @ drop (unat sz) p1"
  have st: "store_bytes p1 ?k (replicate (unat sz - ?k) 0) = Some ?p"
    using k assms l1 by (subst store_bytes_eq) auto
  show thesis
  proof (rule that [of ?p])
    show "core_init_state sz seed p = Some ?p"
      by (simp add: core_init_state_def il st)
    show "length ?p = length p" using k assms l1 by simp
    show "terminated (unat sz) ?p"
      using k assms l1 by (auto simp: terminated_def nth_append)
    show "set (take (unat sz) ?p) \<subseteq> insert 0 (set pattern_bytes)"
      using k assms l1 b1 by (auto simp: min_def)
  qed
qed

section \<open>Properties\<close>

lemma foldl_invalid [simp]: "foldl delta CORE_INVALID t = CORE_INVALID"
  by (induction t) simp_all

lemma transition_loop_run:
  assumes "c = 0 \<or> c = ch (CHR '','')" and "\<forall>b \<in> set t. b \<noteq> 0 \<and> b \<noteq> ch (CHR '','')"
  shows "\<exists>p tc'. transition_loop (pre @ t @ c # rest) (length pre) s tc = Some (foldl delta s t, p, tc') \<and>
           (foldl delta s t \<noteq> CORE_INVALID \<longrightarrow>
              p = length pre + length t + (if c = ch (CHR '','') then 1 else 0))"
  using assms(2)
proof (induction t arbitrary: pre s tc)
  case Nil
  have "rd (pre @ [] @ c # rest) (length pre) = Some c" by (simp add: rd_def)
  then show ?case using assms(1) by (subst transition_loop.simps) auto
next
  case (Cons b t)
  have rd: "rd (pre @ (b # t) @ c # rest) (length pre) = Some b" by (simp add: rd_def)
  obtain s2 tc2 where sw: "state_switch b s tc = (s2, tc2)" by fastforce
  then have s2: "s2 = delta s b" by (metis fst_conv state_switch_delta)
  from Cons.IH [of "pre @ [b]" s2 tc2] Cons.prems
  obtain p tc' where IH: "transition_loop ((pre @ [b]) @ t @ c # rest) (Suc (length pre)) s2 tc2 =
      Some (foldl delta s2 t, p, tc')" "foldl delta s2 t \<noteq> CORE_INVALID \<longrightarrow>
         p = Suc (length pre) + length t + (if c = ch (CHR '','') then 1 else 0)"
    by auto
  show ?case
  proof (cases "s = CORE_INVALID")
    case True
    then show ?thesis using rd by (subst transition_loop.simps) simp
  next
    case False
    with rd Cons.prems sw have "transition_loop (pre @ (b # t) @ c # rest) (length pre) s tc =
        transition_loop (pre @ (b # t) @ c # rest) (Suc (length pre)) s2 tc2"
      by (subst transition_loop.simps) simp
    with IH s2 show ?thesis by simp
  qed
qed

text \<open>C20: The state machine is the recogniser of the number formats: scanning a token that ends at a
  comma or at the terminator reports CORE_INT exactly for an optionally signed digit string,
  CORE_FLOAT exactly for one with a decimal point, CORE_SCIENTIFIC exactly for a decimal with a
  signed exponent, and for every token it does not reject it leaves the pointer behind the
  token and its comma.\<close>

theorem recogniser_language:
  assumes "mem = pre @ t @ c # rest" and "c = 0 \<or> c = ch (CHR '','')"
    and "\<forall>b \<in> set t. b \<noteq> 0 \<and> b \<noteq> ch (CHR '','')"
  shows "\<exists>state p tc'. core_state_transition mem (length pre) tc = Some (state, p, tc') \<and>
           (state = CORE_INT \<longleftrightarrow> int_token t) \<and>
           (state = CORE_FLOAT \<longleftrightarrow> float_token t) \<and>
           (state = CORE_SCIENTIFIC \<longleftrightarrow> sci_token t) \<and>
           (state \<noteq> CORE_INVALID \<longrightarrow>
              p = length pre + length t + (if c = ch (CHR '','') then 1 else 0))"
  unfolding run_token_iff [symmetric]
  using transition_loop_run [OF assms(2,3), of pre rest CORE_START tc] assms(1)
  by (fastforce simp: core_state_transition_def run_token_def)

theorem recogniser_language_witness:
  "\<exists>state p tc'.
     core_state_transition (pat ''5,-1.5e+3,'' @ [0]) (length (pat ''5,'')) (replicate 8 0) =
       Some (state, p, tc') \<and>
     (state = CORE_INT \<longleftrightarrow> int_token (pat ''-1.5e+3'')) \<and>
     (state = CORE_FLOAT \<longleftrightarrow> float_token (pat ''-1.5e+3'')) \<and>
     (state = CORE_SCIENTIFIC \<longleftrightarrow> sci_token (pat ''-1.5e+3'')) \<and>
     (state \<noteq> CORE_INVALID \<longrightarrow>
        p = length (pat ''5,'') + length (pat ''-1.5e+3'') +
            (if ch (CHR '','') = ch (CHR '','') then 1 else 0))"
  by (rule recogniser_language [where rest = "[0]"]) (simp_all add: pat_def)

text \<open>C21: The benchmark stays inside its block: on the input \<open>core_init_state\<close> generates, for every
  pair of seeds and every step of at least two bytes (the list kernel never passes less than
  0x22), both scans end at a terminator the corruption cannot reach, every access is inside the
  block, and a CRC is returned.\<close>

theorem generated_input_scanned_safely:
  assumes "2 \<le> unat sz" and "unat sz + 16 < 2 ^ 32" and "unat sz \<le> length p" and "2 \<le> sint step"
  shows "\<exists>mem crc' mem'. core_init_state sz seed p = Some mem \<and>
           core_bench_state sz mem seed1 seed2 step crc = Some (crc', mem') \<and>
           length mem' = length p"
proof -
  obtain mem where init: "core_init_state sz seed p = Some mem" "length mem = length p"
    and trm: "terminated (unat sz) mem"
    using init_state_terminated assms(1-3) by metis
  from bench_state_eq [OF trm assms(4), of seed1 seed2 crc]
  obtain crc' where "core_bench_state sz mem seed1 seed2 step crc =
      Some (crc', corrupted (corrupted mem 0 (uint sz) (ucast seed1) (sint step))
                    0 (uint sz) (ucast seed2) (sint step))" .
  with init show ?thesis by simp
qed

theorem generated_input_scanned_safely_witness:
  "\<exists>mem crc' mem'. core_init_state 666 0 (replicate 2000 1) = Some mem \<and>
     core_bench_state 666 mem 0x3415 0x3415 0x22 0 = Some (crc', mem') \<and> length mem' = 2000"
  using generated_input_scanned_safely [where sz = 666 and p = "replicate 2000 1" and step = "0x22"
      and seed = 0 and ?seed1.0 = "0x3415" and ?seed2.0 = "0x3415" and crc = 0] by simp

text \<open>C30: With equal seed bytes the second corruption pass undoes the first, so that every iteration
  sees the same input, provided no byte of the block is turned into a comma by the first.\<close>

theorem bench_state_restores_input:
  assumes "terminated (unat blksize) mem" and "2 \<le> sint step"
    and "(ucast seed1 :: u8) = ucast seed2"
    and "\<forall>b \<in> set mem. b \<noteq> ch (CHR '','') \<longrightarrow> b XOR ucast seed1 \<noteq> ch (CHR '','')"
  shows "\<exists>crc'. core_bench_state blksize mem seed1 seed2 step crc = Some (crc', mem)"
proof -
  from bench_state_eq [OF assms(1,2), of seed1 seed2 crc]
  obtain crc' where "core_bench_state blksize mem seed1 seed2 step crc =
      Some (crc', corrupted (corrupted mem 0 (uint blksize) (ucast seed1) (sint step))
                    0 (uint blksize) (ucast seed1) (sint step))"
    unfolding assms(3) [symmetric] .
  moreover have "corrupted (corrupted mem 0 (uint blksize) (ucast seed1) (sint step))
      0 (uint blksize) (ucast seed1) (sint step) = mem"
    using assms(4) by (intro corrupted_twice) simp
  ultimately show ?thesis by simp
qed

theorem bench_state_restores_input_witness:
  "\<exists>crc'. core_bench_state 8 (pat ''5012,1'' @ [0, 0]) 0x3415 0x3415 2 0 = Some (crc', pat ''5012,1'' @ [0, 0])"
proof (rule bench_state_restores_input)
  show "terminated (unat (8::u32)) (pat ''5012,1'' @ [0, 0])"
    by (simp add: terminated_def pat_def)
  show "\<forall>b \<in> set (pat ''5012,1'' @ [0, 0]). b \<noteq> ch (CHR '','') \<longrightarrow> b XOR ucast (0x3415::s16) \<noteq> ch (CHR '','')"
    by (simp add: pat_def)
qed simp_all

text \<open>Without that proviso the input is not restored: with both seeds 0x19 the byte '5' becomes a
  comma, which the second pass skips, although the source says equal seeds undo the corruption.\<close>

theorem bench_state_comma_not_restored:
  "\<exists>crc'. core_bench_state 4 (pat ''57'' @ [0, 0]) 0x19 0x19 3 0 = Some (crc', pat '',7'' @ [0, 0])"
proof -
  have "terminated (unat (4::u32)) (pat ''57'' @ [0, 0])"
    by (simp add: terminated_def pat_def)
  from bench_state_eq [OF this, of 3 "0x19" "0x19" 0] obtain crc' where
    "core_bench_state 4 (pat ''57'' @ [0, 0]) 0x19 0x19 3 0 =
       Some (crc', corrupted (corrupted (pat ''57'' @ [0, 0]) 0 4 0x19 3) 0 4 0x19 3)"
    by auto
  moreover have "corrupted (corrupted (pat ''57'' @ [0, 0]) 0 4 0x19 3) 0 4 0x19 3 = pat '',7'' @ [0, 0]"
    by code_simp
  ultimately show ?thesis by simp
qed

end
