(* ===== verification/CoreMark_Matrix.thy ===== *)
theory CoreMark_Matrix
  imports CoreMark_Util "HOL-Library.Signed_Division"
begin

text \<open>
  CoreMark's matrix kernel (\<open>coremark/core_matrix.c\<close>). The matrices A and B are lists of 16-bit and
  C of 32-bit integers; an access outside them is \<open>None\<close>. Addresses matter only where the block
  is divided.
\<close>

text \<open>The index \<open>i * N + j\<close>, computed in 32 bits.\<close>

definition ix :: "u32 \<Rightarrow> nat \<Rightarrow> nat \<Rightarrow> nat" where
  "ix N i j = unat (of_nat i * N + of_nat j :: u32)"

section \<open>The kernels\<close>

definition matrix_clip :: "s32 \<Rightarrow> bool \<Rightarrow> s32" where
  "matrix_clip x y = (if y then x AND 0x0ff else x AND 0x0ffff)"

definition matrix_big :: "s16 \<Rightarrow> s16" where
  "matrix_big x = 0xf000 OR x"

definition bit_extract :: "s32 \<Rightarrow> nat \<Rightarrow> nat \<Rightarrow> u32" where
  "bit_extract x from to' = signed_drop_bit from x AND NOT (push_bit to' 0xffffffff)"

definition matrix_add_const :: "u32 \<Rightarrow> s16 list \<Rightarrow> s16 \<Rightarrow> s16 list option" where
  "matrix_add_const N A val =
     for_each [0..<unat N] (\<lambda>i. for_each [0..<unat N] (\<lambda>j A. do {
       a \<leftarrow> rd A (ix N i j);
       wr A (ix N i j) (a + val)
     })) A"

definition matrix_mul_const :: "u32 \<Rightarrow> s32 list \<Rightarrow> s16 list \<Rightarrow> s16 \<Rightarrow> s32 list option" where
  "matrix_mul_const N C A val =
     for_each [0..<unat N] (\<lambda>i. for_each [0..<unat N] (\<lambda>j C. do {
       a \<leftarrow> rd A (ix N i j);
       wr C (ix N i j) (scast a * scast val)
     })) C"

definition matrix_mul_vect :: "u32 \<Rightarrow> s32 list \<Rightarrow> s16 list \<Rightarrow> s16 list \<Rightarrow> s32 list option" where
  "matrix_mul_vect N C A B =
     for_each [0..<unat N] (\<lambda>i C. do {
       C \<leftarrow> wr C i 0;
       for_each [0..<unat N] (\<lambda>j C. do {
         c \<leftarrow> rd C i;
         a \<leftarrow> rd A (ix N i j);
         b \<leftarrow> rd B j;
         wr C i (c + scast a * scast b)
       }) C
     }) C"

definition matrix_mul_matrix :: "u32 \<Rightarrow> s32 list \<Rightarrow> s16 list \<Rightarrow> s16 list \<Rightarrow> s32 list option" where
  "matrix_mul_matrix N C A B =
     for_each [0..<unat N] (\<lambda>i. for_each [0..<unat N] (\<lambda>j C. do {
       C \<leftarrow> wr C (ix N i j) 0;
       for_each [0..<unat N] (\<lambda>k C. do {
         c \<leftarrow> rd C (ix N i j);
         a \<leftarrow> rd A (ix N i k);
         b \<leftarrow> rd B (ix N k j);
         wr C (ix N i j) (c + scast a * scast b)
       }) C
     })) C"

definition matrix_mul_matrix_bitextract :: "u32 \<Rightarrow> s32 list \<Rightarrow> s16 list \<Rightarrow> s16 list \<Rightarrow> s32 list option" where
  "matrix_mul_matrix_bitextract N C A B =
     for_each [0..<unat N] (\<lambda>i. for_each [0..<unat N] (\<lambda>j C. do {
       C \<leftarrow> wr C (ix N i j) 0;
       for_each [0..<unat N] (\<lambda>k C. do {
         a \<leftarrow> rd A (ix N i k);
         b \<leftarrow> rd B (ix N k j);
         c \<leftarrow> rd C (ix N i j);
         (let tmp = scast a * scast b :: s32
          in wr C (ix N i j) (c + bit_extract tmp 2 4 * bit_extract tmp 5 7))
       }) C
     })) C"

text \<open>The body of the loop of \<open>matrix_sum\<close> on one element; the state is (tmp, prev, ret).\<close>

definition sum_step :: "s16 \<Rightarrow> s32 \<Rightarrow> s32 \<times> s32 \<times> s16 \<Rightarrow> s32 \<times> s32 \<times> s16" where
  "sum_step clipval cur s = (case s of (tmp, prev, ret) \<Rightarrow>
     let tmp = tmp + cur in
     if sint tmp > sint clipval then (0, cur, ret + 10)
     else (tmp, cur, ret + (if sint cur > sint prev then 1 else 0)))"

definition matrix_sum :: "u32 \<Rightarrow> s32 list \<Rightarrow> s16 \<Rightarrow> s16 option" where
  "matrix_sum N C clipval = do {
     (tmp, prev, ret) \<leftarrow> for_each [0..<unat N] (\<lambda>i. for_each [0..<unat N] (\<lambda>j s. do {
       cur \<leftarrow> rd C (ix N i j);
       Some (sum_step clipval cur s)
     })) (0, 0, 0);
     Some ret
   }"

definition matrix_test ::
  "u32 \<Rightarrow> s32 list \<Rightarrow> s16 list \<Rightarrow> s16 list \<Rightarrow> s16 \<Rightarrow> (s16 \<times> s32 list \<times> s16 list) option" where
  "matrix_test N C A B val = do {
     let clipval = matrix_big val;
     A \<leftarrow> matrix_add_const N A val;
     C \<leftarrow> matrix_mul_const N C A val;
     r \<leftarrow> matrix_sum N C clipval;
     let crc = crc16 r 0;
     C \<leftarrow> matrix_mul_vect N C A B;
     r \<leftarrow> matrix_sum N C clipval;
     let crc = crc16 r crc;
     C \<leftarrow> matrix_mul_matrix N C A B;
     r \<leftarrow> matrix_sum N C clipval;
     let crc = crc16 r crc;
     C \<leftarrow> matrix_mul_matrix_bitextract N C A B;
     r \<leftarrow> matrix_sum N C clipval;
     let crc = crc16 r crc;
     A \<leftarrow> matrix_add_const N A (- val);
     Some (crc, C, A)
   }"

text \<open>The parameters of the benchmark, with the arrays its pointers point to.\<close>

record mat_params =
  mat_N :: u32
  mat_A :: "s16 list"
  mat_B :: "s16 list"
  mat_C :: "s32 list"

definition core_bench_matrix :: "mat_params \<Rightarrow> s16 \<Rightarrow> u16 \<Rightarrow> (u16 \<times> mat_params) option" where
  "core_bench_matrix p seed crc = do {
     (r, C, A) \<leftarrow> matrix_test (mat_N p) (mat_C p) (mat_A p) (mat_B p) seed;
     Some (crc16 r crc, p\<lparr>mat_C := C, mat_A := A\<rparr>)
   }"

section \<open>Initialisation\<close>

text \<open>The search for the dimension. On a huge block it may not end.\<close>

partial_function (option) matrix_dim :: "u32 \<Rightarrow> u32 \<Rightarrow> u32 \<Rightarrow> u32 option" where
  "matrix_dim blksize i j =
     (if j < blksize then matrix_dim blksize (i + 1) ((i + 1) * (i + 1) * 2 * 4)
      else Some (i - 1))"

declare matrix_dim.simps [code]

definition align_mem :: "64 word \<Rightarrow> 64 word" where
  "align_mem x = 4 + ((x - 1) AND NOT 3)"

text \<open>One element of A and B; the state is (order, seed).\<close>

definition init_step :: "s32 \<Rightarrow> s32 \<Rightarrow> s32 \<times> s16 \<times> s16" where
  "init_step odr seed =
     (let seed = word_of_int (sint (odr * seed) smod 65536);
          val = ucast (seed + odr) :: s16;
          val = ucast (matrix_clip (scast val) False) :: s16;
          b = val;
          val = ucast (scast val + odr) :: s16;
          val = ucast (matrix_clip (scast val) True) :: s16
      in (seed, val, b))"

type_synonym init_state = "s32 \<times> s32 \<times> s16 list \<times> s16 list"

definition init_element :: "u32 \<Rightarrow> nat \<Rightarrow> nat \<Rightarrow> init_state \<Rightarrow> init_state option" where
  "init_element N i j s =
     (case s of (odr, seed, A, B) \<Rightarrow>
        case init_step odr seed of (seed, a, b) \<Rightarrow> do {
          B \<leftarrow> wr B (ix N i j) b;
          A \<leftarrow> wr A (ix N i j) a;
          Some (odr + 1, seed, A, B)
        })"

definition init_elements :: "u32 \<Rightarrow> s32 \<Rightarrow> s16 list \<Rightarrow> s16 list \<Rightarrow> init_state option" where
  "init_elements N seed A B =
     for_each [0..<unat N] (\<lambda>i. for_each [0..<unat N] (init_element N i)) (1, seed, A, B)"

text \<open>
  The parameters with the three addresses. The block's previous contents, read as the three
  arrays, are \<open>old_A\<close>, \<open>old_B\<close> and \<open>old_C\<close>.
\<close>

definition core_init_matrix ::
  "u32 \<Rightarrow> 64 word \<Rightarrow> s32 \<Rightarrow> (nat \<Rightarrow> s16) \<Rightarrow> (nat \<Rightarrow> s16) \<Rightarrow> (nat \<Rightarrow> s32) \<Rightarrow>
     (mat_params \<times> 64 word \<times> 64 word \<times> 64 word) option" where
  "core_init_matrix blksize memblk seed old_A old_B old_C = do {
     let seed = (if seed = 0 then 1 else seed);
     N \<leftarrow> matrix_dim blksize 0 0;
     let cells = unat (N * N);
     let A_at = align_mem memblk;
     let B_at = A_at + 2 * of_nat cells;
     (odr, seed, A, B) \<leftarrow> init_elements N seed (map old_A [0..<cells]) (map old_B [0..<cells]);
     let C_at = align_mem (B_at + 2 * of_nat cells);
     Some (\<lparr>mat_N = N, mat_A = A, mat_B = B, mat_C = map old_C [0..<cells]\<rparr>, A_at, B_at, C_at)
   }"

section \<open>Loops as maps\<close>

text \<open>Two nested loops over the rows and columns are one loop over the cells.\<close>

lemma for_each_cells:
  assumes "0 < n"
  shows "for_each [0..<m] (\<lambda>i. for_each [0..<n] (b i)) = for_each [0..<m * n] (\<lambda>k. b (k div n) (k mod n))"
proof (induction m)
  case (Suc m)
  have "[m * n..<Suc m * n] = map (\<lambda>j. m * n + j) [0..<n]"
    by (simp add: map_add_upt add.commute)
  then have eq: "for_each [m * n..<Suc m * n] (\<lambda>k. b (k div n) (k mod n)) = for_each [0..<n] (b m)"
    using assms by (auto simp: for_each_map intro!: for_each_cong)
  have cells: "[0..<Suc m * n] = [0..<m * n] @ [m * n..<Suc m * n]"
    using upt_add_eq_append [of 0 "m * n" n] by (simp add: add.commute)
  have rows: "[0..<Suc m] = [0..<m] @ [m]" by simp
  show ?case
    by (rule ext) (simp only: cells rows for_each_append for_each_single eq Suc.IH)
qed simp

text \<open>A loop whose \<open>k\<close>th round changes the \<open>k\<close>th element, from that element alone.\<close>

lemma for_each_update:
  assumes "m \<le> length xs"
    and "\<And>k xs'. k < m \<Longrightarrow> length xs' = length xs \<Longrightarrow> b k xs' = Some (xs'[k := f k (xs' ! k)])"
  shows "for_each [0..<m] b xs = Some (map (\<lambda>k. f k (xs ! k)) [0..<m] @ drop m xs)"
  using assms
proof (induction m)
  case (Suc m)
  let ?ys = "map (\<lambda>k. f k (xs ! k)) [0..<m] @ drop m xs"
  have "for_each [0..<m] b xs = Some ?ys" using Suc by simp
  moreover have "length ?ys = length xs" "?ys ! m = xs ! m" using Suc.prems(1) by (simp_all add: nth_append)
  moreover have "drop m xs = xs ! m # drop (Suc m) xs" using Suc.prems(1) by (simp add: Cons_nth_drop_Suc)
  ultimately show ?case
    using Suc.prems(2) [of m ?ys] by (simp add: for_each_append list_update_append)
qed simp

lemma update_cells:
  assumes "n * n \<le> length xs"
    and "\<And>i j xs'. i < n \<Longrightarrow> j < n \<Longrightarrow> length xs' = length xs \<Longrightarrow>
      b i j xs' = Some (xs'[i * n + j := f i j (xs' ! (i * n + j))])"
  shows "for_each [0..<n] (\<lambda>i. for_each [0..<n] (b i)) xs =
    Some (map (\<lambda>k. f (k div n) (k mod n) (xs ! k)) [0..<n * n] @ drop (n * n) xs)"
proof (cases "n = 0")
  case False
  then have n: "0 < n" by simp
  show ?thesis
    unfolding for_each_cells [OF n]
  proof (rule for_each_update [OF assms(1)])
    fix k and xs' :: "'a list" assume "k < n * n" "length xs' = length xs"
    with assms(2) [of "k div n" "k mod n" xs'] n
    show "b (k div n) (k mod n) xs' = Some (xs'[k := f (k div n) (k mod n) (xs' ! k)])"
      by (simp add: less_mult_imp_div_less)
  qed
qed simp

text \<open>A loop that adds to one element.\<close>

lemma accumulate:
  fixes xs :: "'a :: ab_group_add list"
  assumes "p < length xs"
    and "\<And>k xs'. k < m \<Longrightarrow> length xs' = length xs \<Longrightarrow> b k xs' = Some (xs'[p := xs' ! p + t k])"
  shows "for_each [0..<m] b xs = Some (xs[p := xs ! p + (\<Sum>k<m. t k)])"
  using assms
proof (induction m)
  case (Suc m)
  then have "for_each [0..<m] b xs = Some (xs[p := xs ! p + (\<Sum>k<m. t k)])" by simp
  with Suc.prems show ?case by (simp add: for_each_append add.assoc)
qed simp

lemma ix_small:
  assumes "unat N * unat N \<le> 2 ^ 32" and "i < unat N" and "j < unat N"
  shows "ix N i j = i * unat N + j" and "ix N i j < unat N * unat N"
proof -
  have "(i + 1) * unat N \<le> unat N * unat N" using assms(2) by (intro mult_right_mono) simp_all
  then have lt: "i * unat N + j < unat N * unat N" using assms(3) by simp
  have e: "of_nat i * N + of_nat j = (of_nat (i * unat N + j) :: u32)" by simp
  have "(i * unat N + j) mod 2 ^ LENGTH(32) = i * unat N + j"
    using lt assms(1) by simp
  then show "ix N i j = i * unat N + j" by (simp only: ix_def e unat_of_nat)
  with lt show "ix N i j < unat N * unat N" by simp
qed

section \<open>What the kernels compute\<close>

definition fits :: "u32 \<Rightarrow> 'a list \<Rightarrow> bool" where
  "fits N xs \<longleftrightarrow> unat N * unat N \<le> length xs \<and> unat N * unat N \<le> 2 ^ 32"

text \<open>The row and column products, in the 32-bit arithmetic of the code.\<close>

definition cell_product :: "nat \<Rightarrow> s16 list \<Rightarrow> s16 list \<Rightarrow> nat \<Rightarrow> nat \<Rightarrow> s32" where
  "cell_product n A B i j = (\<Sum>k<n. scast (A ! (i * n + k)) * scast (B ! (k * n + j)))"

definition row_product :: "nat \<Rightarrow> s16 list \<Rightarrow> s16 list \<Rightarrow> nat \<Rightarrow> s32" where
  "row_product n A B i = (\<Sum>j<n. scast (A ! (i * n + j)) * scast (B ! j))"

definition cell_bits :: "nat \<Rightarrow> s16 list \<Rightarrow> s16 list \<Rightarrow> nat \<Rightarrow> nat \<Rightarrow> s32" where
  "cell_bits n A B i j =
     (\<Sum>k<n. let tmp = scast (A ! (i * n + k)) * scast (B ! (k * n + j)) :: s32
            in bit_extract tmp 2 4 * bit_extract tmp 5 7)"

lemma fits_ix:
  assumes "fits N xs" and "i < unat N" and "j < unat N"
  shows "ix N i j = i * unat N + j" and "i * unat N + j < length xs"
  using assms ix_small [of N i j] by (simp_all add: fits_def)

lemma matrix_add_const_eq:
  assumes "fits N A"
  shows "matrix_add_const N A v =
    Some (map (\<lambda>k. A ! k + v) [0..<unat N * unat N] @ drop (unat N * unat N) A)"
  unfolding matrix_add_const_def
proof (rule update_cells)
  fix i j and A' :: "s16 list" assume "i < unat N" "j < unat N" "length A' = length A"
  with fits_ix [OF assms, of i j]
  show "do { a \<leftarrow> rd A' (ix N i j); wr A' (ix N i j) (a + v) } =
      Some (A'[i * unat N + j := A' ! (i * unat N + j) + v])"
    by (simp add: rd_wr_simps)
qed (use assms in \<open>simp add: fits_def\<close>)

lemma matrix_mul_const_eq:
  assumes "fits N A" and "fits N C"
  shows "matrix_mul_const N C A v =
    Some (map (\<lambda>k. scast (A ! k) * scast v) [0..<unat N * unat N] @ drop (unat N * unat N) C)"
proof -
  let ?n = "unat N"
  have "matrix_mul_const N C A v =
      Some (map (\<lambda>k. scast (A ! (k div ?n * ?n + k mod ?n)) * scast v) [0..<?n * ?n] @ drop (?n * ?n) C)"
    unfolding matrix_mul_const_def
  proof (rule update_cells)
    fix i j and C' :: "s32 list" assume "i < ?n" "j < ?n" "length C' = length C"
    with fits_ix [OF assms(1), of i j] fits_ix [OF assms(2), of i j]
    show "do { a \<leftarrow> rd A (ix N i j); wr C' (ix N i j) (scast a * scast v) } =
        Some (C'[i * ?n + j := scast (A ! (i * ?n + j)) * scast v])"
      by (simp add: rd_wr_simps)
  qed (use assms in \<open>simp add: fits_def\<close>)
  then show ?thesis by simp
qed

lemma matrix_mul_vect_eq:
  assumes "fits N A" and "fits N B" and "fits N C"
  shows "matrix_mul_vect N C A B = Some (map (row_product (unat N) A B) [0..<unat N] @ drop (unat N) C)"
  unfolding matrix_mul_vect_def
proof (rule for_each_update)
  show "unat N \<le> length C" using assms(3) by (cases "unat N") (auto simp: fits_def)
  fix i and C' :: "s32 list" assume i: "i < unat N" "length C' = length C"
  with fits_ix(2) [OF assms(3), of 0 i] have len: "i < length C'" by simp
  let ?t = "\<lambda>j. scast (A ! (i * unat N + j)) * scast (B ! j) :: s32"
  have "for_each [0..<unat N] (\<lambda>j C. do {
      c \<leftarrow> rd C i;
      a \<leftarrow> rd A (ix N i j);
      b \<leftarrow> rd B j;
      wr C i (c + scast a * scast b) }) (C'[i := 0]) = Some ((C'[i := 0])[i := C'[i := 0] ! i + sum ?t {..<unat N}])"
  proof (rule accumulate)
    fix j and C'' :: "s32 list" assume "j < unat N" "length C'' = length (C'[i := 0])"
    with i(1) len fits_ix [OF assms(1) i(1), of j] fits_ix [OF assms(2), of 0 j]
    show "do { c \<leftarrow> rd C'' i; a \<leftarrow> rd A (ix N i j); b \<leftarrow> rd B j; wr C'' i (c + scast a * scast b) } =
        Some (C''[i := C'' ! i + ?t j])"
      by (simp add: rd_wr_simps)
  qed (use len in simp)
  with len show "do { C \<leftarrow> wr C' i 0; for_each [0..<unat N] (\<lambda>j C. do {
      c \<leftarrow> rd C i;
      a \<leftarrow> rd A (ix N i j);
      b \<leftarrow> rd B j;
      wr C i (c + scast a * scast b) }) C } = Some (C'[i := row_product (unat N) A B i])"
    by (simp add: rd_wr_simps row_product_def)
qed

text \<open>Both matrix products: each cell is cleared, then a term is added for every \<open>k\<close>.\<close>

lemma product_eq:
  fixes t :: "nat \<Rightarrow> nat \<Rightarrow> nat \<Rightarrow> s32"
  assumes "fits N C"
    and "\<And>i j k C'. i < unat N \<Longrightarrow> j < unat N \<Longrightarrow> k < unat N \<Longrightarrow> length C' = length C \<Longrightarrow>
      b i j k C' = Some (C'[ix N i j := C' ! ix N i j + t i j k])"
  shows "for_each [0..<unat N] (\<lambda>i. for_each [0..<unat N] (\<lambda>j C. do {
      C \<leftarrow> wr C (ix N i j) 0;
      for_each [0..<unat N] (b i j) C })) C =
    Some (map (\<lambda>c. \<Sum>k<unat N. t (c div unat N) (c mod unat N) k) [0..<unat N * unat N] @
      drop (unat N * unat N) C)"
proof (rule update_cells)
  fix i j and C' :: "s32 list" assume ij: "i < unat N" "j < unat N" and len: "length C' = length C"
  note p = fits_ix [OF assms(1) ij]
  have "for_each [0..<unat N] (b i j) (C'[ix N i j := 0]) =
      Some ((C'[ix N i j := 0])[ix N i j := C'[ix N i j := 0] ! ix N i j + sum (t i j) {..<unat N}])"
    using assms(2) [OF ij] p len by (intro accumulate) simp_all
  then show "do { C \<leftarrow> wr C' (ix N i j) 0; for_each [0..<unat N] (b i j) C } =
      Some (C'[i * unat N + j := sum (t i j) {..<unat N}])"
    using p len by (simp add: rd_wr_simps)
qed (use assms(1) in \<open>simp add: fits_def\<close>)

lemma matrix_mul_matrix_eq:
  assumes "fits N A" and "fits N B" and "fits N C"
  shows "matrix_mul_matrix N C A B =
    Some (map (\<lambda>c. cell_product (unat N) A B (c div unat N) (c mod unat N)) [0..<unat N * unat N] @
      drop (unat N * unat N) C)"
  unfolding matrix_mul_matrix_def cell_product_def
proof (rule product_eq [OF assms(3)])
  fix i j k and C' :: "s32 list" assume *: "i < unat N" "j < unat N" "k < unat N" "length C' = length C"
  with fits_ix [OF assms(1) *(1,3)] fits_ix [OF assms(2) *(3,2)] fits_ix [OF assms(3) *(1,2)]
  show "do { c \<leftarrow> rd C' (ix N i j); a \<leftarrow> rd A (ix N i k); b \<leftarrow> rd B (ix N k j);
      wr C' (ix N i j) (c + scast a * scast b) } =
    Some (C'[ix N i j := C' ! ix N i j + scast (A ! (i * unat N + k)) * scast (B ! (k * unat N + j))])"
    by (simp add: rd_wr_simps)
qed

lemma matrix_mul_matrix_bitextract_eq:
  assumes "fits N A" and "fits N B" and "fits N C"
  shows "matrix_mul_matrix_bitextract N C A B =
    Some (map (\<lambda>c. cell_bits (unat N) A B (c div unat N) (c mod unat N)) [0..<unat N * unat N] @
      drop (unat N * unat N) C)"
  unfolding matrix_mul_matrix_bitextract_def cell_bits_def
proof (rule product_eq [OF assms(3)])
  fix i j k and C' :: "s32 list" assume *: "i < unat N" "j < unat N" "k < unat N" "length C' = length C"
  with fits_ix [OF assms(1) *(1,3)] fits_ix [OF assms(2) *(3,2)] fits_ix [OF assms(3) *(1,2)]
  show "do { a \<leftarrow> rd A (ix N i k); b \<leftarrow> rd B (ix N k j); c \<leftarrow> rd C' (ix N i j);
      (let tmp = scast a * scast b :: s32
       in wr C' (ix N i j) (c + bit_extract tmp 2 4 * bit_extract tmp 5 7)) } =
    Some (C'[ix N i j := C' ! ix N i j +
      (let tmp = scast (A ! (i * unat N + k)) * scast (B ! (k * unat N + j)) :: s32
       in bit_extract tmp 2 4 * bit_extract tmp 5 7)])"
    by (simp add: rd_wr_simps Let_def)
qed

lemma matrix_sum_total:
  assumes "fits N C"
  shows "\<exists>r. matrix_sum N C clipval = Some r"
proof -
  have "\<exists>s'. for_each [0..<unat N] (\<lambda>i. for_each [0..<unat N] (\<lambda>j s. do {
       cur \<leftarrow> rd C (ix N i j);
       Some (sum_step clipval cur s)
     })) (0, 0, 0) = Some s'"
  proof (intro for_each_total)
    fix i j s assume "i \<in> set [0..<unat N]" "j \<in> set [0..<unat N]"
    with fits_ix [OF assms, of i j]
    show "\<exists>s'. do { cur \<leftarrow> rd C (ix N i j); Some (sum_step clipval cur s) } = Some s'"
      by (cases "sum_step clipval (C ! (i * unat N + j)) s") (simp add: rd_wr_simps)
  qed
  then show ?thesis by (auto simp: matrix_sum_def)
qed

lemma fits_length: "length xs = length ys \<Longrightarrow> fits N xs = fits N ys"
  by (simp add: fits_def)

lemma matrix_test_ok:
  assumes A: "fits N A" and B: "fits N B" and C: "fits N C"
  shows "\<exists>crc C'. matrix_test N C A B v = Some (crc, C', A) \<and> length C' = length C \<and>
    (\<forall>i < unat N. \<forall>j < unat N. C' ! (i * unat N + j) = cell_bits (unat N) (map (\<lambda>a. a + v) A) B i j)"
proof -
  let ?n = "unat N"
  let ?A = "map (\<lambda>k. A ! k + v) [0..<?n * ?n] @ drop (?n * ?n) A"
  have lA: "?n * ?n \<le> length A" and lC: "?n * ?n \<le> length C" using A C by (simp_all add: fits_def)
  have A': "fits N ?A" using A by (simp add: fits_def)
  note sum = matrix_sum_total [of N _ "matrix_big v"]
  let ?C1 = "map (\<lambda>k. scast (?A ! k) * scast v) [0..<?n * ?n] @ drop (?n * ?n) C"
  let ?C2 = "map (row_product ?n ?A B) [0..<?n] @ drop ?n ?C1"
  let ?C3 = "map (\<lambda>c. cell_product ?n ?A B (c div ?n) (c mod ?n)) [0..<?n * ?n] @ drop (?n * ?n) ?C2"
  let ?C4 = "map (\<lambda>c. cell_bits ?n ?A B (c div ?n) (c mod ?n)) [0..<?n * ?n] @ drop (?n * ?n) ?C3"
  have n: "?n \<le> length C" using lC by (cases ?n) auto
  have C1: "fits N ?C1" using C by (simp add: fits_def)
  have C2: "fits N ?C2" using C n by (simp add: fits_def)
  have C3: "fits N ?C3" using C n by (simp add: fits_def)
  have C4: "fits N ?C4" using C n by (simp add: fits_def)
  have undo: "map (\<lambda>k. ?A ! k + - v) [0..<?n * ?n] @ drop (?n * ?n) ?A = A"
    using lA by (intro nth_equalityI) (auto simp: nth_append)
  obtain r1 r2 r3 r4 where "matrix_sum N ?C1 (matrix_big v) = Some r1" "matrix_sum N ?C2 (matrix_big v) = Some r2"
    "matrix_sum N ?C3 (matrix_big v) = Some r3" "matrix_sum N ?C4 (matrix_big v) = Some r4"
    using sum [OF C1] sum [OF C2] sum [OF C3] sum [OF C4] by blast
  then have "matrix_test N C A B v = Some (crc16 r4 (crc16 r3 (crc16 r2 (crc16 r1 0))), ?C4, A)"
    unfolding matrix_test_def Let_def matrix_add_const_eq [OF A] bind.bind_lunit
      matrix_mul_const_eq [OF A' C] matrix_mul_vect_eq [OF A' B C1] matrix_mul_matrix_eq [OF A' B C2]
      matrix_mul_matrix_bitextract_eq [OF A' B C3] matrix_add_const_eq [OF A'] undo
    by simp
  moreover have "?C4 ! (i * ?n + j) = cell_bits ?n (map (\<lambda>a. a + v) A) B i j" if ij: "i < ?n" "j < ?n" for i j
  proof -
    have lt: "i * ?n + j < ?n * ?n" using ij fits_ix(1) [OF A ij] ix_small(2) [of N i j] A by (simp add: fits_def)
    have "?A ! (i * ?n + k) = map (\<lambda>a. a + v) A ! (i * ?n + k)" if "k < ?n" for k
    proof -
      have "i * ?n + k < ?n * ?n" using ij that fits_ix(1) [OF A ij(1) that] ix_small(2) [of N i k] A by (simp add: fits_def)
      then show ?thesis using lA by (simp add: nth_append)
    qed
    then have "cell_bits ?n ?A B i j = cell_bits ?n (map (\<lambda>a. a + v) A) B i j"
      by (simp add: cell_bits_def)
    then show ?thesis using lt ij by (simp add: nth_append)
  qed
  moreover have "length ?C4 = length C" using n lC by simp
  ultimately show ?thesis by blast
qed

section \<open>Initialisation divides the block\<close>

lemma sint_low_byte: "0 \<le> sint (ucast (x AND 0xff :: s32) :: s16) \<and> sint (ucast (x AND 0xff :: s32) :: s16) \<le> 255"
proof -
  let ?w = "ucast (x AND 0xff :: s32) :: s16"
  have u: "uint ?w \<le> 255"
  proof -
    have "?w = ucast x AND 0xff" by (rule bit_word_eqI) (auto simp: bit_simps)
    moreover have "ucast x AND 0xff \<le> (0xff :: s16)" by (rule word_and_le1)
    ultimately have "?w \<le> 255" by simp
    then show ?thesis by (simp add: word_le_def)
  qed
  have l: "0 \<le> uint ?w" by simp
  have "- (2 ^ (LENGTH(16) - 1)) \<le> uint ?w" by (rule order_trans [OF _ l]) simp
  then have "sint ?w = uint ?w"
    unfolding sint_uint using u by (intro signed_take_bit_int_eq_self) simp_all
  with u l show ?thesis by simp
qed

lemma align_mem_aligned:
  assumes "4 dvd unat x"
  shows "align_mem x = x"
proof -
  obtain y where "unat x = 4 * y" using assms by (elim dvdE)
  then have "x = of_nat (4 * y)" by (metis of_nat_unat ucast_id)
  then have x: "x = 4 * of_nat y" by simp
  let ?z = "of_nat y - 1 :: 64 word"
  have three: "3 = (mask 2 :: 64 word)" by (simp add: mask_eq_exp_minus_1)
  have "x - 1 = push_bit 2 ?z + mask 2" by (simp add: x push_bit_eq_mult mask_eq_exp_minus_1)
  also have "\<dots> = push_bit 2 ?z OR mask 2"
    by (rule disjunctive_add) (simp add: bit_simps)
  finally have "(x - 1) AND NOT 3 = push_bit 2 ?z"
    unfolding three by (auto intro!: bit_word_eqI simp: bit_simps)
  then show ?thesis by (simp add: align_mem_def x push_bit_eq_mult)
qed

lemma align_mem_bounds:
  assumes "unat x + 3 < 2 ^ 64"
  shows "4 dvd unat (align_mem x) \<and> unat x \<le> unat (align_mem x) \<and> unat (align_mem x) \<le> unat x + 3"
proof (cases "4 dvd unat x")
  case True
  then show ?thesis by (simp add: align_mem_aligned)
next
  case False
  have "(x - 1) AND NOT 3 = push_bit 2 (drop_bit 2 (x - 1))"
  proof -
    have three: "3 = (mask 2 :: 64 word)" by (simp add: mask_eq_exp_minus_1)
    have "Suc (Suc (n - 2)) = n" if "\<not> n < 2" for n using that by arith
    then show ?thesis unfolding three by (intro bit_word_eqI) (auto simp: bit_simps not_less)
  qed
  also have "\<dots> = of_nat (4 * (unat (x - 1) div 4))"
  proof -
    have "drop_bit 2 (x - 1) = of_nat (unat (drop_bit 2 (x - 1)))" by simp
    also have "unat (drop_bit 2 (x - 1)) = unat (x - 1) div 4" by (simp only: unat_drop_bit_eq) (simp add: drop_bit_eq_div)
    finally show ?thesis by (simp add: push_bit_eq_mult)
  qed
  finally have "align_mem x = of_nat (4 + 4 * (unat (x - 1) div 4))" by (simp add: align_mem_def)
  moreover have u: "unat (x - 1) = unat x - 1" using False by (intro unat_minus_one) auto
  moreover have "4 + 4 * ((unat x - 1) div 4) < 2 ^ LENGTH(64)" using assms by simp
  ultimately have a: "unat (align_mem x) = 4 + 4 * ((unat x - 1) div 4)" by (simp only: unat_of_nat mod_less)
  obtain d r where d: "unat x - 1 = 4 * d + r" "r < 4" by (metis mult.commute mod_less_divisor zero_less_numeral div_mult_mod_eq)
  have "unat x \<noteq> 0" using False by (metis dvd_0_right)
  then have "unat x = 4 * d + r + 1" using d(1) by simp
  moreover have "(4 * d + r) div 4 = d" using d(2) by simp
  ultimately show ?thesis using a d by simp
qed

lemma matrix_dim_ok:
  assumes "0 < blk" and "unat blk \<le> 2 ^ 31"
  shows "\<exists>N. matrix_dim blk 0 0 = Some N \<and> 8 * (unat N * unat N) < unat blk \<and>
    unat blk \<le> 8 * ((unat N + 1) * (unat N + 1)) \<and> unat N < 2 ^ 14"
proof -
  define M where "M = (LEAST m. unat blk \<le> 8 * (m * m))"
  have "unat blk \<le> 8 * (unat blk * unat blk)" using le_square [of "unat blk"] by linarith
  then have M: "unat blk \<le> 8 * (M * M)" unfolding M_def by (rule LeastI)
  have below: "8 * (k * k) < unat blk" if "k < M" for k
    using not_less_Least [of k "\<lambda>m. unat blk \<le> 8 * (m * m)"] that unfolding M_def by simp
  have "M \<noteq> 0"
  proof
    assume "M = 0"
    with M assms(1) show False by (simp add: word_less_nat_alt)
  qed
  then obtain n where n: "M = Suc n" by (cases M) auto
  with below [of n] assms(2) have "n * n < 2 ^ 28" by simp
  moreover have "n < 2 ^ 14"
  proof (rule ccontr)
    assume "\<not> n < 2 ^ 14"
    then have "2 ^ 14 * 2 ^ 14 \<le> n * n" by (intro mult_le_mono) simp_all
    with \<open>n * n < 2 ^ 28\<close> show False by simp
  qed
  have walk: "matrix_dim blk (of_nat k) (of_nat (8 * (k * k))) = Some (of_nat n)" if "k \<le> M" for k
    using that
  proof (induction "M - k" arbitrary: k)
    case 0
    then have k: "k = M" by simp
    have "8 * (M * M) \<le> 2 ^ 31"
    proof -
      have "M * M \<le> 2 ^ 14 * 2 ^ 14" using \<open>n < 2 ^ 14\<close> n by (intro mult_le_mono) simp_all
      then show ?thesis by simp
    qed
    then have "unat (of_nat (8 * (M * M)) :: u32) = 8 * (M * M)" by (simp only: unat_of_nat) simp
    then have "\<not> of_nat (8 * (M * M)) < blk" using M by (simp only: word_less_nat_alt not_less)
    then show ?case by (subst matrix_dim.simps) (simp add: k n)
  next
    case (Suc d)
    then have "k < M" by simp
    have "unat (of_nat (8 * (k * k)) :: u32) = 8 * (k * k)"
      using below [OF \<open>k < M\<close>] assms(2) by (simp only: unat_of_nat) simp
    then have "of_nat (8 * (k * k)) < blk" using below [OF \<open>k < M\<close>] by (simp only: word_less_nat_alt)
    moreover have "(of_nat k + 1) * (of_nat k + 1) * 2 * 4 = (of_nat (8 * (Suc k * Suc k)) :: u32)"
      by (simp add: algebra_simps)
    moreover have "of_nat k + 1 = (of_nat (Suc k) :: u32)" by simp
    moreover have "matrix_dim blk (of_nat (Suc k)) (of_nat (8 * (Suc k * Suc k))) = Some (of_nat n)"
      using Suc.hyps(1) [of "Suc k"] Suc.hyps(2) \<open>k < M\<close> by linarith
    ultimately show ?case unfolding matrix_dim.simps [of blk "of_nat k"] by (simp only: if_True)
  qed
  have "unat (of_nat n :: u32) = n" using \<open>n < 2 ^ 14\<close> by (simp only: unat_of_nat) simp
  with walk [of 0] below [of n] M n \<open>n < 2 ^ 14\<close> show ?thesis
    by (intro exI [of _ "of_nat n"]) simp
qed

lemma align_mem_pad:
  assumes "unat x + 3 < 2 ^ 64"
  shows "unat (align_mem x) = unat x + (4 - unat x mod 4) mod 4"
proof -
  have "a = u + (4 - u mod 4) mod 4" if "4 dvd a" "u \<le> a" "a \<le> u + 3" for a u :: nat
  proof -
    consider "u mod 4 = 0" | "u mod 4 = 1" | "u mod 4 = 2" | "u mod 4 = 3" by linarith
    then have here: "a mod 4 = 0 \<and> (u + (4 - u mod 4) mod 4) mod 4 = 0 \<and> u \<le> u + (4 - u mod 4) mod 4 \<and>
        u + (4 - u mod 4) mod 4 \<le> u + 3"
      by cases (use that(1) in \<open>simp_all add: mod_Suc numeral_3_eq_3\<close>)
    have same: "x = y" if "x mod 4 = 0" "y mod 4 = 0" "u \<le> x" "x \<le> u + 3" "u \<le> y" "y \<le> u + 3" for x y :: nat
      using that by presburger
    show ?thesis by (rule same) (use here that(2,3) in blast)+
  qed
  with align_mem_bounds [OF assms] show ?thesis by blast
qed

text \<open>
  The values the matrices start with: the pseudo-random sequence the seed gives, B with its terms and
  the number of the element added, and A with the low byte of B's element and that number.
\<close>

fun seed_term :: "s32 \<Rightarrow> nat \<Rightarrow> s32" where
  "seed_term seed 0 = seed"
| "seed_term seed (Suc k) = word_of_int (sint (of_nat (Suc k) * seed_term seed k) smod 65536)"

definition B_value :: "s32 \<Rightarrow> nat \<Rightarrow> s16" where
  "B_value seed k = ucast (seed_term seed (Suc k) + of_nat (Suc k))"

definition A_value :: "s32 \<Rightarrow> nat \<Rightarrow> s16" where
  "A_value seed k = (B_value seed k + of_nat (Suc k)) AND 0xff"

lemma low_half: "(ucast ((x :: s32) AND 0xffff) :: s16) = ucast x"
proof (rule bit_word_eqI)
  have m: "(0xffff :: s32) = mask 16" by (simp add: mask_eq_decr_exp)
  fix n assume "n < LENGTH(16)"
  then show "bit (ucast (x AND 0xffff) :: s16) n = bit (ucast x :: s16) n"
    unfolding m by (simp add: bit_simps)
qed

lemma low_byte: "(ucast ((x :: s32) AND 0xff) :: s16) = ucast x AND 0xff"
  by (rule bit_word_eqI) (auto simp: bit_simps)

lemma low_half_scast: "(ucast (scast (a :: s16) :: s32) :: s16) = a"
  by (rule bit_word_eqI) (simp add: bit_simps)

lemma of_int_take: "LENGTH('a) \<le> m \<Longrightarrow> (word_of_int (take_bit m k) :: 'a::len word) = word_of_int k"
  by (simp add: word_of_int_eq_iff take_bit_take_bit min_def)

lemma low_half_of_int: "(ucast (word_of_int k :: s32) :: s16) = word_of_int k"
proof -
  have "(ucast z :: s16) = word_of_int (uint z)" for z :: s32 by simp
  moreover have "uint (word_of_int k :: s32) = take_bit LENGTH(32) k" by (rule uint_word_of_int_eq)
  ultimately show ?thesis by (simp only: of_int_take len_num0 len_bit0 len_bit1 len_num1 le_refl)
qed

lemma low_half_add: "(ucast ((x :: s32) + y) :: s16) = ucast x + ucast y"
proof -
  have u: "(ucast z :: s16) = word_of_int (uint z)" for z :: s32 by simp
  have "x + y = word_of_int (uint x + uint y)" by simp
  then have "(ucast (x + y) :: s16) = word_of_int (uint x + uint y)" by (simp only: low_half_of_int)
  then show ?thesis by (simp only: u wi_hom_add)
qed

lemma low_half_of_nat: "(ucast (of_nat n :: s32) :: s16) = of_nat n"
  using low_half_of_int [of "int n"] by (simp only: of_int_of_nat_eq)

lemma init_step_values:
  "init_step (of_nat (Suc k)) (seed_term seed k) = (seed_term seed (Suc k), A_value seed k, B_value seed k)"
  by (simp add: init_step_def matrix_clip_def Let_def A_value_def B_value_def low_half low_byte
      low_half_scast low_half_add low_half_of_nat del: of_nat_Suc)

lemma A_value_bound: "0 \<le> sint (A_value seed k) \<and> sint (A_value seed k) \<le> 255"
  using sint_low_byte [of "scast (B_value seed k + of_nat (Suc k))"]
  by (simp add: A_value_def low_byte low_half_scast del: of_nat_Suc)

lemma init_elements_ok:
  assumes "fits N A" and "fits N B" and "length A = unat N * unat N" and "length B = unat N * unat N"
  shows "\<exists>odr seed'. init_elements N seed A B =
    Some (odr, seed', map (A_value seed) [0..<unat N * unat N], map (B_value seed) [0..<unat N * unat N])"
proof (cases "unat N = 0")
  case True
  then show ?thesis using assms(3,4) by (simp add: init_elements_def)
next
  case False
  let ?n = "unat N"
  let ?P = "\<lambda>k (odr, seed', A', B'). odr = of_nat (Suc k) \<and> seed' = seed_term seed k \<and>
    length A' = ?n * ?n \<and> length B' = ?n * ?n \<and>
    (\<forall>c < k. A' ! c = A_value seed c \<and> B' ! c = B_value seed c)"
  have "\<exists>s'. for_each [0..<?n * ?n] (\<lambda>k. init_element N (k div ?n) (k mod ?n)) (1, seed, A, B) = Some s' \<and>
      ?P (?n * ?n) s'"
  proof (rule for_each_invar [where P = ?P])
    fix k and s :: init_state assume k: "k < ?n * ?n" and P: "?P k s"
    obtain A' B' where s: "s = (of_nat (Suc k), seed_term seed k, A', B')" using P by (cases s) auto
    have "ix N (k div ?n) (k mod ?n) = k"
      using fits_ix(1) [OF assms(1), of "k div ?n" "k mod ?n"] k False by (simp add: less_mult_imp_div_less)
    then show "\<exists>s'. init_element N (k div ?n) (k mod ?n) s = Some s' \<and> ?P (Suc k) s'"
      using P k by (simp add: s init_step_values init_element_def rd_wr_simps nth_list_update less_Suc_eq
          del: of_nat_Suc seed_term.simps) (simp add: algebra_simps)
  qed (use assms in simp)
  then obtain odr seed' A' B' where r:
    "for_each [0..<?n * ?n] (\<lambda>k. init_element N (k div ?n) (k mod ?n)) (1, seed, A, B) = Some (odr, seed', A', B')"
    "length A' = ?n * ?n" "length B' = ?n * ?n" "\<forall>c < ?n * ?n. A' ! c = A_value seed c \<and> B' ! c = B_value seed c"
    by auto
  then have "A' = map (A_value seed) [0..<?n * ?n]" "B' = map (B_value seed) [0..<?n * ?n]"
    by (auto intro: nth_equalityI)
  with r(1) False show ?thesis by (simp add: init_elements_def for_each_cells)
qed

lemma core_init_matrix_ok:
  assumes "0 < blksize" and "unat blksize \<le> 2 ^ 31"
    and "unat memblk + unat blksize + 4 < 2 ^ 64"
  shows "\<exists>p A_at B_at C_at. core_init_matrix blksize memblk seed old_A old_B old_C = Some (p, A_at, B_at, C_at) \<and>
    (let n = unat (mat_N p) in
      length (mat_A p) = n * n \<and> length (mat_B p) = n * n \<and> length (mat_C p) = n * n \<and>
      A_at = align_mem memblk \<and> unat B_at = unat A_at + 2 * (n * n) \<and> unat C_at = unat B_at + 2 * (n * n) \<and>
      8 * (n * n) < unat blksize \<and>
      unat blksize \<le> 8 * ((n + 1) * (n + 1)) \<and> n < 2 ^ 14 \<and>
      mat_A p = map (A_value (if seed = 0 then 1 else seed)) [0..<n * n] \<and>
      mat_B p = map (B_value (if seed = 0 then 1 else seed)) [0..<n * n])"
proof -
  obtain N where N: "matrix_dim blksize 0 0 = Some N" "8 * (unat N * unat N) < unat blksize"
    "unat blksize \<le> 8 * ((unat N + 1) * (unat N + 1))" "unat N < 2 ^ 14"
    using matrix_dim_ok [OF assms(1,2)] by blast
  let ?n = "unat N"
  have small: "?n * ?n < 2 ^ 28" using N(2) assms(2) by simp
  then have cells: "unat (N * N) = ?n * ?n" by (simp add: unat_word_ariths)
  have "fits N (map old_A [0..<?n * ?n])" "fits N (map old_B [0..<?n * ?n])"
    using small by (simp_all add: fits_def)
  let ?s = "if seed = 0 then 1 else seed"
  let ?MA = "map (A_value ?s) [0..<?n * ?n]" and ?MB = "map (B_value ?s) [0..<?n * ?n]"
  from init_elements_ok [OF \<open>fits N (map old_A [0..<?n * ?n])\<close> \<open>fits N (map old_B [0..<?n * ?n])\<close>, of ?s]
  obtain odr seed' where
    i: "init_elements N ?s (map old_A [0..<?n * ?n]) (map old_B [0..<?n * ?n]) = Some (odr, seed', ?MA, ?MB)"
    by auto
  let ?A = "align_mem memblk"
  have A: "4 dvd unat ?A" "unat ?A \<le> unat memblk + 3" using align_mem_bounds [of memblk] assms(3) by simp_all
  have two: "unat (2 * of_nat (?n * ?n) :: 64 word) = 2 * (?n * ?n)"
  proof -
    have "(2 * (?n * ?n)) mod 2 ^ LENGTH(64) = 2 * (?n * ?n)" using small by simp
    moreover have "2 * of_nat (?n * ?n) = (of_nat (2 * (?n * ?n)) :: 64 word)" by simp
    ultimately show ?thesis by (simp only: unat_of_nat)
  qed
  let ?B = "?A + 2 * of_nat (?n * ?n)"
  have B: "unat ?B = unat ?A + 2 * (?n * ?n)"
    using two assms(3) A(2) N(2) by (subst unat_word_ariths) (simp only: two, simp)
  have C: "unat (?B + 2 * of_nat (?n * ?n)) = unat ?B + 2 * (?n * ?n)"
    using two B assms(3) A(2) N(2) by (subst unat_word_ariths) (simp only: two B, simp)
  have "4 dvd unat (?B + 2 * of_nat (?n * ?n))"
    unfolding B C using A(1) by (simp add: add.assoc)
  then have C': "align_mem (?B + 2 * of_nat (?n * ?n)) = ?B + 2 * of_nat (?n * ?n)"
    by (rule align_mem_aligned)
  have "core_init_matrix blksize memblk seed old_A old_B old_C =
      Some (\<lparr>mat_N = N, mat_A = ?MA, mat_B = ?MB, mat_C = map old_C [0..<?n * ?n]\<rparr>, ?A, ?B, ?B + 2 * of_nat (?n * ?n))"
    unfolding core_init_matrix_def Let_def N(1) bind.bind_lunit cells i
    by (simp only: prod.case bind.bind_lunit C')
  with N B C show ?thesis by (simp add: Let_def)
qed

lemma square_between:
  fixes n :: nat
  assumes "8 * (n * n) < a" and "a \<le> 8 * ((n + 1) * (n + 1))" and "8 * (m * m) < a" and "a \<le> 8 * ((m + 1) * (m + 1))"
  shows "n = m"
proof (rule antisym; rule ccontr)
  assume "\<not> n \<le> m"
  then have "(m + 1) * (m + 1) \<le> n * n" by (intro mult_le_mono) simp_all
  with assms(1,4) show False by simp
next
  assume "\<not> m \<le> n"
  then have "(n + 1) * (n + 1) \<le> m * m" by (intro mult_le_mono) simp_all
  with assms(2,3) show False by simp
qed

section \<open>Exact products\<close>

lemma scast_of_int: "(scast (a :: s16) :: s32) = of_int (sint a)"
  by (rule scast_eq)

lemma cell_product_exact:
  assumes "\<And>a. a \<in> set A \<Longrightarrow> \<bar>sint a\<bar> \<le> m" and "int n * m < 2 ^ 16" and "n * n \<le> length A" and "i < n"
  shows "sint (cell_product n A B i j) = (\<Sum>k<n. sint (A ! (i * n + k)) * sint (B ! (k * n + j)))"
proof -
  let ?s = "\<Sum>k<n. sint (A ! (i * n + k)) * sint (B ! (k * n + j))"
  have eq: "cell_product n A B i j = of_int ?s"
    unfolding cell_product_def scast_of_int of_int_sum of_int_mult ..
  have "\<bar>?s\<bar> \<le> (\<Sum>k<n. m * 2 ^ 15)"
  proof (rule order_trans [OF sum_abs], rule sum_mono)
    fix k assume "k \<in> {..<n}"
    then have "i * n + k < (i + 1) * n" by simp
    also have "\<dots> \<le> n * n" using assms(4) by (intro mult_right_mono) simp_all
    finally have "i * n + k < n * n" .
    then have "\<bar>sint (A ! (i * n + k))\<bar> \<le> m" using assms(1,3) by simp
    moreover have "\<bar>sint (B ! (k * n + j))\<bar> \<le> 2 ^ 15"
      using sint_greater_eq [of "B ! (k * n + j)"] sint_less [of "B ! (k * n + j)"] by simp
    ultimately show "\<bar>sint (A ! (i * n + k)) * sint (B ! (k * n + j))\<bar> \<le> m * 2 ^ 15"
      unfolding abs_mult by (intro mult_mono) simp_all
  qed
  then have "\<bar>?s\<bar> \<le> int n * m * 2 ^ 15" by (simp add: mult.assoc)
  moreover have "- (2 ^ 31) \<le> z \<and> z < 2 ^ 31" if "\<bar>z\<bar> \<le> x * 2 ^ 15" "x < 2 ^ 16" for x z :: int
    using that by auto
  ultimately have "- (2 ^ 31) \<le> ?s \<and> ?s < 2 ^ 31" using assms(2) by blast
  then have "signed_take_bit 31 ?s = ?s" by (intro signed_take_bit_int_eq_self) blast+
  then show ?thesis unfolding eq signed_of_int by simp
qed

section \<open>Properties\<close>

text \<open>C14: A run of the matrix kernel on arrays that hold N by N elements stays inside them and always
  returns, leaves A and B as they were, and leaves in C, cell by cell, the bit-extracted product of
  A with the seed added and B.\<close>

theorem core_bench_matrix_restores:
  assumes "fits (mat_N p) (mat_A p)" and "fits (mat_N p) (mat_B p)" and "fits (mat_N p) (mat_C p)"
  shows "\<exists>crc' C'. core_bench_matrix p seed crc = Some (crc', p\<lparr>mat_C := C'\<rparr>) \<and>
    (let n = unat (mat_N p); A = map (\<lambda>a. a + seed) (mat_A p) in
     length C' = length (mat_C p) \<and>
     (\<forall>i < n. \<forall>j < n. C' ! (i * n + j) =
       (\<Sum>k<n. let tmp = scast (A ! (i * n + k)) * scast (mat_B p ! (k * n + j)) :: s32
              in bit_extract tmp 2 4 * bit_extract tmp 5 7)))"
proof -
  have "p\<lparr>mat_C := C', mat_A := mat_A p\<rparr> = p\<lparr>mat_C := C'\<rparr>" for C' by (cases p) simp
  moreover from matrix_test_ok [OF assms, of seed] obtain r C' where
    "matrix_test (mat_N p) (mat_C p) (mat_A p) (mat_B p) seed = Some (r, C', mat_A p)"
    "length C' = length (mat_C p)"
    "\<forall>i < unat (mat_N p). \<forall>j < unat (mat_N p). C' ! (i * unat (mat_N p) + j) =
       cell_bits (unat (mat_N p)) (map (\<lambda>a. a + seed) (mat_A p)) (mat_B p) i j" by blast
  ultimately show ?thesis
    by (intro exI [of _ "crc16 r crc"] exI [of _ C']) (simp add: core_bench_matrix_def cell_bits_def Let_def)
qed

theorem core_bench_matrix_restores_witness:
  "\<exists>crc' C'. core_bench_matrix \<lparr>mat_N = 1, mat_A = [20], mat_B = [10], mat_C = [0]\<rparr> 3 0 =
     Some (crc', \<lparr>mat_N = 1, mat_A = [20], mat_B = [10], mat_C = C'\<rparr>) \<and> C' ! 0 = 63"
proof -
  let ?p = "\<lparr>mat_N = 1, mat_A = [20], mat_B = [10], mat_C = [0]\<rparr>"
  have "fits (mat_N ?p) (mat_A ?p)" "fits (mat_N ?p) (mat_B ?p)" "fits (mat_N ?p) (mat_C ?p)"
    by (simp_all add: fits_def)
  from core_bench_matrix_restores [OF this, of 3 0] obtain crc' C' where
    r: "core_bench_matrix ?p 3 0 = Some (crc', ?p\<lparr>mat_C := C'\<rparr>)"
    "C' ! 0 = (let tmp = scast (23 :: s16) * scast (10 :: s16) :: s32 in bit_extract tmp 2 4 * bit_extract tmp 5 7)"
    by (auto simp: Let_def)
  have "(let tmp = scast (23 :: s16) * scast (10 :: s16) :: s32
    in bit_extract tmp 2 4 * bit_extract tmp 5 7) = 63" by code_simp
  with r show ?thesis by simp
qed

text \<open>C24: The 32-bit matrix product is the product of the integer matrices: when the elements of A are
  at most \<open>m\<close> in size and N times \<open>m\<close> is below 65536, no sum overflows, whatever B holds.\<close>

theorem matrix_mul_matrix_exact:
  assumes "fits N A" and "fits N B" and "fits N C"
    and "\<forall>a \<in> set A. \<bar>sint a\<bar> \<le> m" and "int (unat N) * m < 2 ^ 16"
  shows "\<exists>C'. matrix_mul_matrix N C A B = Some C' \<and>
    (\<forall>i < unat N. \<forall>j < unat N. sint (C' ! (i * unat N + j)) =
       (\<Sum>k<unat N. sint (A ! (i * unat N + k)) * sint (B ! (k * unat N + j))))"
proof -
  let ?C = "map (\<lambda>c. cell_product (unat N) A B (c div unat N) (c mod unat N)) [0..<unat N * unat N] @
    drop (unat N * unat N) C"
  have "sint (?C ! (i * unat N + j)) =
      (\<Sum>k<unat N. sint (A ! (i * unat N + k)) * sint (B ! (k * unat N + j)))"
    if "i < unat N" "j < unat N" for i j
  proof -
    have "i * unat N + j < unat N * unat N"
      using ix_small [of N i j] that assms(1) by (simp add: fits_def)
    moreover have "sint (cell_product (unat N) A B i j) =
        (\<Sum>k<unat N. sint (A ! (i * unat N + k)) * sint (B ! (k * unat N + j)))"
      using assms(1,4,5) that by (intro cell_product_exact) (auto simp: fits_def)
    ultimately show ?thesis using that by (simp add: nth_append)
  qed
  with matrix_mul_matrix_eq [OF assms(1-3)] show ?thesis by blast
qed

theorem matrix_mul_matrix_exact_witness:
  "\<exists>C'. matrix_mul_matrix 1 [0] [255] [- 32768] = Some C' \<and> sint (C' ! 0) = - 8355840"
proof -
  have "fits 1 [255 :: s16]" "fits 1 [- 32768 :: s16]" "fits 1 [0 :: s32]"
    "\<forall>a \<in> set [255 :: s16]. \<bar>sint a\<bar> \<le> 255" "int (unat (1 :: u32)) * 255 < 2 ^ 16"
    by (simp_all add: fits_def)
  from matrix_mul_matrix_exact [OF this] show ?thesis by auto
qed

text \<open>C22: Dividing the block for the matrices is safe: for any block of at most 2^31 bytes at an aligned
  address the search for the dimension ends with the largest N for which 8 * N * N is less than the
  block's size (so that a block of exactly 8 * N * N bytes gets N - 1), the three arrays are laid out
  one after the other and end inside the block, and their elements are what the seed gives: B has the
  terms of the pseudo-random sequence with the element's number added, and A the low byte of B's
  element and that number, from 0 to 255.\<close>

theorem core_init_matrix_fits:
  assumes "0 < blksize" and "unat blksize \<le> 2 ^ 31"
    and "4 dvd unat memblk" and "unat memblk + unat blksize + 4 < 2 ^ 64"
  shows "\<exists>p A_at B_at C_at. core_init_matrix blksize memblk seed old_A old_B old_C = Some (p, A_at, B_at, C_at) \<and>
    (let n = unat (mat_N p); first = (if seed = 0 then 1 else seed) in
      length (mat_A p) = n * n \<and> length (mat_B p) = n * n \<and> length (mat_C p) = n * n \<and>
      A_at = memblk \<and> unat B_at = unat A_at + 2 * (n * n) \<and> unat C_at = unat B_at + 2 * (n * n) \<and>
      unat C_at + 4 * (n * n) < unat memblk + unat blksize \<and>
      unat blksize \<le> 8 * ((n + 1) * (n + 1)) \<and> n < 2 ^ 14 \<and>
      (\<forall>k < n * n. mat_B p ! k = ucast (seed_term first (Suc k) + of_nat (Suc k)) \<and>
         mat_A p ! k = (mat_B p ! k + of_nat (Suc k)) AND 0xff \<and>
         0 \<le> sint (mat_A p ! k) \<and> sint (mat_A p ! k) \<le> 255))"
proof -
  let ?first = "if seed = 0 then 1 else seed"
  obtain p A_at B_at C_at where
    i: "core_init_matrix blksize memblk seed old_A old_B old_C = Some (p, A_at, B_at, C_at)"
    and len: "length (mat_A p) = unat (mat_N p) * unat (mat_N p)" "length (mat_B p) = unat (mat_N p) * unat (mat_N p)"
      "length (mat_C p) = unat (mat_N p) * unat (mat_N p)"
    and at: "A_at = align_mem memblk" "unat B_at = unat A_at + 2 * (unat (mat_N p) * unat (mat_N p))"
      "unat C_at = unat B_at + 2 * (unat (mat_N p) * unat (mat_N p))"
    and n: "8 * (unat (mat_N p) * unat (mat_N p)) < unat blksize"
      "unat blksize \<le> 8 * ((unat (mat_N p) + 1) * (unat (mat_N p) + 1))" "unat (mat_N p) < 2 ^ 14"
    and m: "mat_A p = map (A_value ?first) [0..<unat (mat_N p) * unat (mat_N p)]"
      "mat_B p = map (B_value ?first) [0..<unat (mat_N p) * unat (mat_N p)]"
    using core_init_matrix_ok [OF assms(1,2), of memblk seed old_A old_B old_C] assms(4)
    unfolding Let_def by blast
  have addr: "A_at = memblk" using at(1) assms(3) by (simp add: align_mem_aligned)
  have vals: "mat_B p ! k = ucast (seed_term ?first (Suc k) + of_nat (Suc k)) \<and>
      mat_A p ! k = (mat_B p ! k + of_nat (Suc k)) AND 0xff \<and> 0 \<le> sint (mat_A p ! k) \<and> sint (mat_A p ! k) \<le> 255"
    if "k < unat (mat_N p) * unat (mat_N p)" for k
  proof -
    have "mat_A p ! k = A_value ?first k" "mat_B p ! k = B_value ?first k" using m that by simp_all
    then show ?thesis using A_value_bound [of ?first k] by (simp only: A_value_def B_value_def)
  qed
  have past: "unat C_at + 4 * (unat (mat_N p) * unat (mat_N p)) < unat memblk + unat blksize"
    using at(2,3) addr n(1) by simp
  show ?thesis
    unfolding Let_def using i len addr at(2,3) past n(2,3) vals by blast
qed

theorem core_init_matrix_fits_witness:
  "\<exists>p A_at B_at C_at. core_init_matrix 666 0x1000 0x3415 (\<lambda>_. 0) (\<lambda>_. 0) (\<lambda>_. 0) =
     Some (p, A_at, B_at, C_at) \<and> unat (mat_N p) = 9 \<and> unat C_at + 324 < 0x1000 + 666"
proof -
  have h: "0 < (666 :: u32)" "unat (666 :: u32) \<le> 2 ^ 31" "4 dvd unat (0x1000 :: 64 word)"
    "unat (0x1000 :: 64 word) + unat (666 :: u32) + 4 < 2 ^ 64" by simp_all
  from core_init_matrix_fits [OF h, where seed = "0x3415" and old_A = "\<lambda>_. 0" and old_B = "\<lambda>_. 0"
      and old_C = "\<lambda>_. 0"] obtain p A_at B_at C_at where
    i: "core_init_matrix 666 0x1000 0x3415 (\<lambda>_. 0) (\<lambda>_. 0) (\<lambda>_. 0) = Some (p, A_at, B_at, C_at)"
    and A: "A_at = 0x1000" and B: "unat B_at = unat A_at + 2 * (unat (mat_N p) * unat (mat_N p))"
    and C: "unat C_at = unat B_at + 2 * (unat (mat_N p) * unat (mat_N p))"
    and top: "unat C_at + 4 * (unat (mat_N p) * unat (mat_N p)) < 0x1000 + 666"
    and low: "666 \<le> 8 * ((unat (mat_N p) + 1) * (unat (mat_N p) + 1))"
    by (auto simp: Let_def)
  let ?n = "unat (mat_N p)"
  have n: "?n = 9" by (rule square_between [where a = 666]) (use A B C top low in simp_all)
  with top have "unat C_at + 324 < 0x1000 + 666" by simp
  with i n show ?thesis by blast
qed

text \<open>C37: On a block that is not aligned the product matrix may end past the block: it ends at the
  block's address rounded up to a multiple of 4 plus 8 * N * N bytes, which is behind the block exactly
  when fewer bytes are left over than the rounding takes, by at most two bytes. (When a block of 1947
  bytes is divided in three, the matrix block starts at an odd address and C ends two bytes
  inside the block of the state kernel.)\<close>

theorem core_init_matrix_overruns_block:
  assumes "0 < blksize" and "unat blksize \<le> 2 ^ 31" and "unat memblk + unat blksize + 4 < 2 ^ 64"
  shows "\<exists>p A_at B_at C_at. core_init_matrix blksize memblk seed old_A old_B old_C = Some (p, A_at, B_at, C_at) \<and>
    (let n = unat (mat_N p); pad = (4 - unat memblk mod 4) mod 4; past = unat C_at + 4 * (n * n) in
      past = unat memblk + pad + 8 * (n * n) \<and> 8 * (n * n) < unat blksize \<and>
      unat blksize \<le> 8 * ((n + 1) * (n + 1)) \<and>
      (unat memblk + unat blksize < past \<longleftrightarrow> unat blksize - 8 * (n * n) < pad) \<and>
      past \<le> unat memblk + unat blksize + 2)"
proof -
  obtain p A_at B_at C_at where
    i: "core_init_matrix blksize memblk seed old_A old_B old_C = Some (p, A_at, B_at, C_at)"
    and at: "A_at = align_mem memblk" "unat B_at = unat A_at + 2 * (unat (mat_N p) * unat (mat_N p))"
      "unat C_at = unat B_at + 2 * (unat (mat_N p) * unat (mat_N p))"
    and n: "8 * (unat (mat_N p) * unat (mat_N p)) < unat blksize"
      "unat blksize \<le> 8 * ((unat (mat_N p) + 1) * (unat (mat_N p) + 1))"
    using core_init_matrix_ok [OF assms, of seed old_A old_B old_C] unfolding Let_def by blast
  let ?pad = "(4 - unat memblk mod 4) mod 4"
  have "unat (align_mem memblk) = unat memblk + ?pad"
    using assms(3) by (intro align_mem_pad) simp
  then have past: "unat C_at + 4 * (unat (mat_N p) * unat (mat_N p)) =
      unat memblk + ?pad + 8 * (unat (mat_N p) * unat (mat_N p))"
    using at by simp
  have pad: "?pad \<le> 3" by simp
  show ?thesis
    unfolding Let_def
  proof (intro exI conjI)
    show "core_init_matrix blksize memblk seed old_A old_B old_C = Some (p, A_at, B_at, C_at)" by (rule i)
    show "(unat memblk + unat blksize < unat C_at + 4 * (unat (mat_N p) * unat (mat_N p))) =
        (unat blksize - 8 * (unat (mat_N p) * unat (mat_N p)) < ?pad)"
      unfolding past using n(1) by linarith
    show "unat C_at + 4 * (unat (mat_N p) * unat (mat_N p)) \<le> unat memblk + unat blksize + 2"
      unfolding past using n(1) pad by linarith
  qed (use past n in simp_all)
qed

theorem core_init_matrix_overruns_block_witness:
  "\<exists>p A_at B_at C_at. core_init_matrix 649 (0x1000 + 649) 1 (\<lambda>_. 0) (\<lambda>_. 0) (\<lambda>_. 0) = Some (p, A_at, B_at, C_at) \<and>
     unat C_at + 4 * (unat (mat_N p) * unat (mat_N p)) = (0x1000 + 649) + 649 + 2"
proof -
  have h: "0 < (649 :: u32)" "unat (649 :: u32) \<le> 2 ^ 31" "unat (0x1000 + 649 :: 64 word) + unat (649 :: u32) + 4 < 2 ^ 64"
    by simp_all
  obtain p A_at B_at C_at where
    i: "core_init_matrix 649 (0x1000 + 649) 1 (\<lambda>_. 0) (\<lambda>_. 0) (\<lambda>_. 0) = Some (p, A_at, B_at, C_at)"
    and past: "unat C_at + 4 * (unat (mat_N p) * unat (mat_N p)) = 4745 + 3 + 8 * (unat (mat_N p) * unat (mat_N p))"
    and n: "8 * (unat (mat_N p) * unat (mat_N p)) < 649"
      "649 \<le> 8 * ((unat (mat_N p) + 1) * (unat (mat_N p) + 1))"
    using core_init_matrix_overruns_block [OF h, of 1 "\<lambda>_. 0" "\<lambda>_. 0" "\<lambda>_. 0"] by (auto simp: Let_def)
  have "unat (mat_N p) = 9" by (rule square_between [where a = 649]) (use n in simp_all)
  with past have "unat C_at + 4 * (unat (mat_N p) * unat (mat_N p)) = (0x1000 + 649) + 649 + 2" by simp
  with i show ?thesis by blast
qed

end
