(* ===== verification/CoreMark_List.thy ===== *)
theory CoreMark_List
  imports CoreMark_State CoreMark_Matrix
begin

text \<open>
  CoreMark's linked list kernel (\<open>coremark/core_list_join.c\<close>). The block's list heads and list data
  are two arrays and a pointer is an index into one of them; an access through a null pointer or
  outside an array is \<open>None\<close>.
\<close>

section \<open>State\<close>

record list_data =
  d_data16 :: s16
  d_idx :: s16

record list_head =
  l_next :: "nat option"
  l_info :: nat

record list_mem =
  heads :: "list_head list"
  datas :: "list_data list"

text \<open>The results structure; \<open>r_block\<close> is the memory of the state benchmark, \<open>memblock[3]\<close>.\<close>

record core_results = list_mem +
  r_seed1 :: s16
  r_seed2 :: s16
  r_seed3 :: s16
  r_block :: "u8 list"
  r_size :: u32
  r_iterations :: u32
  r_execs :: u32
  r_list :: "nat option"
  r_mat :: mat_params
  r_crc :: u16
  r_crclist :: u16
  r_crcmatrix :: u16
  r_crcstate :: u16
  r_err :: s16

definition head_at :: "nat option \<Rightarrow> 'a list_mem_scheme \<Rightarrow> list_head option" where
  "head_at p s = do { p \<leftarrow> p; rd (heads s) p }"

definition upd_head :: "nat option \<Rightarrow> (list_head \<Rightarrow> list_head) \<Rightarrow> 'a list_mem_scheme \<Rightarrow> 'a list_mem_scheme option" where
  "upd_head p f s = do {
     p \<leftarrow> p;
     x \<leftarrow> rd (heads s) p;
     Some (s\<lparr>heads := (heads s)[p := f x]\<rparr>)
   }"

definition next_of :: "nat option \<Rightarrow> 'a list_mem_scheme \<Rightarrow> nat option option" where
  "next_of p s = map_option l_next (head_at p s)"

definition set_next :: "nat option \<Rightarrow> nat option \<Rightarrow> 'a list_mem_scheme \<Rightarrow> 'a list_mem_scheme option" where
  "set_next p n s = upd_head p (\<lambda>x. x\<lparr>l_next := n\<rparr>) s"

definition set_info :: "nat option \<Rightarrow> nat \<Rightarrow> 'a list_mem_scheme \<Rightarrow> 'a list_mem_scheme option" where
  "set_info p n s = upd_head p (\<lambda>x. x\<lparr>l_info := n\<rparr>) s"

text \<open>\<open>p->info\<close> read as data.\<close>

definition info_of :: "nat option \<Rightarrow> 'a list_mem_scheme \<Rightarrow> list_data option" where
  "info_of p s = do { x \<leftarrow> head_at p s; rd (datas s) (l_info x) }"

definition set_data :: "nat \<Rightarrow> list_data \<Rightarrow> 'a list_mem_scheme \<Rightarrow> 'a list_mem_scheme option" where
  "set_data a d s = do { ds \<leftarrow> wr (datas s) a d; Some (s\<lparr>datas := ds\<rparr>) }"

section \<open>Data and comparison\<close>

text \<open>The switch over the operation: the value, with the results it updates on the way.\<close>

definition calc_value :: "s16 \<Rightarrow> core_results \<Rightarrow> (s16 \<times> core_results) option" where
  "calc_value data res =
     (let flag = data AND 0x7;
          dtype = signed_drop_bit 3 data AND 0xf;
          dtype = dtype OR push_bit 4 dtype
      in if flag = 0
         then let dtype = (if sint dtype < 0x22 then 0x22 else dtype)
              in do {
                (retval, block) \<leftarrow> core_bench_state (r_size res) (r_block res) (r_seed1 res) (r_seed2 res)
                                     dtype (r_crc res);
                let res = res\<lparr>r_block := block\<rparr>;
                Some (retval, if r_crcstate res = 0 then res\<lparr>r_crcstate := retval\<rparr> else res)
              }
         else if flag = 1
         then do {
           (retval, m) \<leftarrow> core_bench_matrix (r_mat res) dtype (r_crc res);
           let res = res\<lparr>r_mat := m\<rparr>;
           Some (retval, if r_crcmatrix res = 0 then res\<lparr>r_crcmatrix := retval\<rparr> else res)
         }
         else Some (data, res))"

definition calc_func :: "nat \<Rightarrow> core_results \<Rightarrow> (s16 \<times> core_results) option" where
  "calc_func pdata res = do {
     d \<leftarrow> rd (datas res) pdata;
     (let data = d_data16 d;
          optype = signed_drop_bit 7 data AND 1
      in if optype \<noteq> 0 then Some (data AND 0x007f, res)
         else do {
           (retval, res) \<leftarrow> calc_value data res;
           let res = res\<lparr>r_crc := crcu16 retval (r_crc res)\<rparr>;
           let retval = retval AND 0x007f;
           res \<leftarrow> set_data pdata (d\<lparr>d_data16 := (data AND 0xff00) OR 0x0080 OR retval\<rparr>) res;
           Some (retval, res)
         })
   }"

definition cmp_complex :: "nat \<Rightarrow> nat \<Rightarrow> core_results \<Rightarrow> (s32 \<times> core_results) option" where
  "cmp_complex a b res = do {
     (val1, res) \<leftarrow> calc_func a res;
     (val2, res) \<leftarrow> calc_func b res;
     Some (scast val1 - scast val2, res)
   }"

definition regen :: "list_data \<Rightarrow> list_data" where
  "regen d = d\<lparr>d_data16 := (d_data16 d AND 0xff00) OR (0x00ff AND signed_drop_bit 8 (d_data16 d))\<rparr>"

text \<open>The flag says whether \<open>res\<close> is the null pointer, in which case the data is restored.\<close>

definition cmp_idx :: "bool \<Rightarrow> nat \<Rightarrow> nat \<Rightarrow> 'a list_mem_scheme \<Rightarrow> (s32 \<times> 'a list_mem_scheme) option" where
  "cmp_idx null a b s = do {
     s \<leftarrow> (if null
          then do {
            x \<leftarrow> rd (datas s) a;
            s \<leftarrow> set_data a (regen x) s;
            y \<leftarrow> rd (datas s) b;
            set_data b (regen y) s
          }
          else Some s);
     x \<leftarrow> rd (datas s) a;
     y \<leftarrow> rd (datas s) b;
     Some (scast (d_idx x) - scast (d_idx y), s)
   }"

definition copy_info :: "nat \<Rightarrow> list_data \<Rightarrow> 'a list_mem_scheme \<Rightarrow> 'a list_mem_scheme option" where
  "copy_info to' src s = do {
     d \<leftarrow> rd (datas s) to';
     set_data to' (d\<lparr>d_data16 := d_data16 src, d_idx := d_idx src\<rparr>) s
   }"

section \<open>Operations on the list\<close>

text \<open>
  The block's next free head and data, and the ends of both regions. The result is the new item,
  a null pointer when the block is full.
\<close>

definition core_list_insert_new ::
  "nat option \<Rightarrow> list_data \<Rightarrow> nat \<Rightarrow> nat \<Rightarrow> nat \<Rightarrow> nat \<Rightarrow> 'a list_mem_scheme \<Rightarrow>
     (nat option \<times> nat \<times> nat \<times> 'a list_mem_scheme) option" where
  "core_list_insert_new insert_point key memblock datablock memblock_end datablock_end s =
     (if memblock + 1 \<ge> memblock_end then Some (None, memblock, datablock, s)
      else if datablock + 1 \<ge> datablock_end then Some (None, memblock, datablock, s)
      else do {
        let newitem = Some memblock;
        n \<leftarrow> next_of insert_point s;
        s \<leftarrow> set_next newitem n s;
        s \<leftarrow> set_next insert_point newitem s;
        s \<leftarrow> set_info newitem datablock s;
        s \<leftarrow> copy_info datablock key s;
        Some (newitem, memblock + 1, datablock + 1, s)
      })"

definition core_list_remove :: "nat option \<Rightarrow> 'a list_mem_scheme \<Rightarrow> (nat option \<times> 'a list_mem_scheme) option" where
  "core_list_remove item s = do {
     ret \<leftarrow> next_of item s;
     i \<leftarrow> head_at item s;
     r \<leftarrow> head_at ret s;
     s \<leftarrow> set_info item (l_info r) s;
     s \<leftarrow> set_info ret (l_info i) s;
     n \<leftarrow> next_of item s;
     n \<leftarrow> next_of n s;
     s \<leftarrow> set_next item n s;
     s \<leftarrow> set_next ret None s;
     Some (ret, s)
   }"

definition core_list_undo_remove ::
  "nat option \<Rightarrow> nat option \<Rightarrow> 'a list_mem_scheme \<Rightarrow> (nat option \<times> 'a list_mem_scheme) option" where
  "core_list_undo_remove item_removed item_modified s = do {
     r \<leftarrow> head_at item_removed s;
     m \<leftarrow> head_at item_modified s;
     s \<leftarrow> set_info item_removed (l_info m) s;
     s \<leftarrow> set_info item_modified (l_info r) s;
     n \<leftarrow> next_of item_modified s;
     s \<leftarrow> set_next item_removed n s;
     s \<leftarrow> set_next item_modified item_removed s;
     Some (item_removed, s)
   }"

text \<open>Both search loops: the condition to go on is a parameter.\<close>

partial_function (option) find_while ::
  "(list_data \<Rightarrow> bool) \<Rightarrow> nat option \<Rightarrow> 'a list_mem_scheme \<Rightarrow> nat option option" where
  "find_while go list s =
     (case list of
        None \<Rightarrow> Some None
      | Some p \<Rightarrow> do {
          d \<leftarrow> info_of (Some p) s;
          if go d then do { n \<leftarrow> next_of (Some p) s; find_while go n s } else Some (Some p)
        })"

definition core_list_find :: "nat option \<Rightarrow> list_data \<Rightarrow> 'a list_mem_scheme \<Rightarrow> nat option option" where
  "core_list_find list key s =
     (if 0 \<le> sint (d_idx key)
      then find_while (\<lambda>d. d_idx d \<noteq> d_idx key) list s
      else find_while (\<lambda>d. (d_data16 d AND 0xff) \<noteq> d_data16 key) list s)"

partial_function (option) reverse_loop ::
  "nat option \<Rightarrow> nat option \<Rightarrow> 'a list_mem_scheme \<Rightarrow> (nat option \<times> 'a list_mem_scheme) option" where
  "reverse_loop list nxt s =
     (case list of
        None \<Rightarrow> Some (nxt, s)
      | Some p \<Rightarrow> do {
          tmp \<leftarrow> next_of (Some p) s;
          s \<leftarrow> set_next (Some p) nxt s;
          reverse_loop tmp (Some p) s
        })"

definition core_list_reverse :: "nat option \<Rightarrow> 'a list_mem_scheme \<Rightarrow> (nat option \<times> 'a list_mem_scheme) option" where
  "core_list_reverse list s = reverse_loop list None s"

declare find_while.simps [code] reverse_loop.simps [code]

section \<open>Merge sort\<close>

type_synonym 's list_cmp = "nat \<Rightarrow> nat \<Rightarrow> 's \<Rightarrow> (s32 \<times> 's) option"

text \<open>The \<open>for\<close> loop that steps \<open>insize\<close> places along; \<open>k\<close> rounds are left.\<close>

fun step_along :: "nat \<Rightarrow> nat option \<Rightarrow> nat \<Rightarrow> 'a list_mem_scheme \<Rightarrow> (nat option \<times> nat) option" where
  "step_along 0 q psize s = Some (q, psize)"
| "step_along (Suc k) q psize s = do {
     n \<leftarrow> next_of q s;
     (case n of
        None \<Rightarrow> Some (None, psize + 1)
      | Some _ \<Rightarrow> step_along k n (psize + 1) s)
   }"

text \<open>Which of the two runs the next element comes from: the element, and the new p, psize, q, qsize.\<close>

definition take_p ::
  "nat option \<Rightarrow> nat \<Rightarrow> nat option \<Rightarrow> nat \<Rightarrow> 'a list_mem_scheme \<Rightarrow>
     (nat option \<times> nat option \<times> nat \<times> nat option \<times> nat \<times> 'a list_mem_scheme) option" where
  "take_p p psize q qsize s = do { n \<leftarrow> next_of p s; Some (p, n, psize - 1, q, qsize, s) }"

definition take_q ::
  "nat option \<Rightarrow> nat \<Rightarrow> nat option \<Rightarrow> nat \<Rightarrow> 'a list_mem_scheme \<Rightarrow>
     (nat option \<times> nat option \<times> nat \<times> nat option \<times> nat \<times> 'a list_mem_scheme) option" where
  "take_q p psize q qsize s = do { n \<leftarrow> next_of q s; Some (q, p, psize, n, qsize - 1, s) }"

definition pick_next ::
  "'a list_mem_scheme list_cmp \<Rightarrow> nat option \<Rightarrow> nat \<Rightarrow> nat option \<Rightarrow> nat \<Rightarrow> 'a list_mem_scheme \<Rightarrow>
     (nat option \<times> nat option \<times> nat \<times> nat option \<times> nat \<times> 'a list_mem_scheme) option" where
  "pick_next cmp p psize q qsize s =
     (if psize = 0 then take_q p psize q qsize s
      else if qsize = 0 \<or> q = None then take_p p psize q qsize s
      else do {
        x \<leftarrow> head_at p s;
        y \<leftarrow> head_at q s;
        (r, s) \<leftarrow> cmp (l_info x) (l_info y) s;
        if sint r \<le> 0 then take_p p psize q qsize s else take_q p psize q qsize s
      })"

definition add_tail ::
  "nat option \<Rightarrow> nat option \<Rightarrow> nat option \<Rightarrow> 'a list_mem_scheme \<Rightarrow> (nat option \<times> 'a list_mem_scheme) option" where
  "add_tail list tail e s =
     (case tail of
        Some _ \<Rightarrow> do { s \<leftarrow> set_next tail e s; Some (list, s) }
      | None \<Rightarrow> Some (e, s))"

partial_function (option) merge_loop ::
  "'a list_mem_scheme list_cmp \<Rightarrow> nat option \<Rightarrow> nat \<Rightarrow> nat option \<Rightarrow> nat \<Rightarrow> nat option \<Rightarrow> nat option \<Rightarrow>
     'a list_mem_scheme \<Rightarrow> (nat option \<times> nat option \<times> nat option \<times> 'a list_mem_scheme) option" where
  "merge_loop cmp p psize q qsize list tail s =
     (if psize > 0 \<or> (qsize > 0 \<and> q \<noteq> None)
      then do {
        (e, p, psize, q, qsize, s) \<leftarrow> pick_next cmp p psize q qsize s;
        (list, s) \<leftarrow> add_tail list tail e s;
        merge_loop cmp p psize q qsize list e s
      }
      else Some (list, tail, q, s))"

partial_function (option) pass_loop ::
  "'a list_mem_scheme list_cmp \<Rightarrow> nat \<Rightarrow> nat option \<Rightarrow> nat option \<Rightarrow> nat option \<Rightarrow> nat \<Rightarrow>
     'a list_mem_scheme \<Rightarrow> (nat option \<times> nat option \<times> nat \<times> 'a list_mem_scheme) option" where
  "pass_loop cmp insize p list tail nmerges s =
     (if p = None then Some (list, tail, nmerges, s)
      else do {
        (q, psize) \<leftarrow> step_along insize p 0 s;
        (list, tail, q, s) \<leftarrow> merge_loop cmp p psize q insize list tail s;
        pass_loop cmp insize q list tail (nmerges + 1) s
      })"

partial_function (option) sort_loop ::
  "'a list_mem_scheme list_cmp \<Rightarrow> nat \<Rightarrow> nat option \<Rightarrow> 'a list_mem_scheme \<Rightarrow>
     (nat option \<times> 'a list_mem_scheme) option" where
  "sort_loop cmp insize list s = do {
     (list, tail, nmerges, s) \<leftarrow> pass_loop cmp insize list None None 0 s;
     s \<leftarrow> set_next tail None s;
     if nmerges \<le> 1 then Some (list, s) else sort_loop cmp (insize * 2) list s
   }"

declare merge_loop.simps [code] pass_loop.simps [code] sort_loop.simps [code]

definition core_list_mergesort ::
  "nat option \<Rightarrow> 'a list_mem_scheme list_cmp \<Rightarrow> 'a list_mem_scheme \<Rightarrow> (nat option \<times> 'a list_mem_scheme) option" where
  "core_list_mergesort list cmp s = sort_loop cmp 1 list s"

section \<open>The benchmark\<close>

text \<open>A round of the search loop; the state is (list, info, retval, found, missed, res).\<close>

type_synonym 'a find_state = "nat option \<times> list_data \<times> u16 \<times> u16 \<times> u16 \<times> 'a list_mem_scheme"

definition find_round :: "nat \<Rightarrow> 'a find_state \<Rightarrow> 'a find_state option" where
  "find_round i st =
     (case st of (list, key, retval, found, missed, s) \<Rightarrow> do {
        let key = key\<lparr>d_data16 := of_nat i AND 0xff\<rparr>;
        this_find \<leftarrow> core_list_find list key s;
        (list, s) \<leftarrow> core_list_reverse list s;
        (retval, found, missed, s) \<leftarrow>
          (if this_find = None
           then do {
             n \<leftarrow> next_of list s;
             d \<leftarrow> info_of n s;
             Some (retval + (signed_drop_bit 8 (d_data16 d) AND 1), found, missed + 1, s)
           }
           else do {
             d \<leftarrow> info_of this_find s;
             let retval = (if d_data16 d AND 0x1 \<noteq> 0 then retval + (signed_drop_bit 9 (d_data16 d) AND 1)
                           else retval);
             finder \<leftarrow> next_of this_find s;
             s \<leftarrow> (if finder \<noteq> None
                  then do {
                    n \<leftarrow> next_of finder s;
                    s \<leftarrow> set_next this_find n s;
                    n \<leftarrow> next_of list s;
                    s \<leftarrow> set_next finder n s;
                    set_next list finder s
                  }
                  else Some s);
             Some (retval, found + 1, missed, s)
           });
        let key = (if 0 \<le> sint (d_idx key) then key\<lparr>d_idx := d_idx key + 1\<rparr> else key);
        Some (list, key, retval, found, missed, s)
      })"

text \<open>The two loops that run over the list and fold the head's data into the CRC.\<close>

partial_function (option) crc_loop ::
  "nat option \<Rightarrow> nat option \<Rightarrow> u16 \<Rightarrow> 'a list_mem_scheme \<Rightarrow> u16 option" where
  "crc_loop finder list retval s =
     (if finder = None then Some retval
      else do {
        d \<leftarrow> info_of list s;
        n \<leftarrow> next_of finder s;
        crc_loop n list (crc16 (d_data16 d) retval) s
      })"

declare crc_loop.simps [code]

text \<open>The part between the sorts: one removal, a search, the first CRC, and the removal undone.\<close>

definition remove_crc_undo ::
  "nat option \<Rightarrow> list_data \<Rightarrow> u16 \<Rightarrow> 'a list_mem_scheme \<Rightarrow> (u16 \<times> 'a list_mem_scheme) option" where
  "remove_crc_undo list key retval res = do {
     n \<leftarrow> next_of list res;
     (remover, res) \<leftarrow> core_list_remove n res;
     finder \<leftarrow> core_list_find list key res;
     finder \<leftarrow> (if finder = None then next_of list res else Some finder);
     retval \<leftarrow> crc_loop finder list retval res;
     n \<leftarrow> next_of list res;
     (remover, res) \<leftarrow> core_list_undo_remove remover n res;
     Some (retval, res)
   }"

definition core_bench_list :: "core_results \<Rightarrow> s16 \<Rightarrow> (u16 \<times> core_results) option" where
  "core_bench_list res finder_idx = do {
     (list, key, retval, found, missed, res) \<leftarrow>
       for_each [0..<nat (sint (r_seed3 res))] find_round
         (r_list res, \<lparr>d_data16 = 0, d_idx = finder_idx\<rparr>, 0, 0, 0, res);
     let retval = retval + (found * 4 - missed);
     (list, res) \<leftarrow> (if 0 < sint finder_idx then core_list_mergesort list cmp_complex res
                    else Some (list, res));
     (retval, res) \<leftarrow> remove_crc_undo list key retval res;
     (list, res) \<leftarrow> core_list_mergesort list (cmp_idx True) res;
     finder \<leftarrow> next_of list res;
     retval \<leftarrow> crc_loop finder list retval res;
     Some (retval, res)
   }"

section \<open>Initialisation\<close>

definition item_data :: "s16 \<Rightarrow> nat \<Rightarrow> s16" where
  "item_data seed i =
     (let datpat = ucast (scast seed XOR of_nat i :: u32) AND 0xf :: u16;
          dat = push_bit 3 datpat OR (ucast (of_nat i :: u32) AND 0x7)
      in push_bit 8 dat OR dat)"

text \<open>The state of the insertion loop is (memblock, datablock, memory).\<close>

definition insert_round ::
  "s16 \<Rightarrow> nat option \<Rightarrow> nat \<Rightarrow> nat \<Rightarrow> nat \<Rightarrow> nat \<times> nat \<times> 'a list_mem_scheme \<Rightarrow>
     (nat \<times> nat \<times> 'a list_mem_scheme) option" where
  "insert_round seed list memblock_end datablock_end i st =
     (case st of (memblock, datablock, s) \<Rightarrow> do {
        (e, memblock, datablock, s) \<leftarrow>
          core_list_insert_new list \<lparr>d_data16 = item_data seed i, d_idx = 0x7fff\<rparr> memblock datablock
            memblock_end datablock_end s;
        Some (memblock, datablock, s)
      })"

definition item_idx :: "s16 \<Rightarrow> u32 \<Rightarrow> u32 \<Rightarrow> s16" where
  "item_idx seed size' i =
     (if i < size' div 5 then ucast i
      else let pat = ucast (i XOR scast seed) :: u16
           in 0x3fff AND (push_bit 8 (ucast (i + 1) AND 0x07) OR pat))"

partial_function (option) index_loop ::
  "s16 \<Rightarrow> u32 \<Rightarrow> u32 \<Rightarrow> nat option \<Rightarrow> 'a list_mem_scheme \<Rightarrow> 'a list_mem_scheme option" where
  "index_loop seed size' i finder s = do {
     x \<leftarrow> head_at finder s;
     if l_next x = None then Some s
     else do {
       d \<leftarrow> rd (datas s) (l_info x);
       s \<leftarrow> set_data (l_info x) (d\<lparr>d_idx := item_idx seed size' i\<rparr>) s;
       index_loop seed size' (i + 1) (l_next x) s
     }
   }"

declare index_loop.simps [code]

text \<open>The block's heads and data are in the memory; the first of each is the list's head.\<close>

definition core_list_init ::
  "u32 \<Rightarrow> s16 \<Rightarrow> 'a list_mem_scheme \<Rightarrow> (nat option \<times> 'a list_mem_scheme) option" where
  "core_list_init blksize seed s = do {
     let per_item = 16 + 4;
     let size' = blksize div per_item - 2;
     let list = Some 0;
     s \<leftarrow> set_next list None s;
     s \<leftarrow> set_info list 0 s;
     d \<leftarrow> rd (datas s) 0;
     s \<leftarrow> set_data 0 (d\<lparr>d_idx := 0, d_data16 := 0x8080\<rparr>) s;
     (e, memblock, datablock, s) \<leftarrow>
       core_list_insert_new list \<lparr>d_data16 = 0xffff, d_idx = 0x7fff\<rparr> 1 1 (unat size') (unat size') s;
     (memblock, datablock, s) \<leftarrow>
       for_each [0..<unat size'] (insert_round seed list (unat size') (unat size'))
         (memblock, datablock, s);
     finder \<leftarrow> next_of list s;
     s \<leftarrow> index_loop seed size' 1 finder s;
     core_list_mergesort list (cmp_idx True) s
   }"

section \<open>Paths through the heads\<close>

text \<open>Following \<open>next\<close> from \<open>p\<close> visits the heads \<open>xs\<close> and arrives at \<open>r\<close>.\<close>

fun path :: "list_head list \<Rightarrow> nat option \<Rightarrow> nat list \<Rightarrow> nat option \<Rightarrow> bool" where
  "path h p [] r = (p = r)"
| "path h p (x # xs) r = (p = Some x \<and> x < length h \<and> path h (l_next (h ! x)) xs r)"

abbreviation chain :: "list_head list \<Rightarrow> nat option \<Rightarrow> nat list \<Rightarrow> bool" where
  "chain h p xs \<equiv> path h p xs None"

lemma path_append: "path h p (xs @ ys) r \<longleftrightarrow> (\<exists>m. path h p xs m \<and> path h m ys r)"
  by (induction xs arbitrary: p) auto

lemma path_cong:
  "(\<And>x. x \<in> set xs \<Longrightarrow> l_next (h' ! x) = l_next (h ! x)) \<Longrightarrow> length h' = length h \<Longrightarrow>
     path h' p xs r = path h p xs r"
  by (induction xs arbitrary: p) auto

lemma path_bound: "path h p xs r \<Longrightarrow> x \<in> set xs \<Longrightarrow> x < length h"
  by (induction xs arbitrary: p) auto

lemma path_update [simp]: "a \<notin> set xs \<Longrightarrow> path (h[a := v]) p xs r = path h p xs r"
  by (rule path_cong) (metis nth_list_update_neq, simp)

lemma path_empty_None [simp]: "path h None xs r \<longleftrightarrow> xs = [] \<and> r = None"
  by (cases xs) auto

lemma chain_Cons: "chain h (Some p) xs \<longleftrightarrow> (\<exists>ys. xs = p # ys \<and> p < length h \<and> chain h (l_next (h ! p)) ys)"
  by (cases xs) auto

text \<open>The accessors where they are defined.\<close>

lemma access_simps [simp]:
  "p < length (heads s) \<Longrightarrow> head_at (Some p) s = Some (heads s ! p)"
  "p < length (heads s) \<Longrightarrow> next_of (Some p) s = Some (l_next (heads s ! p))"
  "p < length (heads s) \<Longrightarrow> set_next (Some p) n s =
     Some (s\<lparr>heads := (heads s)[p := (heads s ! p)\<lparr>l_next := n\<rparr>]\<rparr>)"
  "p < length (heads s) \<Longrightarrow> set_info (Some p) a s =
     Some (s\<lparr>heads := (heads s)[p := (heads s ! p)\<lparr>l_info := a\<rparr>]\<rparr>)"
  "p < length (heads s) \<Longrightarrow> l_info (heads s ! p) < length (datas s) \<Longrightarrow>
     info_of (Some p) s = Some (datas s ! l_info (heads s ! p))"
  "a < length (datas s) \<Longrightarrow> set_data a d s = Some (s\<lparr>datas := (datas s)[a := d]\<rparr>)"
  by (simp_all add: head_at_def next_of_def set_next_def set_info_def upd_head_def info_of_def
      set_data_def rd_wr_simps)

end
