(* ===== verification/CoreMark_Sort.thy ===== *)
theory CoreMark_Sort
  imports CoreMark_List "HOL-Library.Multiset"
begin

text \<open>
  The merge sort of the list kernel is the stable sort by its comparison function's key. The
  comparison is an interface, the locale \<open>comparator\<close>: it may compute and cache keys as it is
  called, as long as a key that is known does not change. Merging on the heap is first reduced to
  merging of lists by the keys known in the end, and that to \<open>sort_key\<close>.
\<close>

section \<open>Bottom-up merge sort on lists\<close>

fun smerge :: "('a \<Rightarrow> int) \<Rightarrow> 'a list \<Rightarrow> 'a list \<Rightarrow> 'a list" where
  "smerge K [] qs = qs"
| "smerge K ps [] = ps"
| "smerge K (p # ps) (q # qs) =
     (if K p \<le> K q then p # smerge K ps (q # qs) else q # smerge K (p # ps) qs)"

lemma smerge_Nil2 [simp]: "smerge K ps [] = ps"
  by (cases ps) simp_all

lemma mset_smerge: "mset (smerge K ps qs) = mset ps + mset qs"
  by (induction K ps qs rule: smerge.induct) simp_all

lemma set_smerge [simp]: "set (smerge K ps qs) = set ps \<union> set qs"
  by (metis mset_smerge set_mset_mset set_mset_union)

lemma length_smerge [simp]: "length (smerge K ps qs) = length ps + length qs"
  by (metis mset_smerge size_mset size_union)

lemma sorted_smerge:
  "sorted (map K ps) \<Longrightarrow> sorted (map K qs) \<Longrightarrow> sorted (map K (smerge K ps qs))"
  by (induction K ps qs rule: smerge.induct) auto

lemma filter_smerge:
  "sorted (map K ps) \<Longrightarrow> sorted (map K qs) \<Longrightarrow>
     filter (\<lambda>x. K x = v) (smerge K ps qs) = filter (\<lambda>x. K x = v) ps @ filter (\<lambda>x. K x = v) qs"
proof (induction K ps qs rule: smerge.induct)
  case (3 K p ps q qs)
  show ?case
  proof (cases "K p \<le> K q")
    case False
    have "filter (\<lambda>x. K x = K q) (p # ps) = []"
      using 3(3) False by (auto simp: filter_empty_conv)
    with 3 False show ?thesis by auto
  qed (use 3 in auto)
qed simp_all

lemma smerge_sort_key: "smerge K (sort_key K xs) (sort_key K ys) = sort_key K (xs @ ys)"
proof (rule properties_for_sort_key [symmetric])
  show "mset (smerge K (sort_key K xs) (sort_key K ys)) = mset (xs @ ys)" by (simp add: mset_smerge)
  show "filter (\<lambda>x. K k = K x) (smerge K (sort_key K xs) (sort_key K ys)) = filter (\<lambda>x. K k = K x) (xs @ ys)" for k
    by (simp add: filter_smerge eq_commute [of "K k"] sort_key_stable)
  show "sorted (map K (smerge K (sort_key K xs) (sort_key K ys)))" by (simp add: sorted_smerge)
qed

function pass :: "('a \<Rightarrow> int) \<Rightarrow> nat \<Rightarrow> 'a list \<Rightarrow> 'a list" where
  "pass K k xs =
     (if xs = [] \<or> k = 0 then []
      else smerge K (take k xs) (take k (drop k xs)) @ pass K k (drop k (drop k xs)))"
  by pat_completeness auto
termination by (relation "measure (\<lambda>(K, k, xs). length xs)") auto

function count_merges :: "nat \<Rightarrow> 'a list \<Rightarrow> nat" where
  "count_merges k xs = (if xs = [] \<or> k = 0 then 0 else Suc (count_merges k (drop k (drop k xs))))"
  by pat_completeness auto
termination by (relation "measure (\<lambda>(k, xs). length xs)") auto

function bsort :: "('a \<Rightarrow> int) \<Rightarrow> nat \<Rightarrow> 'a list \<Rightarrow> 'a list" where
  "bsort K k xs = (if xs = [] \<or> k = 0 then [] else sort_key K (take k xs) @ bsort K k (drop k xs))"
  by pat_completeness auto
termination by (relation "measure (\<lambda>(K, k, xs). length xs)") auto

declare pass.simps [simp del] count_merges.simps [simp del] bsort.simps [simp del]

lemma count_merges_le: "0 < k \<Longrightarrow> count_merges k xs \<le> 1 \<longleftrightarrow> length xs \<le> k * 2"
  by (subst count_merges.simps, subst count_merges.simps) auto

lemma take_bsort: "0 < k \<Longrightarrow> take k (bsort K k xs) = sort_key K (take k xs)"
  and drop_bsort: "0 < k \<Longrightarrow> drop k (bsort K k xs) = bsort K k (drop k xs)"
proof -
  assume k: "0 < k"
  show "take k (bsort K k xs) = sort_key K (take k xs)"
    using k bsort.simps [of K k "[]"] by (subst bsort.simps) (auto simp: min_def bsort.simps [of K k "drop k xs"])
  show "drop k (bsort K k xs) = bsort K k (drop k xs)"
    using k bsort.simps [of K k "[]"] by (subst bsort.simps) (auto simp: min_def bsort.simps [of K k "drop k xs"])
qed

lemma mset_bsort: "0 < k \<Longrightarrow> mset (bsort K k xs) = mset xs"
proof (induction "length xs" arbitrary: xs rule: less_induct)
  case less
  show ?case
  proof (cases "xs = []")
    case False
    with less have "mset (bsort K k (drop k xs)) = mset (drop k xs)" by simp
    moreover have "bsort K k xs = sort_key K (take k xs) @ bsort K k (drop k xs)"
      using False less.prems by (subst bsort.simps) simp
    moreover have "mset xs = mset (take k xs) + mset (drop k xs)"
      unfolding mset_append [symmetric] by simp
    ultimately show ?thesis by simp
  qed (simp add: bsort.simps)
qed

lemma pass_bsort: "0 < k \<Longrightarrow> pass K k (bsort K k xs) = bsort K (k * 2) xs"
proof (induction "length xs" arbitrary: xs rule: less_induct)
  case less
  show ?case
  proof (cases "xs = []")
    case True
    then show ?thesis by (simp add: pass.simps bsort.simps)
  next
    case False
    have ne: "bsort K k xs \<noteq> []" using False mset_bsort [OF less.prems, of K xs] by auto
    have "take (k * 2) xs = take k xs @ take k (drop k xs)" by (simp add: mult_2_right take_add)
    moreover have "drop (k * 2) xs = drop k (drop k xs)" by (simp add: mult_2_right)
    moreover have "pass K k (bsort K k (drop k (drop k xs))) = bsort K (k * 2) (drop k (drop k xs))"
      using False less.prems by (intro less.hyps) auto
    ultimately show ?thesis
      using ne less.prems False
      by (subst pass.simps, subst (2) bsort.simps) (simp add: take_bsort drop_bsort smerge_sort_key)
  qed
qed

lemma mset_runs: "mset xs = mset (take k xs) + mset (take k (drop k xs)) + mset (drop k (drop k xs))"
  by (metis append_take_drop_id mset_append add.assoc)

lemma mset_pass: "0 < k \<Longrightarrow> mset (pass K k xs) = mset xs"
proof (induction "length xs" arbitrary: xs rule: less_induct)
  case less
  show ?case
  proof (cases "xs = []")
    case False
    with less have "mset (pass K k (drop k (drop k xs))) = mset (drop k (drop k xs))" by simp
    moreover have "pass K k xs = smerge K (take k xs) (take k (drop k xs)) @ pass K k (drop k (drop k xs))"
      using False less.prems by (subst pass.simps) simp
    ultimately show ?thesis using mset_runs [of xs k] by (simp add: mset_smerge)
  qed (simp add: pass.simps)
qed

text \<open>Every run of \<open>k\<close> elements satisfies \<open>P\<close> throughout, unless it has one element.\<close>

function runs_all :: "('a \<Rightarrow> bool) \<Rightarrow> nat \<Rightarrow> 'a list \<Rightarrow> bool" where
  "runs_all P k xs =
     (if xs = [] \<or> k = 0 then True
      else (length (take k xs) = 1 \<or> (\<forall>x \<in> set (take k xs). P x)) \<and> runs_all P k (drop k xs))"
  by pat_completeness auto
termination by (relation "measure (\<lambda>(P, k, xs). length xs)") auto

declare runs_all.simps [simp del]

lemma runs_all_Nil [simp]: "runs_all P k []"
  by (simp add: runs_all.simps)

lemma runs_all_step:
  "0 < k \<Longrightarrow> runs_all P k xs \<Longrightarrow> (length (take k xs) = 1 \<or> (\<forall>x \<in> set (take k xs). P x)) \<and> runs_all P k (drop k xs)"
  by (cases "xs = []") (simp_all add: runs_all.simps [of P k xs])

lemma runs_all_mono: "runs_all P k xs \<Longrightarrow> (\<And>x. P x \<Longrightarrow> Q x) \<Longrightarrow> runs_all Q k xs"
proof (induction P k xs rule: runs_all.induct)
  case (1 P k xs)
  show ?case
  proof (cases "xs = [] \<or> k = 0")
    case False
    with 1 have "runs_all Q k (drop k xs)" by (auto simp: runs_all.simps [of P k xs])
    with 1(2,3) False show ?thesis by (auto simp: runs_all.simps [of P k xs] runs_all.simps [of Q k xs])
  qed (auto simp: runs_all.simps [of Q k xs])
qed

lemma runs_all_1: "runs_all P 1 xs"
proof (induction xs)
  case (Cons x xs)
  then show ?case by (subst runs_all.simps) simp
qed (simp add: runs_all.simps)

lemma runs_all_append:
  "0 < k \<Longrightarrow> length xs = k \<or> (length xs < k \<and> ys = []) \<Longrightarrow>
     length xs = 1 \<or> (\<forall>x \<in> set xs. P x) \<Longrightarrow> runs_all P k ys \<Longrightarrow> runs_all P k (xs @ ys)"
  by (subst runs_all.simps) (auto simp: runs_all.simps [of P k "[]"])

lemma bsort_1: "bsort K 1 xs = xs"
proof (induction xs)
  case (Cons x xs)
  then show ?case by (subst bsort.simps) simp
qed (simp add: bsort.simps)

lemma bsort_all: "0 < k \<Longrightarrow> length xs \<le> k \<Longrightarrow> bsort K k xs = sort_key K xs"
  by (cases "xs = []") (simp_all add: bsort.simps [of K k xs] bsort.simps [of K k "[]"])

section \<open>Merging on the heap\<close>

locale comparator =
  fixes cmp :: "'a list_mem_scheme list_cmp"
    and good :: "'a list_mem_scheme \<Rightarrow> bool"
    and item :: "'a list_mem_scheme \<Rightarrow> nat \<Rightarrow> bool"
    and known :: "'a list_mem_scheme \<Rightarrow> nat \<Rightarrow> bool"
    and key :: "'a list_mem_scheme \<Rightarrow> nat \<Rightarrow> int"
  assumes cmp_ok: "good s \<Longrightarrow> item s a \<Longrightarrow> item s b \<Longrightarrow>
      \<exists>r s'. cmp a b s = Some (r, s') \<and> good s' \<and> heads s' = heads s \<and>
        known s' a \<and> known s' b \<and> (sint r \<le> 0 \<longleftrightarrow> key s' a \<le> key s' b) \<and>
        (\<forall>c. item s c \<longrightarrow> item s' c) \<and>
        (\<forall>c. known s c \<longrightarrow> known s' c \<and> key s' c = key s c)"
    and good_heads: "good (s\<lparr>heads := h\<rparr>) = good s"
    and item_heads: "item (s\<lparr>heads := h\<rparr>) = item s"
    and known_heads: "known (s\<lparr>heads := h\<rparr>) = known s"
    and key_heads: "key (s\<lparr>heads := h\<rparr>) = key s"
begin

lemmas heads_simps [simp] = good_heads item_heads known_heads key_heads

text \<open>What later states keep.\<close>

definition later :: "'a list_mem_scheme \<Rightarrow> 'a list_mem_scheme \<Rightarrow> bool" where
  "later s t \<longleftrightarrow> (\<forall>c. item s c \<longrightarrow> item t c) \<and> (\<forall>c. known s c \<longrightarrow> known t c \<and> key t c = key s c)"

lemma later_refl [simp]: "later s s"
  by (simp add: later_def)

lemma later_trans: "later s t \<Longrightarrow> later t u \<Longrightarrow> later s u"
  by (simp add: later_def)

lemma later_heads [simp]: "later (s\<lparr>heads := h\<rparr>) t = later s t" "later t (s\<lparr>heads := h\<rparr>) = later t s"
  by (simp_all add: later_def)

text \<open>The \<open>info\<close> fields, which sorting does not touch.\<close>

definition infos :: "nat \<Rightarrow> (nat \<Rightarrow> nat) \<Rightarrow> 'a list_mem_scheme \<Rightarrow> bool" where
  "infos n nf s \<longleftrightarrow> length (heads s) = n \<and> (\<forall>x < n. l_info (heads s ! x) = nf x)"

definition merged :: "list_head list \<Rightarrow> nat option \<Rightarrow> nat option \<Rightarrow> nat list \<Rightarrow> bool" where
  "merged h list tail os \<longleftrightarrow>
     (os = [] \<and> list = None \<and> tail = None) \<or>
     (\<exists>xs t. os = xs @ [t] \<and> tail = Some t \<and> t < length h \<and> path h list xs (Some t))"

lemma add_tail_ok:
  assumes "merged (heads s) list tail os" and "infos n nf s" and "e < n" and "distinct (os @ [e])"
  shows "\<exists>list' s'. add_tail list tail (Some e) s = Some (list', s') \<and>
    (\<exists>h. s' = s\<lparr>heads := h\<rparr>) \<and> infos n nf s' \<and> merged (heads s') list' (Some e) (os @ [e]) \<and>
    (\<forall>x. x \<notin> set os \<longrightarrow> heads s' ! x = heads s ! x)"
proof (cases "os = []")
  case True
  with assms have "tail = None" "e < length (heads s)" by (auto simp: merged_def infos_def)
  with True assms(2) show ?thesis
    by (intro exI [of _ "Some e"] exI [of _ s]) (simp add: add_tail_def merged_def exI [of _ "heads s"])
next
  case False
  with assms(1) obtain xs t where t: "os = xs @ [t]" "tail = Some t" "t < length (heads s)"
    "path (heads s) list xs (Some t)" by (auto simp: merged_def)
  let ?h = "(heads s)[t := (heads s ! t)\<lparr>l_next := Some e\<rparr>]"
  have "merged ?h list (Some e) (os @ [e])"
    using t assms(2-4) by (auto simp: merged_def path_append infos_def)
  moreover have "infos n nf (s\<lparr>heads := ?h\<rparr>)"
    using assms(2) t(3) by (auto simp: infos_def nth_list_update)
  moreover have "add_tail list tail (Some e) s = Some (list, s\<lparr>heads := ?h\<rparr>)"
    using t by (simp add: add_tail_def)
  ultimately show ?thesis
    using t by (intro exI [of _ list] exI [of _ "s\<lparr>heads := ?h\<rparr>"]) auto
qed

text \<open>
  The merge's result: the elements appended are \<open>f t\<close> for every later state \<open>t\<close>, \<open>rest\<close> is left, and the
  keys of \<open>ks\<close> are known.
\<close>

definition merge_result ::
  "nat \<Rightarrow> (nat \<Rightarrow> nat) \<Rightarrow> nat list \<Rightarrow> nat list \<Rightarrow> ('a list_mem_scheme \<Rightarrow> nat list) \<Rightarrow> nat set \<Rightarrow>
     'a list_mem_scheme \<Rightarrow> (nat option \<times> nat option \<times> nat option \<times> 'a list_mem_scheme) option \<Rightarrow> bool" where
  "merge_result n nf os rest f ks s r \<longleftrightarrow>
     (\<exists>list' tail' q' s' es. r = Some (list', tail', q', s') \<and> good s' \<and> infos n nf s' \<and> later s s' \<and>
        chain (heads s') q' rest \<and> merged (heads s') list' tail' (os @ es) \<and>
        (\<forall>t. later s' t \<longrightarrow> es = f t) \<and> (\<forall>c \<in> ks. known s' c))"

lemma merge_result_mono:
  assumes "merge_result n nf os rest f ks s1 r" and "later s s1" and "\<And>t. later s1 t \<Longrightarrow> f t = g t"
    and "\<And>c. c \<in> ks' \<Longrightarrow> c \<in> ks \<or> known s1 c"
  shows "merge_result n nf os rest g ks' s r"
proof -
  from assms(1) obtain list' tail' q' s' es where
    r: "r = Some (list', tail', q', s')" "good s'" "infos n nf s'" "later s1 s'" "chain (heads s') q' rest"
      "merged (heads s') list' tail' (os @ es)" "\<forall>t. later s' t \<longrightarrow> es = f t" "\<forall>c \<in> ks. known s' c"
    by (auto simp: merge_result_def)
  have "later s s'" using assms(2) r(4) by (rule later_trans)
  moreover have "\<forall>t. later s' t \<longrightarrow> es = g t" using r(4,7) assms(3) later_trans by metis
  moreover have "\<forall>c \<in> ks'. known s' c" using r(4,8) assms(4) by (auto simp: later_def)
  ultimately show ?thesis using r by (auto simp: merge_result_def)
qed

text \<open>The two heads of the runs, which are compared.\<close>

definition compared :: "(nat \<Rightarrow> nat) \<Rightarrow> nat list \<Rightarrow> nat list \<Rightarrow> nat set" where
  "compared nf ps qs = (if ps = [] \<or> qs = [] then {} else {nf (hd ps), nf (hd qs)})"

abbreviation merged_runs :: "(nat \<Rightarrow> nat) \<Rightarrow> nat list \<Rightarrow> nat list \<Rightarrow> 'a list_mem_scheme \<Rightarrow> nat list" where
  "merged_runs nf ps qs t \<equiv> smerge (\<lambda>x. key t (nf x)) ps qs"

lemma merge_advance:
  assumes IH: "\<And>s list. good s \<Longrightarrow> infos n nf s \<Longrightarrow> merged (heads s) list (Some e) (os @ [e]) \<Longrightarrow>
      path (heads s) p ps r \<Longrightarrow> chain (heads s) q qs \<Longrightarrow> \<forall>x \<in> set (ps @ qs). item s (nf x) \<Longrightarrow>
      merge_result n nf (os @ [e]) (drop k qs) (merged_runs nf ps (take k qs)) ks s
        (merge_loop cmp p (length ps) q k list (Some e) s)"
    and s: "good s" "infos n nf s" "merged (heads s) list tail os" "e < n"
    and ps: "path (heads s) p ps r" and qs: "chain (heads s) q qs" and dist: "distinct (os @ e # ps @ qs)"
    and item: "\<forall>x \<in> set (ps @ qs). item s (nf x)"
  shows "merge_result n nf os (drop k qs) (\<lambda>t. e # merged_runs nf ps (take k qs) t) {} s
    (do { (list, s) \<leftarrow> add_tail list tail (Some e) s; merge_loop cmp p (length ps) q k list (Some e) s })"
proof -
  have "distinct (os @ [e])" using dist by simp
  from add_tail_ok [OF s(3,2,4) this] obtain list1 h where
    a: "add_tail list tail (Some e) s = Some (list1, s\<lparr>heads := h\<rparr>)" "infos n nf (s\<lparr>heads := h\<rparr>)"
      "merged h list1 (Some e) (os @ [e])" "\<And>x. x \<notin> set os \<Longrightarrow> h ! x = heads s ! x"
    by auto
  have len: "length h = length (heads s)" using a(2) s(2) by (simp add: infos_def)
  have "l_next (h ! x) = l_next (heads s ! x)" if "x \<in> set ps \<union> set qs" for x
  proof -
    have "x \<notin> set os" using that dist by auto
    then show ?thesis using a(4) [of x] by simp
  qed
  then have "path h p ps r" "chain h q qs"
    using ps qs len path_cong [of ps h "heads s" p r] path_cong [of qs h "heads s" q None] by auto
  with IH [of "s\<lparr>heads := h\<rparr>" list1] a s(1) item
  have "merge_result n nf (os @ [e]) (drop k qs) (merged_runs nf ps (take k qs)) ks (s\<lparr>heads := h\<rparr>)
      (merge_loop cmp p (length ps) q k list1 (Some e) (s\<lparr>heads := h\<rparr>))"
    by simp
  with a(1) show ?thesis
    by (simp add: merge_result_def) (elim exE conjE, intro exI conjI, assumption+, auto)
qed

lemma merge_loop_ok:
  assumes "good s" and "infos n nf s" and "merged (heads s) list tail os"
    and "path (heads s) p ps r" and "chain (heads s) q qs" and "distinct (os @ ps @ qs)"
    and "\<forall>x \<in> set (ps @ qs). item s (nf x)"
  shows "merge_result n nf os (drop k qs) (merged_runs nf ps (take k qs)) (compared nf ps (take k qs)) s
    (merge_loop cmp p (length ps) q k list tail s)"
  using assms
proof (induction "length ps + min k (length qs)" arbitrary: s list tail os p ps q qs k rule: less_induct)
  case less
  note good = less.prems(1) and inf = less.prems(2) and mrg = less.prems(3) and path = less.prems(4,5)
    and dist = less.prems(6) and item = less.prems(7)
  have len: "length (heads s) = n" using inf by (simp add: infos_def)
  have step_p: "merge_result n nf os (drop k qs) (\<lambda>t. a # merged_runs nf ps' (take k qs) t) {} s1
      (do { (e, p, psize, q, qsize, s) \<leftarrow> take_p p (length ps) q k s1;
           (list, s) \<leftarrow> add_tail list tail e s;
           merge_loop cmp p psize q qsize list e s })"
    if s1: "good s1" "heads s1 = heads s" "\<forall>x \<in> set (ps @ qs). item s1 (nf x)" and ps: "ps = a # ps'" for s1 a ps'
  proof -
    have inf1: "infos n nf s1" and mrg1: "merged (heads s1) list tail os" using inf mrg s1(2) by (simp_all add: infos_def)
    have p: "p = Some a" "a < n" "path (heads s1) (l_next (heads s ! a)) ps' r" and q: "chain (heads s1) q qs"
      using path s1(2) by (simp_all add: ps len)
    have d: "distinct (os @ a # ps' @ qs)" and i: "\<forall>x \<in> set (ps' @ qs). item s1 (nf x)"
      using dist s1(3) by (auto simp: ps)
    have IH: "merge_result n nf (os @ [a]) (drop k qs) (merged_runs nf ps' (take k qs)) (compared nf ps' (take k qs)) s'
        (merge_loop cmp (l_next (heads s ! a)) (length ps') q k list' (Some a) s')"
      if "good s'" "infos n nf s'" "merged (heads s') list' (Some a) (os @ [a])"
        "path (heads s') (l_next (heads s ! a)) ps' r" "chain (heads s') q qs"
        "\<forall>x \<in> set (ps' @ qs). item s' (nf x)" for s' list'
      by (rule less.hyps [OF _ that(1-3) that(4,5) _ that(6)]) (use d in \<open>simp_all add: ps\<close>)
    have "take_p p (length ps) q k s1 = Some (Some a, l_next (heads s ! a), length ps', q, k, s1)"
      using p(1,2) s1(2) len by (simp add: take_p_def ps)
    then show ?thesis using merge_advance [OF IH s1(1) inf1 mrg1 p(2,3) q d i] by (simp only: Option.bind.simps case_prod_conv)
  qed
  have step_q: "merge_result n nf os (drop (k - 1) qs') (\<lambda>t. b # merged_runs nf ps (take (k - 1) qs') t) {} s1
      (do { (e, p, psize, q, qsize, s) \<leftarrow> take_q p (length ps) q k s1;
           (list, s) \<leftarrow> add_tail list tail e s;
           merge_loop cmp p psize q qsize list e s })"
    if s1: "good s1" "heads s1 = heads s" "\<forall>x \<in> set (ps @ qs). item s1 (nf x)"
      and qs: "qs = b # qs'" and k: "0 < k" for s1 b qs'
  proof -
    have inf1: "infos n nf s1" and mrg1: "merged (heads s1) list tail os" using inf mrg s1(2) by (simp_all add: infos_def)
    have q: "q = Some b" "b < n" "chain (heads s1) (l_next (heads s ! b)) qs'" and p: "path (heads s1) p ps r"
      using path s1(2) by (simp_all add: qs len)
    have d: "distinct (os @ b # ps @ qs')" and i: "\<forall>x \<in> set (ps @ qs'). item s1 (nf x)"
      using dist s1(3) by (auto simp: qs)
    have IH: "merge_result n nf (os @ [b]) (drop (k - 1) qs') (merged_runs nf ps (take (k - 1) qs')) (compared nf ps (take (k - 1) qs')) s'
        (merge_loop cmp p (length ps) (l_next (heads s ! b)) (k - 1) list' (Some b) s')"
      if "good s'" "infos n nf s'" "merged (heads s') list' (Some b) (os @ [b])" "path (heads s') p ps r"
        "chain (heads s') (l_next (heads s ! b)) qs'" "\<forall>x \<in> set (ps @ qs'). item s' (nf x)" for s' list'
      by (rule less.hyps [OF _ that(1-3) that(4,5) _ that(6)]) (use d k in \<open>simp_all add: qs min_less_iff_disj\<close>)
    have "take_q p (length ps) q k s1 = Some (Some b, p, length ps, l_next (heads s ! b), k - 1, s1)"
      using q(1,2) s1(2) len by (simp add: take_q_def)
    then show ?thesis using merge_advance [OF IH s1(1) inf1 mrg1 q(2) p q(3) d i] by (simp only: Option.bind.simps case_prod_conv)
  qed
  show ?case
  proof (cases "k = 0 \<or> qs = []")
    case True
    show ?thesis
    proof (cases ps)
      case Nil
      have "merge_loop cmp p (length ps) q k list tail s = Some (list, tail, q, s)"
        using True Nil path(2) by (subst merge_loop.simps) auto
      with good inf mrg path(2) Nil True show ?thesis
        by (auto simp: merge_result_def compared_def intro: exI [of _ "[]"])
    next
      case (Cons a ps')
      have "merge_loop cmp p (length ps) q k list tail s = (do {
          (e, p, psize, q, qsize, s) \<leftarrow> take_p p (length ps) q k s;
          (list, s) \<leftarrow> add_tail list tail e s;
          merge_loop cmp p psize q qsize list e s })"
        using True path(2) Cons by (subst merge_loop.simps) (auto simp: pick_next_def)
      with step_p [OF good refl item Cons] have "merge_result n nf os (drop k qs)
          (\<lambda>t. a # merged_runs nf ps' (take k qs) t) {} s (merge_loop cmp p (length ps) q k list tail s)" by simp
      then show ?thesis by (rule merge_result_mono) (use True in \<open>auto simp: Cons compared_def\<close>)
    qed
  next
    case False
    then obtain b qs' where qs: "qs = b # qs'" and k: "0 < k" by (cases qs) auto
    have q: "q = Some b" "b < n" using path(2) by (simp_all add: qs len)
    have dt: "drop k qs = drop (k - 1) qs'" "take k qs = b # take (k - 1) qs'"
      using k by (simp_all add: qs drop_Cons' take_Cons')
    show ?thesis
    proof (cases ps)
      case Nil
      have "merge_loop cmp p (length ps) q k list tail s = (do {
          (e, p, psize, q, qsize, s) \<leftarrow> take_q p (length ps) q k s;
          (list, s) \<leftarrow> add_tail list tail e s;
          merge_loop cmp p psize q qsize list e s })"
        using Nil q k by (subst merge_loop.simps) (simp add: pick_next_def)
      with step_q [OF good refl item qs k] have "merge_result n nf os (drop k qs)
          (\<lambda>t. b # merged_runs nf ps (take (k - 1) qs') t) {} s (merge_loop cmp p (length ps) q k list tail s)"
        by (simp add: dt)
      then show ?thesis by (rule merge_result_mono) (simp_all add: Nil dt compared_def)
    next
      case (Cons a ps')
      have p: "p = Some a" "a < n" using path(1) by (simp_all add: Cons len)
      have nf: "l_info (heads s ! a) = nf a" "l_info (heads s ! b) = nf b"
        using inf p(2) q(2) by (auto simp: infos_def)
      have "item s (nf a)" "item s (nf b)" using item by (simp_all add: Cons qs)
      from cmp_ok [OF good this] obtain c s1 where
        c: "cmp (nf a) (nf b) s = Some (c, s1)" "good s1" "heads s1 = heads s" "known s1 (nf a)"
          "known s1 (nf b)" "sint c \<le> 0 \<longleftrightarrow> key s1 (nf a) \<le> key s1 (nf b)" "later s s1"
        by (auto simp: later_def)
      have item1: "\<forall>x \<in> set (ps @ qs). item s1 (nf x)" using item c(7) by (auto simp: later_def)
      have dec: "sint c \<le> 0 \<longleftrightarrow> key t (nf a) \<le> key t (nf b)" if "later s1 t" for t
        using that c(4-6) by (auto simp: later_def)
      have unfold: "merge_loop cmp p (length ps) q k list tail s = (do {
          (e, p, psize, q, qsize, s) \<leftarrow> (if sint c \<le> 0 then take_p p (length ps) q k s1 else take_q p (length ps) q k s1);
          (list, s) \<leftarrow> add_tail list tail e s;
          merge_loop cmp p psize q qsize list e s })"
        using c(1) p q nf k len by (subst merge_loop.simps) (simp add: pick_next_def Cons)
      show ?thesis
      proof (cases "sint c \<le> 0")
        case True
        with unfold step_p [OF c(2,3) item1 Cons] have "merge_result n nf os (drop k qs) (\<lambda>t. a # merged_runs nf ps' (take k qs) t) {} s1
          (merge_loop cmp p (length ps) q k list tail s)" by (simp add: dt)
        then show ?thesis by (rule merge_result_mono) (use c(4,5,7) True dec in \<open>auto simp: Cons dt compared_def\<close>)
      next
        case gt: False
        with unfold step_q [OF c(2,3) item1 qs k] have "merge_result n nf os (drop k qs) (\<lambda>t. b # merged_runs nf ps (take (k - 1) qs') t) {} s1
          (merge_loop cmp p (length ps) q k list tail s)" by (simp add: dt)
        then show ?thesis by (rule merge_result_mono) (use c(4,5,7) gt dec in \<open>auto simp: Cons dt compared_def\<close>)
      qed
    qed
  qed
qed

lemma step_along_ok:
  assumes "chain (heads s) p xs" and "xs \<noteq> []"
  shows "\<exists>q. step_along (Suc k) p m s = Some (q, m + length (take (Suc k) xs)) \<and>
    path (heads s) p (take (Suc k) xs) q \<and> chain (heads s) q (drop (Suc k) xs)"
  using assms
proof (induction k arbitrary: p m xs)
  case 0
  then show ?case by (cases xs) (auto split: option.splits)
next
  case (Suc k)
  then obtain x xs' where x: "xs = x # xs'" "p = Some x" "x < length (heads s)" "chain (heads s) (l_next (heads s ! x)) xs'"
    by (cases xs) auto
  show ?case
  proof (cases "l_next (heads s ! x)")
    case None
    with x show ?thesis by (subst step_along.simps) simp
  next
    case (Some y)
    with x(4) have "xs' \<noteq> []" by auto
    from Suc.IH [OF x(4) this, of "m + 1"] show ?thesis
      using x Some by (subst step_along.simps) auto
  qed
qed

abbreviation all_known :: "(nat \<Rightarrow> nat) \<Rightarrow> 'a list_mem_scheme \<Rightarrow> nat \<Rightarrow> bool" where
  "all_known nf s x \<equiv> known s (nf x)"

lemma merge_known:
  assumes "length ps = 1 \<or> (\<forall>x \<in> set ps. known s (nf x))" and "length qs = 1 \<or> (\<forall>x \<in> set qs. known s (nf x))"
    and "ps \<noteq> []" and "later s s'" and "\<forall>c \<in> compared nf ps qs. known s' c"
    and "es = smerge K ps qs"
  shows "length es = 1 \<or> (\<forall>x \<in> set es. known s' (nf x))"
proof (cases "qs = []")
  case True
  with assms show ?thesis by (auto simp: later_def)
next
  case False
  with assms have "known s' (nf (hd ps))" "known s' (nf (hd qs))" by (auto simp: compared_def)
  moreover have "set zs = {hd zs}" if "length zs = 1" for zs :: "nat list" using that by (cases zs) auto
  ultimately have "\<forall>x \<in> set ps \<union> set qs. known s' (nf x)" using assms(1,2,4) by (auto simp: later_def)
  with assms(6) show ?thesis by simp
qed

text \<open>A pass merges its runs pairwise.\<close>

lemma pass_loop_ok:
  assumes "good s" and "infos n nf s" and "merged (heads s) list tail os" and "chain (heads s) p xs"
    and "distinct (os @ xs)" and "\<forall>x \<in> set xs. item s (nf x)" and "0 < k"
  shows "\<exists>list' tail' s' es. pass_loop cmp k p list tail m s = Some (list', tail', m + count_merges k xs, s') \<and>
    good s' \<and> infos n nf s' \<and> later s s' \<and> merged (heads s') list' tail' (os @ es) \<and>
    (\<forall>t. later s' t \<longrightarrow> es = pass (\<lambda>x. key t (nf x)) k xs) \<and>
    (runs_all (all_known nf s) k xs \<longrightarrow> runs_all (all_known nf s') (k * 2) es)"
  using assms
proof (induction "length xs" arbitrary: s list tail os p xs m rule: less_induct)
  case less
  show ?case
  proof (cases "xs = []")
    case True
    with less.prems show ?thesis
      by (subst pass_loop.simps)
        (auto simp: count_merges.simps [of k "[]"] pass.simps [of _ k "[]"] intro!: exI [of _ "[]"])
  next
    case False
    let ?ps = "take k xs" and ?xs = "drop k xs"
    from step_along_ok [OF less.prems(4) False, of "k - 1" 0] less.prems(7) obtain q where
      q: "step_along k p 0 s = Some (q, length ?ps)" "path (heads s) p ?ps q" "chain (heads s) q ?xs" by auto
    have d: "distinct (os @ ?ps @ ?xs)" and i: "\<forall>x \<in> set (?ps @ ?xs). item s (nf x)"
      using less.prems(5,6) by simp_all
    from merge_loop_ok [OF less.prems(1-3) q(2,3) d i, of k] obtain list1 tail1 q1 s1 es1 where
      m: "merge_loop cmp p (length ?ps) q k list tail s = Some (list1, tail1, q1, s1)"
        "good s1" "infos n nf s1" "later s s1" "chain (heads s1) q1 (drop k ?xs)"
        "merged (heads s1) list1 tail1 (os @ es1)"
        "\<And>t. later s1 t \<Longrightarrow> es1 = merged_runs nf ?ps (take k ?xs) t"
        "\<forall>c \<in> compared nf ?ps (take k ?xs). known s1 c"
      by (auto simp: merge_result_def)
    have es1: "es1 = merged_runs nf ?ps (take k ?xs) s1" by (rule m(7)) simp
    have "mset es1 = mset ?ps + mset (take k ?xs)" by (simp add: es1 mset_smerge)
    with mset_runs [of xs k] have "mset (os @ es1 @ drop k ?xs) = mset (os @ xs)" by simp
    then have d1: "distinct ((os @ es1) @ drop k ?xs)"
      using less.prems(5) by (metis append_assoc mset_eq_imp_distinct_iff)
    have i1: "\<forall>x \<in> set (drop k ?xs). item s1 (nf x)"
      using less.prems(6) m(4) by (auto simp: later_def dest!: in_set_dropD)
    have "length (drop k ?xs) < length xs" using False less.prems(7) by simp
    from less.hyps [OF this m(2,3,6,5) d1 i1 less.prems(7), of "m + 1"] obtain list' tail' s' es where
      r: "pass_loop cmp k q1 list1 tail1 (m + 1) s1 = Some (list', tail', m + 1 + count_merges k (drop k ?xs), s')"
        "good s'" "infos n nf s'" "later s1 s'" "merged (heads s') list' tail' ((os @ es1) @ es)"
        "\<And>t. later s' t \<Longrightarrow> es = pass (\<lambda>x. key t (nf x)) k (drop k ?xs)"
        "runs_all (all_known nf s1) k (drop k ?xs) \<Longrightarrow> runs_all (all_known nf s') (k * 2) es"
      by auto
    have "pass_loop cmp k p list tail m s = Some (list', tail', m + count_merges k xs, s')"
      using q(1) m(1) r(1) False less.prems(4,7)
      by (cases p) (simp, subst pass_loop.simps, simp add: count_merges.simps [of k xs])
    moreover have "es1 @ es = pass (\<lambda>x. key t (nf x)) k xs" if "later s' t" for t
      using False less.prems(7) m(7) [OF later_trans [OF r(4) that]] r(6) [OF that]
      by (subst pass.simps) simp
    moreover have "runs_all (all_known nf s') (k * 2) (es1 @ es)" if runs: "runs_all (all_known nf s) k xs"
    proof (rule runs_all_append)
      note ps = conjunct1 [OF runs_all_step [OF less.prems(7) runs]] and
        runs' = conjunct2 [OF runs_all_step [OF less.prems(7) runs]]
      note qs = conjunct1 [OF runs_all_step [OF less.prems(7) runs']] and
        rest = conjunct2 [OF runs_all_step [OF less.prems(7) runs']]
      have "runs_all (all_known nf s1) k (drop k ?xs)"
        by (rule runs_all_mono [OF rest]) (use m(4) in \<open>auto simp: later_def\<close>)
      then show "runs_all (all_known nf s') (k * 2) es" by (rule r(7))
      have "length es1 = 1 \<or> (\<forall>x \<in> set es1. known s1 (nf x))"
        using merge_known [OF ps qs _ m(4,8) es1] False less.prems(7) by simp
      then show "length es1 = 1 \<or> (\<forall>x \<in> set es1. known s' (nf x))" using r(4) by (auto simp: later_def)
      show "length es1 = k * 2 \<or> (length es1 < k * 2 \<and> es = [])"
        using r(6) [OF later_refl] by (auto simp: es1 pass.simps [of _ k "[]"])
    qed (use less.prems(7) in simp)
    ultimately show ?thesis using r(2-5) later_trans [OF m(4) r(4)] by (intro exI conjI) auto
  qed
qed

text \<open>The loop over the run length; what it is called on is what the passes so far have made of \<open>xs\<close>.\<close>

lemma sort_loop_ok:
  assumes "good s" and "infos n nf s" and "chain (heads s) p zs" and "distinct xs" and "xs \<noteq> []"
    and "\<forall>x \<in> set xs. item s (nf x)" and "0 < k"
    and "\<And>t. later s t \<Longrightarrow> zs = bsort (\<lambda>x. key t (nf x)) k xs" and "runs_all (all_known nf s) k zs"
  shows "\<exists>p' s' ys. sort_loop cmp k p s = Some (p', s') \<and> good s' \<and> infos n nf s' \<and> later s s' \<and>
    chain (heads s') p' ys \<and> ys = sort_key (\<lambda>x. key s' (nf x)) xs \<and>
    (1 < length xs \<longrightarrow> (\<forall>x \<in> set xs. known s' (nf x)))"
  using assms
proof (induction "length xs - k" arbitrary: s p zs k rule: less_induct)
  case less
  have "zs = bsort (\<lambda>x. key s (nf x)) k xs" by (rule less.prems(8)) simp
  with less.prems(7) have mz: "mset zs = mset xs" by (simp add: mset_bsort)
  then have zs: "set zs = set xs" "length zs = length xs" "distinct zs"
    using less.prems(4) mset_eq_imp_distinct_iff [OF mz] by (auto dest: mset_eq_setD mset_eq_length)
  have "merged (heads s) None None []" by (simp add: merged_def)
  from pass_loop_ok [OF less.prems(1,2) this less.prems(3) _ _ less.prems(7), of 0] obtain list' tail' s1 es where
    r: "pass_loop cmp k p None None 0 s = Some (list', tail', count_merges k zs, s1)"
      "good s1" "infos n nf s1" "later s s1" "merged (heads s1) list' tail' es"
      "\<And>t. later s1 t \<Longrightarrow> es = pass (\<lambda>x. key t (nf x)) k zs"
      "runs_all (all_known nf s1) (k * 2) es"
    using zs less.prems(6,9) by auto
  have es: "es = bsort (\<lambda>x. key t (nf x)) (k * 2) xs" if "later s1 t" for t
    using r(6) [OF that] less.prems(8) [OF later_trans [OF r(4) that]] less.prems(7) by (simp add: pass_bsort)
  from es [OF later_refl] less.prems(7) have me: "mset es = mset xs" by (simp add: mset_bsort)
  then have "es \<noteq> []" "set es = set xs" "distinct es" using less.prems(4,5) mset_eq_imp_distinct_iff [OF me]
    by (auto dest: mset_eq_setD)
  with r(5) obtain ws w where w: "es = ws @ [w]" "tail' = Some w" "w < length (heads s1)"
    "path (heads s1) list' ws (Some w)" by (auto simp: merged_def)
  let ?s = "s1\<lparr>heads := (heads s1)[w := (heads s1 ! w)\<lparr>l_next := None\<rparr>]\<rparr>"
  have set: "set_next tail' None s1 = Some ?s" using w by simp
  have chain: "chain (heads ?s) list' es" using w \<open>distinct es\<close> by (auto simp: path_append)
  have inf: "infos n nf ?s" using r(3) w(3) by (auto simp: infos_def nth_list_update)
  have item: "\<forall>x \<in> set xs. item ?s (nf x)" using less.prems(6) r(4) by (auto simp: later_def)
  show ?case
  proof (cases "length xs \<le> k * 2")
    case True
    with zs have "count_merges k zs \<le> 1" by (simp only: count_merges_le [OF less.prems(7)])
    then have "sort_loop cmp k p s = Some (list', ?s)" by (subst sort_loop.simps) (simp add: r(1) set)
    moreover have "es = sort_key (\<lambda>x. key s1 (nf x)) xs"
      using es [OF later_refl] less.prems(7) True by (simp add: bsort_all)
    moreover have "\<forall>x \<in> set es. known s1 (nf x)" if "1 < length xs"
    proof -
      have "length (take (k * 2) es) \<noteq> 1 \<and> take (k * 2) es = es"
        using me that True by (metis mset_eq_length nat_neq_iff take_all)
      with runs_all_step [OF _ r(7)] less.prems(7) show ?thesis by auto
    qed
    ultimately show ?thesis using r(2,4) inf chain \<open>set es = set xs\<close>
      by (intro exI [of _ list'] exI [of _ ?s] exI [of _ es]) simp
  next
    case False
    then have "\<not> count_merges k zs \<le> 1" using zs by (simp only: count_merges_le [OF less.prems(7)] not_False_eq_True)
    then have step: "sort_loop cmp k p s = sort_loop cmp (k * 2) list' ?s"
      by (subst sort_loop.simps) (simp add: r(1) set)
    have "length xs - k * 2 < length xs - k" using False less.prems(7) by simp
    from less.hyps [OF this _ inf chain less.prems(4,5) item] r(2,7) es less.prems(7) obtain p' s' ys where
      "sort_loop cmp (k * 2) list' ?s = Some (p', s')" "good s'" "infos n nf s'" "later s1 s'"
      "chain (heads s') p' ys" "ys = sort_key (\<lambda>x. key s' (nf x)) xs"
      "1 < length xs \<longrightarrow> (\<forall>x \<in> set xs. known s' (nf x))"
      by auto
    then show ?thesis using step later_trans [OF r(4)] by auto
  qed
qed

theorem mergesort_ok:
  assumes "good s" and "chain (heads s) p xs" and "distinct xs" and "xs \<noteq> []"
    and "\<forall>x \<in> set xs. item s (l_info (heads s ! x))"
  shows "\<exists>p' s' ys. core_list_mergesort p cmp s = Some (p', s') \<and> good s' \<and> later s s' \<and>
    length (heads s') = length (heads s) \<and> (\<forall>x < length (heads s). l_info (heads s' ! x) = l_info (heads s ! x)) \<and>
    chain (heads s') p' ys \<and> ys = sort_key (\<lambda>x. key s' (l_info (heads s ! x))) xs \<and>
    (1 < length xs \<longrightarrow> (\<forall>x \<in> set xs. known s' (l_info (heads s ! x))))"
proof -
  let ?nf = "\<lambda>x. l_info (heads s ! x)"
  have "infos (length (heads s)) ?nf s" by (simp add: infos_def)
  from sort_loop_ok [OF assms(1) this assms(2-5), of 1] show ?thesis
    by (simp add: core_list_mergesort_def infos_def bsort_1 runs_all_1 [simplified] bsort_1 [simplified]) blast
qed

end

end
