(* ===== verification/CoreMark_ListOk.thy ===== *)
theory CoreMark_ListOk
  imports CoreMark_Sort
begin

text \<open>
  The list kernel is correct: both comparison functions provide the comparator interface, so that
  both sorts are stable sorts; the list operations on chains of heads; and the benchmark returns and
  leaves the list, its data and the inputs of the other two kernels as it found them.
\<close>

section \<open>Sorting by index\<close>

lemma sint_bounds16: "- 32768 \<le> sint (x :: s16)" "sint (x :: s16) < 32768"
  using sint_greater_eq [of x] sint_less [of x] by simp_all

lemma sint_diff16: "sint (scast (x :: s16) - scast (y :: s16) :: s32) = sint x - sint y"
proof -
  have "(scast x :: s32) - scast y = of_int (sint x - sint y)" by (simp only: scast_of_int of_int_diff)
  moreover have "signed_take_bit 31 (sint x - sint y) = sint x - sint y"
    using sint_bounds16 [of x] sint_bounds16 [of y] by (intro signed_take_bit_int_eq_self) simp_all
  ultimately show ?thesis by (simp only: signed_of_int) simp
qed

text \<open>The two bytes of a data word.\<close>

lemma byte_masks: "(0xff :: s16) = mask 8" "(0xff00 :: s16) = push_bit 8 (mask 8)" "(0x7f :: s16) = mask 7"
  by (simp_all add: mask_eq_exp_minus_1 push_bit_eq_mult)

lemma bit_0x80: "bit (0x0080 :: s16) n \<longleftrightarrow> n = 7"
proof -
  have "(0x0080 :: s16) = 2 ^ 7" by simp
  then show ?thesis by (simp only: bit_exp_iff) auto
qed

lemmas cache_bits = bit_or_iff bit_and_iff bit_0x80 bit_push_bit_iff bit_signed_drop_bit_iff

lemma regen_idem [simp]: "regen (regen d) = regen d"
proof -
  have "((x AND 0xff00) OR (0xff AND signed_drop_bit 8 x)) AND 0xff00 = x AND 0xff00" for x :: s16
    unfolding byte_masks by (rule bit_word_eqI) (auto simp: bit_simps)
  moreover have "0xff AND signed_drop_bit 8 ((x AND 0xff00) OR (0xff AND signed_drop_bit 8 x)) =
      0xff AND signed_drop_bit 8 x" for x :: s16
    unfolding byte_masks by (rule bit_word_eqI) (auto simp: bit_simps)
  ultimately show ?thesis by (simp add: regen_def)
qed

lemma regen_idx [simp]: "d_idx (regen d) = d_idx d"
  by (simp add: regen_def)

definition idx_good :: "list_data list \<Rightarrow> 'a \<Rightarrow> 'a list_mem_scheme \<Rightarrow> bool" where
  "idx_good ds m s \<longleftrightarrow> map regen (datas s) = map regen ds \<and> list_mem.more s = m"

definition in_datas :: "'a list_mem_scheme \<Rightarrow> nat \<Rightarrow> bool" where
  "in_datas s a \<longleftrightarrow> a < length (datas s)"

definition regenerated :: "'a list_mem_scheme \<Rightarrow> nat \<Rightarrow> bool" where
  "regenerated s a \<longleftrightarrow> a < length (datas s) \<and> regen (datas s ! a) = datas s ! a"

definition idx_key :: "list_data list \<Rightarrow> nat \<Rightarrow> int" where
  "idx_key ds a = sint (d_idx (ds ! a))"

lemma cmp_idx_eq:
  assumes "a < length (datas s)" and "b < length (datas s)"
  shows "\<exists>r s'. cmp_idx True a b s = Some (r, s') \<and> heads s' = heads s \<and> list_mem.more s' = list_mem.more s \<and>
    length (datas s') = length (datas s) \<and> sint r = idx_key (datas s) a - idx_key (datas s) b \<and>
    (\<forall>c < length (datas s). datas s' ! c = (if c \<in> {a, b} then regen (datas s ! c) else datas s ! c))"
  using assms by (auto simp: cmp_idx_def rd_wr_simps sint_diff16 idx_key_def nth_list_update)

lemma idx_key_good: "idx_good ds m s \<Longrightarrow> a < length (datas s) \<Longrightarrow> idx_key (datas s) a = idx_key ds a"
  unfolding idx_good_def idx_key_def by (metis length_map nth_map regen_idx)

interpretation by_idx: comparator "cmp_idx True" "idx_good ds m" in_datas regenerated "\<lambda>s. idx_key ds"
  for ds m
proof
  fix s :: "'a list_mem_scheme" and a b
  assume s: "idx_good ds m s" "in_datas s a" "in_datas s b"
  from cmp_idx_eq [of a s b] s(2,3) obtain r s' where
    c: "cmp_idx True a b s = Some (r, s')" "heads s' = heads s" "list_mem.more s' = list_mem.more s"
      "length (datas s') = length (datas s)" "sint r = idx_key (datas s) a - idx_key (datas s) b"
      "\<forall>c < length (datas s). datas s' ! c = (if c \<in> {a, b} then regen (datas s ! c) else datas s ! c)"
    by (auto simp: in_datas_def)
  have "map regen (datas s') = map regen (datas s)"
    using c(4,6) by (intro nth_equalityI) auto
  then have "idx_good ds m s'" using s(1) c(3) by (simp add: idx_good_def)
  moreover have "sint r \<le> 0 \<longleftrightarrow> idx_key ds a \<le> idx_key ds b"
    using c(5) s by (simp add: idx_key_good in_datas_def)
  moreover have "regenerated s' a" "regenerated s' b"
    using c(4,6) s(2,3) by (auto simp: regenerated_def in_datas_def)
  moreover have "regenerated s' c" if "regenerated s c" for c
    using that c(4,6) by (auto simp: regenerated_def)
  ultimately show "\<exists>r s'. cmp_idx True a b s = Some (r, s') \<and> idx_good ds m s' \<and> heads s' = heads s \<and>
      regenerated s' a \<and> regenerated s' b \<and> (sint r \<le> 0 \<longleftrightarrow> idx_key ds a \<le> idx_key ds b) \<and>
      (\<forall>c. in_datas s c \<longrightarrow> in_datas s' c) \<and>
      (\<forall>c. regenerated s c \<longrightarrow> regenerated s' c \<and> idx_key ds c = idx_key ds c)"
    using c(1,2,4) by (auto simp: in_datas_def)
qed (simp_all add: idx_good_def in_datas_def regenerated_def fun_eq_iff)

section \<open>Sorting by data\<close>

text \<open>What the state and matrix kernels need in order to run and to leave their inputs alone.\<close>

definition kernels_ok :: "core_results \<Rightarrow> bool" where
  "kernels_ok r \<longleftrightarrow>
     terminated (unat (r_size r)) (r_block r) \<and> (ucast (r_seed1 r) :: u8) = ucast (r_seed2 r) \<and>
     (\<forall>b \<in> set (r_block r). b \<noteq> ch (CHR '','') \<longrightarrow> b XOR ucast (r_seed1 r) \<noteq> ch (CHR '','')) \<and>
     fits (mat_N (r_mat r)) (mat_A (r_mat r)) \<and> fits (mat_N (r_mat r)) (mat_B (r_mat r)) \<and>
     fits (mat_N (r_mat r)) (mat_C (r_mat r))"

text \<open>The inputs of the kernels, which a run keeps; the accumulated CRCs and the product matrix change.\<close>

definition same_input :: "core_results \<Rightarrow> core_results \<Rightarrow> bool" where
  "same_input r s \<longleftrightarrow>
     r_size s = r_size r \<and> r_block s = r_block r \<and> r_seed1 s = r_seed1 r \<and> r_seed2 s = r_seed2 r \<and>
     r_seed3 s = r_seed3 r \<and> r_iterations s = r_iterations r \<and> r_execs s = r_execs r \<and> r_err s = r_err r \<and>
     r_list s = r_list r \<and> mat_N (r_mat s) = mat_N (r_mat r) \<and> mat_A (r_mat s) = mat_A (r_mat r) \<and>
     mat_B (r_mat s) = mat_B (r_mat r) \<and> length (mat_C (r_mat s)) = length (mat_C (r_mat r))"

lemma kernels_ok_same: "same_input r s \<Longrightarrow> kernels_ok s = kernels_ok r"
  using fits_length [of "mat_C (r_mat s)" "mat_C (r_mat r)"] by (simp add: same_input_def kernels_ok_def)

lemma state_kernel_ok:
  assumes "kernels_ok r" and "2 \<le> sint t"
  shows "\<exists>crc. core_bench_state (r_size r) (r_block r) (r_seed1 r) (r_seed2 r) t c = Some (crc, r_block r)"
proof -
  have k: "terminated (unat (r_size r)) (r_block r)" "(ucast (r_seed1 r) :: u8) = ucast (r_seed2 r)"
    "\<And>b. b \<in> set (r_block r) \<Longrightarrow> b \<noteq> ch (CHR '','') \<Longrightarrow> b XOR ucast (r_seed1 r) \<noteq> ch (CHR '','')"
    using assms(1) by (auto simp: kernels_ok_def)
  from bench_state_eq [OF k(1) assms(2), of "r_seed1 r" "r_seed2 r" c] obtain crc where
    "core_bench_state (r_size r) (r_block r) (r_seed1 r) (r_seed2 r) t c =
       Some (crc, corrupted (corrupted (r_block r) 0 (uint (r_size r)) (ucast (r_seed1 r)) (sint t))
                    0 (uint (r_size r)) (ucast (r_seed1 r)) (sint t))"
    unfolding k(2) [symmetric] .
  with corrupted_twice [of "r_block r" "ucast (r_seed1 r)"] k(3) show ?thesis by simp
qed

lemma matrix_kernel_ok:
  assumes "kernels_ok r"
  shows "\<exists>crc C. core_bench_matrix (r_mat r) t c = Some (crc, (r_mat r)\<lparr>mat_C := C\<rparr>) \<and>
    length C = length (mat_C (r_mat r))"
proof -
  have "fits (mat_N (r_mat r)) (mat_A (r_mat r))" "fits (mat_N (r_mat r)) (mat_B (r_mat r))"
    "fits (mat_N (r_mat r)) (mat_C (r_mat r))" using assms by (auto simp: kernels_ok_def)
  from matrix_test_ok [OF this, of t] show ?thesis
    by (cases "r_mat r") (auto simp: core_bench_matrix_def)
qed

lemma calc_value_ok:
  assumes "kernels_ok r"
  shows "\<exists>v r'. calc_value d r = Some (v, r') \<and> same_input r r' \<and> heads r' = heads r \<and> datas r' = datas r"
proof -
  let ?t = "let dtype = signed_drop_bit 3 d AND 0xf in dtype OR push_bit 4 dtype"
  consider "d AND 0x7 = 0" | "d AND 0x7 = 1" | "d AND 0x7 \<noteq> 0" "d AND 0x7 \<noteq> 1" by blast
  then show ?thesis
  proof cases
    case 1
    have "2 \<le> sint (if sint ?t < 0x22 then 0x22 else ?t)" by simp
    from state_kernel_ok [OF assms this, of "r_crc r"] 1 show ?thesis
      by (auto simp: calc_value_def Let_def same_input_def)
  next
    case 2
    from matrix_kernel_ok [OF assms, of ?t "r_crc r"] 2 show ?thesis
      by (auto simp: calc_value_def Let_def same_input_def)
  qed (simp add: calc_value_def same_input_def Let_def)
qed

definition cached :: "core_results \<Rightarrow> nat \<Rightarrow> bool" where
  "cached s a \<longleftrightarrow> a < length (datas s) \<and> signed_drop_bit 7 (d_data16 (datas s ! a)) AND 1 \<noteq> 0"

definition cached_value :: "core_results \<Rightarrow> nat \<Rightarrow> s16" where
  "cached_value s a = d_data16 (datas s ! a) AND 0x7f"

definition data_good :: "core_results \<Rightarrow> core_results \<Rightarrow> bool" where
  "data_good r s \<longleftrightarrow> kernels_ok r \<and> same_input r s \<and> map regen (datas s) = map regen (datas r)"

text \<open>Caching a value keeps the upper byte, from which the data is restored.\<close>

lemma cache_word:
  fixes x v :: s16
  shows "((x AND 0xff00) OR 0x0080 OR (v AND 0x7f)) AND 0x7f = v AND 0x7f"
    and "signed_drop_bit 7 ((x AND 0xff00) OR 0x0080 OR (v AND 0x7f)) AND 1 \<noteq> 0"
    and "regen (d\<lparr>d_data16 := (d_data16 d AND 0xff00) OR 0x0080 OR (w AND 0x7f)\<rparr>) = regen d"
proof -
  show "((x AND 0xff00) OR 0x0080 OR (v AND 0x7f)) AND 0x7f = v AND 0x7f"
    unfolding byte_masks by (rule bit_word_eqI) (simp only: cache_bits, auto simp: bit_simps)
  have "bit (signed_drop_bit 7 ((x AND 0xff00) OR 0x0080 OR (v AND 0x7f)) AND 1) 0"
    unfolding byte_masks by (simp only: cache_bits) (simp add: bit_simps)
  then show "signed_drop_bit 7 ((x AND 0xff00) OR 0x0080 OR (v AND 0x7f)) AND 1 \<noteq> 0" by fastforce
  have "((y AND 0xff00) OR 0x0080 OR (w AND 0x7f)) AND 0xff00 = y AND 0xff00" for y w :: s16
    unfolding byte_masks by (rule bit_word_eqI) (simp only: cache_bits, auto simp: bit_simps)
  moreover have "0xff AND signed_drop_bit 8 ((y AND 0xff00) OR 0x0080 OR (w AND 0x7f)) = 0xff AND signed_drop_bit 8 y" for y w :: s16
    unfolding byte_masks by (rule bit_word_eqI) (simp only: cache_bits, auto simp: bit_simps)
  ultimately show "regen (d\<lparr>d_data16 := (d_data16 d AND 0xff00) OR 0x0080 OR (w AND 0x7f)\<rparr>) = regen d"
    by (simp add: regen_def)
qed

lemma calc_func_ok:
  assumes "data_good r s" and "a < length (datas s)"
  shows "\<exists>s'. calc_func a s = Some (cached_value s' a, s') \<and> data_good r s' \<and> heads s' = heads s \<and>
    length (datas s') = length (datas s) \<and> cached s' a \<and> (\<forall>c. c \<noteq> a \<longrightarrow> datas s' ! c = datas s ! c) \<and>
    (cached s a \<longrightarrow> s' = s)"
proof (cases "cached s a")
  case True
  with assms show ?thesis by (auto simp: calc_func_def rd_wr_simps cached_def cached_value_def)
next
  case False
  let ?d = "datas s ! a"
  have ks: "kernels_ok s" using assms(1) kernels_ok_same by (auto simp: data_good_def)
  from calc_value_ok [OF ks, of "d_data16 ?d"] obtain v s1 where
    v: "calc_value (d_data16 ?d) s = Some (v, s1)" "same_input s s1" "heads s1 = heads s" "datas s1 = datas s" by blast
  let ?s = "s1\<lparr>r_crc := crcu16 v (r_crc s1), datas := (datas s)[a := ?d\<lparr>d_data16 := (d_data16 ?d AND 0xff00) OR 0x0080 OR (v AND 0x007f)\<rparr>]\<rparr>"
  have "map regen (datas ?s) = map regen (datas s)"
    by (intro nth_equalityI) (use assms(2) in \<open>auto simp: nth_list_update cache_word(3)\<close>)
  moreover have "same_input r ?s" using assms(1) v(2) by (auto simp: data_good_def same_input_def)
  ultimately have "data_good r ?s" using assms(1) by (simp add: data_good_def)
  moreover have "calc_func a s = Some (cached_value ?s a, ?s)"
    using False assms(2) v cache_word(1) [of "d_data16 ?d" v]
    by (simp add: calc_func_def rd_wr_simps cached_def cached_value_def Let_def)
  moreover have "cached ?s a" using assms(2) by (simp add: cached_def cache_word(2))
  ultimately show ?thesis using v False by (intro exI [of _ ?s]) simp
qed

lemma cmp_complex_ok:
  assumes "data_good r s" and "a < length (datas s)" and "b < length (datas s)"
  shows "\<exists>x s'. cmp_complex a b s = Some (x, s') \<and> data_good r s' \<and> heads s' = heads s \<and>
    length (datas s') = length (datas s) \<and> cached s' a \<and> cached s' b \<and>
    sint x = sint (cached_value s' a) - sint (cached_value s' b) \<and>
    (\<forall>c. cached s c \<longrightarrow> cached s' c \<and> cached_value s' c = cached_value s c)"
proof -
  from calc_func_ok [OF assms(1,2)] obtain s1 where
    s1: "calc_func a s = Some (cached_value s1 a, s1)" "data_good r s1" "heads s1 = heads s"
      "length (datas s1) = length (datas s)" "cached s1 a" "\<And>c. c \<noteq> a \<Longrightarrow> datas s1 ! c = datas s ! c"
      "cached s a \<Longrightarrow> s1 = s" by blast
  from calc_func_ok [OF s1(2), of b] assms(3) s1(4) obtain s2 where
    s2: "calc_func b s1 = Some (cached_value s2 b, s2)" "data_good r s2" "heads s2 = heads s"
      "length (datas s2) = length (datas s)" "cached s2 b" "\<And>c. c \<noteq> b \<Longrightarrow> datas s2 ! c = datas s1 ! c"
      "cached s1 b \<Longrightarrow> s2 = s1" by (metis s1(3))
  have keep1: "cached s1 c \<and> cached_value s1 c = cached_value s c" if "cached s c" for c
    using that s1(4,6,7) by (cases "c = a") (auto simp: cached_def cached_value_def)
  have keep2: "cached s2 c \<and> cached_value s2 c = cached_value s1 c" if "cached s1 c" for c
    using that s2(4,6,7) s1(4) by (cases "c = b") (auto simp: cached_def cached_value_def)
  have "cmp_complex a b s = Some (scast (cached_value s2 a) - scast (cached_value s2 b), s2)"
    using keep2 [OF s1(5)] by (simp add: cmp_complex_def s1(1) s2(1))
  moreover have "cached s c \<longrightarrow> cached s2 c \<and> cached_value s2 c = cached_value s c" for c
    using keep1 keep2 by metis
  ultimately show ?thesis
    using s2(2-5) keep2 [OF s1(5)] by (auto simp: sint_diff16)
qed

interpretation by_data: comparator cmp_complex "data_good r" in_datas cached "\<lambda>s a. sint (cached_value s a)"
  for r
proof
  fix s :: core_results and a b
  assume s: "data_good r s" "in_datas s a" "in_datas s b"
  from cmp_complex_ok [OF s(1), of a b] s(2,3) show "\<exists>x s'. cmp_complex a b s = Some (x, s') \<and> data_good r s' \<and>
      heads s' = heads s \<and> cached s' a \<and> cached s' b \<and>
      (sint x \<le> 0 \<longleftrightarrow> sint (cached_value s' a) \<le> sint (cached_value s' b)) \<and>
      (\<forall>c. in_datas s c \<longrightarrow> in_datas s' c) \<and>
      (\<forall>c. cached s c \<longrightarrow> cached s' c \<and> sint (cached_value s' c) = sint (cached_value s c))"
    by (auto simp: in_datas_def)
qed (simp_all add: data_good_def in_datas_def cached_def cached_value_def same_input_def fun_eq_iff)

section \<open>Each value is computed once\<close>

text \<open>
  The value of an item that is not cached, from its data and the kernels: bits 0 to 2 choose the
  kernel, and bits 3 to 6, replicated, are its argument.
\<close>

definition item_kernel :: "s16 \<Rightarrow> core_results \<Rightarrow> (s16 \<times> core_results) option" where
  "item_kernel d s =
     (let n = uint d div 8 mod 16; kernel = uint d mod 8 in
      if kernel = 0 then
        map_option (\<lambda>(v, blk). (v, s\<lparr>r_block := blk, r_crcstate := (if r_crcstate s = 0 then v else r_crcstate s)\<rparr>))
          (core_bench_state (r_size s) (r_block s) (r_seed1 s) (r_seed2 s) (word_of_int (max 34 (17 * n))) (r_crc s))
      else if kernel = 1 then
        map_option (\<lambda>(v, m). (v, s\<lparr>r_mat := m, r_crcmatrix := (if r_crcmatrix s = 0 then v else r_crcmatrix s)\<rparr>))
          (core_bench_matrix (r_mat s) (word_of_int (17 * n)) (r_crc s))
      else Some (d, s))"

lemma item_bits:
  fixes d :: s16
  defines "n \<equiv> uint d div 8 mod 16"
  shows "(d AND 0x7 = 0) = (uint d mod 8 = 0)" and "(d AND 0x7 = 1) = (uint d mod 8 = 1)"
    and "(let dtype = signed_drop_bit 3 d AND 0xf in dtype OR push_bit 4 dtype) = word_of_int (17 * n)"
    and "0 \<le> n" and "n < 16"
proof -
  have m: "(0x7 :: s16) = mask 3" "(0xf :: s16) = mask 4" by (simp_all add: mask_eq_decr_exp)
  have flag: "uint (d AND 0x7) = uint d mod 8"
  proof -
    have "uint (d AND mask 3) = take_bit 3 (uint d)"
      by (simp only: take_bit_eq_mask [symmetric] unsigned_take_bit_eq)
    then show ?thesis unfolding m by (simp only: take_bit_eq_mod) simp
  qed
  show "(d AND 0x7 = 0) = (uint d mod 8 = 0)" "(d AND 0x7 = 1) = (uint d mod 8 = 1)"
    using flag by (simp_all add: word_uint_eq_iff)
  let ?t = "signed_drop_bit 3 d AND 0xf"
  have take: "?t = take_bit 4 (drop_bit 3 d)"
    unfolding m by (rule bit_word_eqI) (auto simp: bit_simps bit_signed_drop_bit_iff)
  have "uint ?t = n"
  proof -
    have "uint d mod 65536 = uint d" using unsigned_less [of d] by (intro mod_pos_pos_trivial) simp_all
    then show ?thesis
      unfolding take n_def unsigned_take_bit_eq unsigned_drop_bit_eq
      by (simp only: take_bit_eq_mod drop_bit_eq_div) simp
  qed
  then have t: "?t = word_of_int n" by (metis word_of_int_uint)
  have "?t AND push_bit 4 ?t = 0"
    unfolding m by (rule bit_word_eqI) (auto simp: bit_simps)
  then have "?t OR push_bit 4 ?t = ?t + push_bit 4 ?t" by (simp add: disjunctive_add_eq_or)
  also have "\<dots> = word_of_int (17 * n)" by (simp add: t push_bit_eq_mult)
  finally show "(let dtype = ?t in dtype OR push_bit 4 dtype) = word_of_int (17 * n)" by (simp add: Let_def)
  show "0 \<le> n" "n < 16" by (simp_all add: n_def)
qed

lemma calc_value_kernel: "calc_value d s = item_kernel d s"
proof -
  let ?n = "uint d div 8 mod 16"
  note b = item_bits [of d]
  have small: "sint (word_of_int (17 * ?n) :: s16) = 17 * ?n"
  proof -
    have "signed_take_bit 15 (17 * ?n) = 17 * ?n"
      using b(4,5) by (intro signed_take_bit_int_eq_self) simp_all
    then show ?thesis unfolding signed_of_int by simp
  qed
  have "(if sint (word_of_int (17 * ?n) :: s16) < 0x22 then 0x22 else word_of_int (17 * ?n)) =
      (word_of_int (max 34 (17 * ?n)) :: s16)"
    unfolding small by (auto simp: max_def)
  then show ?thesis
    unfolding calc_value_def item_kernel_def b(3) [unfolded Let_def] Let_def b(1,2)
    by (auto split: option.splits bind_splits)
qed


text \<open>
  Computing the values of these items, one after the other: each item's kernel runs once, its result
  goes into the CRC, and its low seven bits into the item, marked as computed.
\<close>

inductive computes :: "nat list \<Rightarrow> core_results \<Rightarrow> core_results \<Rightarrow> bool" where
  "computes [] s s"
| "a < length (datas s) \<Longrightarrow> item_kernel (d_data16 (datas s ! a)) s = Some (v, t) \<Longrightarrow>
     computes as
       (t\<lparr>r_crc := crcu16 v (r_crc t),
          datas := (datas t)[a := (datas t ! a)\<lparr>d_data16 :=
            (d_data16 (datas t ! a) AND 0xff00) OR 0x0080 OR (v AND 0x007f)\<rparr>]\<rparr>) u \<Longrightarrow>
     computes (a # as) s u"

lemma computes_append: "computes as s t \<Longrightarrow> computes bs t u \<Longrightarrow> computes (as @ bs) s u"
  by (induction rule: computes.induct) (auto intro: computes.intros)

lemma item_kernel_frame:
  assumes "item_kernel d s = Some (v, t)"
  shows "heads t = heads s" and "datas t = datas s" and "item_kernel d (s\<lparr>heads := h\<rparr>) = Some (v, t\<lparr>heads := h\<rparr>)"
  using assms by (auto simp: item_kernel_def Let_def split: if_splits option.splits)

lemma calc_func_computes:
  assumes "\<not> cached s a" and "calc_func a s = Some (v, s')"
  shows "computes [a] (s\<lparr>heads := h\<rparr>) (s'\<lparr>heads := h\<rparr>)"
proof -
  from assms obtain w t where w: "a < length (datas s)" "item_kernel (d_data16 (datas s ! a)) s = Some (w, t)"
    and s': "s' = t\<lparr>r_crc := crcu16 w (r_crc t), datas := (datas t)[a := (datas s ! a)\<lparr>d_data16 :=
            (d_data16 (datas s ! a) AND 0xff00) OR 0x0080 OR (w AND 0x007f)\<rparr>]\<rparr>"
    by (auto simp: calc_func_def cached_def calc_value_kernel Let_def set_data_def rd_def wr_def
        split: if_splits bind_splits)
  note fr = item_kernel_frame [OF w(2)]
  let ?t = "t\<lparr>heads := h\<rparr>"
  have "computes [a] (s\<lparr>heads := h\<rparr>) (?t\<lparr>r_crc := crcu16 w (r_crc ?t), datas := (datas ?t)[a := (datas ?t ! a)\<lparr>d_data16 :=
            (d_data16 (datas ?t ! a) AND 0xff00) OR 0x0080 OR (w AND 0x007f)\<rparr>]\<rparr>)"
    by (rule computes.intros(2) [where v = w and t = ?t, OF _ _ computes.intros(1)]) (use w(1) fr(3) in simp_all)
  moreover have "s'\<lparr>heads := h\<rparr> = ?t\<lparr>r_crc := crcu16 w (r_crc ?t), datas := (datas ?t)[a := (datas ?t ! a)\<lparr>d_data16 :=
            (d_data16 (datas ?t ! a) AND 0xff00) OR 0x0080 OR (w AND 0x007f)\<rparr>]\<rparr>"
    unfolding s' using fr(2) by simp
  ultimately show ?thesis by simp
qed

text \<open>From \<open>r\<close> to \<open>s\<close> exactly the values of the newly cached items, all in \<open>items\<close>, have been computed.\<close>

definition once :: "core_results \<Rightarrow> nat set \<Rightarrow> core_results \<Rightarrow> bool" where
  "once r items s \<longleftrightarrow> data_good r s \<and> (\<forall>a. cached r a \<longrightarrow> cached s a) \<and>
     (\<exists>as. distinct as \<and> set as = {a. cached s a \<and> \<not> cached r a} \<and> set as \<subseteq> items \<and>
       computes as r (s\<lparr>heads := heads r\<rparr>))"

definition item_in :: "nat set \<Rightarrow> core_results \<Rightarrow> nat \<Rightarrow> bool" where
  "item_in items s a \<longleftrightarrow> a \<in> items \<and> a < length (datas s)"

lemma calc_func_once:
  assumes "once r items s" and "item_in items s a"
  shows "\<exists>s'. calc_func a s = Some (cached_value s' a, s') \<and> once r items s' \<and> heads s' = heads s \<and>
    length (datas s') = length (datas s) \<and> cached s' a \<and> (\<forall>c. c \<noteq> a \<longrightarrow> datas s' ! c = datas s ! c) \<and>
    (cached s a \<longrightarrow> s' = s)"
proof -
  have g: "data_good r s" and a: "a < length (datas s)" "a \<in> items"
    using assms by (simp_all add: once_def item_in_def)
  from calc_func_ok [OF g a(1)] obtain s' where s': "calc_func a s = Some (cached_value s' a, s')" "data_good r s'"
    "heads s' = heads s" "length (datas s') = length (datas s)" "cached s' a"
    "\<forall>c. c \<noteq> a \<longrightarrow> datas s' ! c = datas s ! c" "cached s a \<longrightarrow> s' = s" by blast
  have other: "cached s' c = cached s c" if "c \<noteq> a" for c using s'(4,6) that by (simp add: cached_def)
  have "once r items s'"
  proof (cases "cached s a")
    case True
    with s'(7) assms(1) show ?thesis by simp
  next
    case False
    from assms(1) obtain as where as: "distinct as" "set as = {a. cached s a \<and> \<not> cached r a}" "set as \<subseteq> items"
      "computes as r (s\<lparr>heads := heads r\<rparr>)" and mono: "\<And>c. cached r c \<Longrightarrow> cached s c"
      by (auto simp: once_def)
    have "computes (as @ [a]) r (s'\<lparr>heads := heads r\<rparr>)"
      by (rule computes_append [OF as(4) calc_func_computes [OF False s'(1)]])
    moreover have "set (as @ [a]) = {a. cached s' a \<and> \<not> cached r a}"
      using as(2) False mono [of a] other s'(5) by (auto, metis)
    moreover have "distinct (as @ [a])" using as(1,2) False by simp
    moreover have "cached s' c" if "cached r c" for c
      using mono [OF that] other [of c] s'(5) by (cases "c = a") simp_all
    moreover have "set (as @ [a]) \<subseteq> items" using as(3) a(2) by simp
    ultimately show ?thesis using s'(2) unfolding once_def by blast
  qed
  with s' show ?thesis by blast
qed


lemma cmp_complex_once:
  assumes "once r items s" and "item_in items s a" and "item_in items s b"
  shows "\<exists>x s'. cmp_complex a b s = Some (x, s') \<and> once r items s' \<and> heads s' = heads s \<and>
    cached s' a \<and> cached s' b \<and> (sint x \<le> 0 \<longleftrightarrow> sint (cached_value s' a) \<le> sint (cached_value s' b)) \<and>
    (\<forall>c. item_in items s c \<longrightarrow> item_in items s' c) \<and>
    (\<forall>c. cached s c \<longrightarrow> cached s' c \<and> sint (cached_value s' c) = sint (cached_value s c))"
proof -
  from calc_func_once [OF assms(1,2)] obtain s1 where s1: "calc_func a s = Some (cached_value s1 a, s1)"
    "once r items s1" "length (datas s1) = length (datas s)" by blast
  from calc_func_once [OF s1(2), of b] assms(3) s1(3) obtain s2 where
    s2: "calc_func b s1 = Some (cached_value s2 b, s2)" "once r items s2" by (auto simp: item_in_def)
  from cmp_complex_ok [of r s a b] assms obtain x s' where c: "cmp_complex a b s = Some (x, s')" "heads s' = heads s"
    "length (datas s') = length (datas s)" "cached s' a" "cached s' b"
    "sint x = sint (cached_value s' a) - sint (cached_value s' b)"
    "\<forall>c. cached s c \<longrightarrow> cached s' c \<and> cached_value s' c = cached_value s c"
    by (auto simp: once_def item_in_def)
  have "s' = s2" using c(1) s1(1) s2(1) by (simp add: cmp_complex_def)
  with c s2(2) show ?thesis by (auto simp: item_in_def)
qed

interpretation by_data_once: comparator cmp_complex "once r items" "item_in items" cached "\<lambda>s a. sint (cached_value s a)"
  for r items
proof
  show "\<exists>x s'. cmp_complex a b s = Some (x, s') \<and> once r items s' \<and> heads s' = heads s \<and>
      cached s' a \<and> cached s' b \<and> (sint x \<le> 0 \<longleftrightarrow> sint (cached_value s' a) \<le> sint (cached_value s' b)) \<and>
      (\<forall>c. item_in items s c \<longrightarrow> item_in items s' c) \<and>
      (\<forall>c. cached s c \<longrightarrow> cached s' c \<and> sint (cached_value s' c) = sint (cached_value s c))"
    if "once r items s" "item_in items s a" "item_in items s b" for s a b
    using that by (rule cmp_complex_once)
qed (simp_all add: once_def data_good_def item_in_def cached_def cached_value_def same_input_def fun_eq_iff)

section \<open>Search, reversal, removal\<close>

abbreviation item_at :: "'a list_mem_scheme \<Rightarrow> nat \<Rightarrow> list_data" where
  "item_at s x \<equiv> datas s ! l_info (heads s ! x)"

definition infos_in :: "'a list_mem_scheme \<Rightarrow> nat list \<Rightarrow> bool" where
  "infos_in s xs \<longleftrightarrow> (\<forall>x \<in> set xs. l_info (heads s ! x) < length (datas s))"

lemma find_while_ok:
  "chain (heads s) p xs \<Longrightarrow> infos_in s xs \<Longrightarrow>
     find_while go p s = Some (List.find (\<lambda>x. \<not> go (item_at s x)) xs)"
proof (induction xs arbitrary: p)
  case Nil
  then show ?case by (simp add: find_while.simps)
next
  case (Cons x xs)
  then show ?case by (subst find_while.simps) (auto simp: infos_in_def)
qed

lemma core_list_find_ok:
  assumes "chain (heads s) p xs" and "infos_in s xs"
  shows "core_list_find p key s =
    Some (List.find (\<lambda>x. if 0 \<le> sint (d_idx key) then d_idx (item_at s x) = d_idx key
                      else d_data16 (item_at s x) AND 0xff = d_data16 key) xs)"
  using find_while_ok [OF assms] by (simp add: core_list_find_def)

lemma find_in_set: "List.find P xs \<noteq> None \<Longrightarrow> the (List.find P xs) \<in> set xs"
  by (induction xs) auto

lemma core_list_find_in:
  assumes "chain (heads s) p xs" and "infos_in s xs"
  obtains f where "core_list_find p key s = Some f" and "f \<noteq> None \<Longrightarrow> the f \<in> set xs"
proof
  show "core_list_find p key s =
    Some (List.find (\<lambda>x. if 0 \<le> sint (d_idx key) then d_idx (item_at s x) = d_idx key
                      else d_data16 (item_at s x) AND 0xff = d_data16 key) xs)"
    by (rule core_list_find_ok [OF assms])
qed (rule find_in_set)

lemma reverse_loop_ok:
  assumes "chain (heads s) p xs" and "chain (heads s) q ys" and "distinct (xs @ ys)"
  shows "\<exists>p' h. reverse_loop p q s = Some (p', s\<lparr>heads := h\<rparr>) \<and> chain h p' (rev xs @ ys) \<and>
    length h = length (heads s) \<and> (\<forall>x. l_info (h ! x) = l_info (heads s ! x)) \<and>
    (\<forall>x. x \<notin> set xs \<longrightarrow> h ! x = heads s ! x)"
  using assms
proof (induction xs arbitrary: p q ys s)
  case Nil
  then show ?case by (subst reverse_loop.simps) (auto intro!: exI [of _ "heads s"])
next
  case (Cons x xs)
  let ?s = "s\<lparr>heads := (heads s)[x := (heads s ! x)\<lparr>l_next := q\<rparr>]\<rparr>"
  have x: "p = Some x" "x < length (heads s)" "chain (heads s) (l_next (heads s ! x)) xs" "x \<notin> set xs" "x \<notin> set ys"
    using Cons.prems by auto
  have "chain (heads ?s) (l_next (heads s ! x)) xs" "chain (heads ?s) (Some x) (x # ys)" "distinct (xs @ x # ys)"
    using x Cons.prems by auto
  from Cons.IH [OF this] obtain p' h where
    r: "reverse_loop (l_next (heads s ! x)) (Some x) ?s = Some (p', ?s\<lparr>heads := h\<rparr>)"
      "chain h p' (rev xs @ x # ys)" "length h = length (heads ?s)"
      "\<And>y. l_info (h ! y) = l_info (heads ?s ! y)" "\<And>y. y \<notin> set xs \<Longrightarrow> h ! y = heads ?s ! y" by blast
  have "reverse_loop p q s = Some (p', s\<lparr>heads := h\<rparr>)"
    using r(1) x by (subst reverse_loop.simps) simp
  moreover have "l_info (h ! y) = l_info (heads s ! y)" for y
    using r(4) [of y] x(2) by (cases "y = x") simp_all
  moreover have "y \<notin> set (x # xs) \<longrightarrow> h ! y = heads s ! y" for y using r(5) [of y] by simp
  ultimately show ?case using r(2,3) by (intro exI [of _ p'] exI [of _ h]) simp
qed

text \<open>Moving the element after \<open>x\<close>, \<open>v\<close>, to the place after the list's first, \<open>l\<close>.\<close>

definition relinked :: "list_head list \<Rightarrow> nat \<Rightarrow> nat \<Rightarrow> nat \<Rightarrow> list_head list" where
  "relinked h l x v =
     (let h1 = h[x := (h ! x)\<lparr>l_next := l_next (h ! v)\<rparr>];
          h2 = h1[v := (h1 ! v)\<lparr>l_next := l_next (h1 ! l)\<rparr>]
      in h2[l := (h2 ! l)\<lparr>l_next := Some v\<rparr>])"

lemma relinked_info: "l < length h \<Longrightarrow> x < length h \<Longrightarrow> v < length h \<Longrightarrow> l_info (relinked h l x v ! y) = l_info (h ! y)"
  by (auto simp: relinked_def Let_def nth_list_update)

lemma relinked_chain:
  assumes "chain h (Some l) (us @ x # v # ws)" and "distinct (us @ x # v # ws)"
  shows "\<exists>ys. chain (relinked h l x v) (Some l) ys \<and> mset ys = mset (us @ x # v # ws)"
proof (cases us)
  case Nil
  with assms have "chain (relinked h l x v) (Some l) (x # v # ws)"
    by (auto simp: relinked_def Let_def)
  with Nil show ?thesis by (intro exI [of _ "x # v # ws"]) auto
next
  case (Cons l' us')
  with assms have "chain (relinked h l x v) (Some l) (l # v # us' @ x # ws) \<and> l' = l"
    by (auto simp: relinked_def Let_def path_append)
  with Cons show ?thesis by (intro exI [of _ "l # v # us' @ x # ws"]) auto
qed

definition shuffled :: "'a list_mem_scheme \<Rightarrow> nat list \<Rightarrow> nat option \<Rightarrow> 'a list_mem_scheme \<Rightarrow> bool" where
  "shuffled s0 xs p s \<longleftrightarrow>
     (\<exists>h ys. s = s0\<lparr>heads := h\<rparr> \<and> chain h p ys \<and> mset ys = mset xs \<and> length h = length (heads s0) \<and>
       (\<forall>x. l_info (h ! x) = l_info (heads s0 ! x)))"

lemma shuffledI:
  "chain h p ys \<Longrightarrow> mset ys = mset xs \<Longrightarrow> length h = length (heads s0) \<Longrightarrow>
     (\<And>x. l_info (h ! x) = l_info (heads s0 ! x)) \<Longrightarrow> shuffled s0 xs p (s0\<lparr>heads := h\<rparr>)"
  unfolding shuffled_def by (intro exI [of _ h] exI [of _ ys]) simp

lemma find_round_ok:
  assumes "shuffled s0 xs p s" and "distinct xs" and "2 \<le> length xs" and "infos_in s0 xs"
  shows "\<exists>p' key' retval' found' missed' s'.
    find_round i (p, key, retval, found, missed, s) = Some (p', key', retval', found', missed', s') \<and> shuffled s0 xs p' s'"
proof -
  let ?key = "key\<lparr>d_data16 := of_nat i AND 0xff\<rparr>"
  from assms(1) obtain h ys where
    h: "s = s0\<lparr>heads := h\<rparr>" "chain h p ys" "mset ys = mset xs" "length h = length (heads s0)"
      "\<And>x. l_info (h ! x) = l_info (heads s0 ! x)" by (auto simp: shuffled_def)
  have ys: "distinct ys" "length ys = length xs" "set ys = set xs"
    using h(3) assms(2) mset_eq_imp_distinct_iff by (auto dest: mset_eq_length mset_eq_setD)
  have inf: "infos_in s ys" using assms(4) h ys(3) by (simp add: infos_in_def)
  obtain f where f: "core_list_find p ?key s = Some f" "f \<noteq> None \<Longrightarrow> the f \<in> set ys"
    using core_list_find_in [of s p ys ?key] h(1,2) inf by auto
  from reverse_loop_ok [of s p ys None "[]"] h(1,2) ys(1) obtain p1 h1 where
    r: "core_list_reverse p s = Some (p1, s\<lparr>heads := h1\<rparr>)" "chain h1 p1 (rev ys)" "length h1 = length h"
      "\<And>x. l_info (h1 ! x) = l_info (heads s0 ! x)"
    using h(5) by (auto simp: core_list_reverse_def)
  obtain l us where l: "rev ys = l # us" "us \<noteq> []" using ys(2) assms(3) by (cases "rev ys"; cases "tl (rev ys)") auto
  have p1: "p1 = Some l" "l < length h1" using r(2) l by auto
  have len: "\<And>x. x \<in> set ys \<Longrightarrow> x < length h1 \<and> l_info (h1 ! x) < length (datas s0)"
    using path_bound [OF r(2)] inf r(4) h by (auto simp: infos_in_def)
  have ds: "datas s = datas s0" using h(1) by simp
  have sh1: "shuffled s0 xs p1 (s\<lparr>heads := h1\<rparr>)"
    using shuffledI [OF r(2) _ _ r(4)] r(3) h by simp
  show ?thesis
  proof (cases f)
    case None
    obtain m ms where "us = m # ms" using l(2) by (cases us) auto
    with r(2) l have "l_next (h1 ! l) = Some m" "m \<in> set ys" by (auto simp: set_rev [of ys, symmetric] simp del: set_rev)
    with len [of m] p1 ds sh1 show ?thesis
      by (simp add: find_round_def Let_def f(1) r(1) None)
  next
    case (Some x)
    then have x: "x \<in> set ys" using f(2) by simp
    show ?thesis
    proof (cases "l_next (h1 ! x)")
      case None
      with len [OF x] p1 ds sh1 Some show ?thesis by (simp add: find_round_def Let_def f(1) r(1))
    next
      case v: (Some v)
      from x obtain as bs where ab: "rev ys = as @ x # bs" by (metis set_rev split_list)
      with r(2) v obtain ws where bs: "bs = v # ws" by (cases bs) (auto simp: path_append)
      then have "v \<in> set ys" using ab by (metis set_rev in_set_conv_decomp append_Cons append_assoc append_Nil)
      then have vb: "v < length h1" using len by simp
      have "distinct (as @ x # v # ws)" using ys(1) ab bs by (metis distinct_rev)
      from relinked_chain [OF _ this, of h1 l] r(2) ab bs p1 obtain zs where
        zs: "chain (relinked h1 l x v) (Some l) zs" "mset zs = mset ys" by (metis mset_rev)
      have "shuffled s0 xs p1 (s\<lparr>heads := relinked h1 l x v\<rparr>)"
        using shuffledI [of "relinked h1 l x v" p1 zs xs s0] zs h r p1 len [OF x] vb
        by (simp add: relinked_info) (simp add: relinked_def Let_def)
      with len [OF x] p1 ds v vb Some show ?thesis
        by (simp add: find_round_def f(1) r(1) relinked_def Let_def)
    qed
  qed
qed

lemma head_eta: "\<lparr>l_next = l_next z, l_info = l_info z\<rparr> = (z :: list_head)"
  by (cases z) simp

lemma remove_undo_ok:
  assumes "x < length (heads s)" and "y < length (heads s)" and "x \<noteq> y" and "l_next (heads s ! x) = Some y"
  shows "\<exists>h. core_list_remove (Some x) s = Some (Some y, s\<lparr>heads := h\<rparr>) \<and>
    core_list_undo_remove (Some y) (Some x) (s\<lparr>heads := h\<rparr>) = Some (Some y, s) \<and>
    h = (heads s)[x := \<lparr>l_next = l_next (heads s ! y), l_info = l_info (heads s ! y)\<rparr>,
                  y := \<lparr>l_next = None, l_info = l_info (heads s ! x)\<rparr>]"
proof -
  let ?h = "(heads s)[x := \<lparr>l_next = l_next (heads s ! y), l_info = l_info (heads s ! y)\<rparr>,
                      y := \<lparr>l_next = None, l_info = l_info (heads s ! x)\<rparr>]"
  have "core_list_remove (Some x) s = Some (Some y, s\<lparr>heads := ?h\<rparr>)"
    using assms by (cases "heads s ! x"; cases "heads s ! y") (simp add: core_list_remove_def list_update_swap [of x y])
  moreover have "(heads s)[x := a, y := b, x := c, y := \<lparr>l_next = l_next (heads s ! y), l_info = l_info (heads s ! y)\<rparr>,
      x := \<lparr>l_next = Some y, l_info = l_info (heads s ! x)\<rparr>] = heads s" for a b c
    using assms(1,2) by (intro nth_equalityI) (auto simp: nth_list_update head_eta assms(4) [symmetric])
  then have "core_list_undo_remove (Some y) (Some x) (s\<lparr>heads := ?h\<rparr>) = Some (Some y, s)"
    using assms by (simp add: core_list_undo_remove_def)
  ultimately show ?thesis by blast
qed

text \<open>The CRC loops read the list's head only, once for each head from \<open>finder\<close> on.\<close>

lemma crc_loop_ok:
  assumes "chain (heads s) finder xs" and "info_of list s = Some d"
  shows "crc_loop finder list v s = Some ((crc16 (d_data16 d) ^^ length xs) v)"
  using assms(1)
proof (induction xs arbitrary: finder v)
  case Nil
  then show ?case by (simp add: crc_loop.simps)
next
  case (Cons x xs)
  then show ?case by (subst crc_loop.simps) (simp add: assms(2) funpow_swap1)
qed

lemma idx_sort_ok:
  assumes "chain (heads s) list xs" and "distinct xs" and "xs \<noteq> []" and "infos_in s xs"
  shows "\<exists>list' s'. core_list_mergesort list (cmp_idx True) s = Some (list', s') \<and>
    list_mem.more s' = list_mem.more s \<and> length (heads s') = length (heads s) \<and> length (datas s') = length (datas s) \<and>
    chain (heads s') list' (sort_key (\<lambda>x. sint (d_idx (datas s ! l_info (heads s ! x)))) xs) \<and>
    (\<forall>x < length (heads s). l_info (heads s' ! x) = l_info (heads s ! x)) \<and>
    (1 < length xs \<longrightarrow> (\<forall>x \<in> set xs. datas s' ! l_info (heads s' ! x) = regen (datas s ! l_info (heads s ! x))))"
proof -
  have "idx_good (datas s) (list_mem.more s) s" by (simp add: idx_good_def)
  moreover have "\<forall>x \<in> set xs. in_datas s (l_info (heads s ! x))" using assms(4) by (simp add: in_datas_def infos_in_def)
  ultimately obtain p' s' ys where
    m: "core_list_mergesort list (cmp_idx True) s = Some (p', s')" "idx_good (datas s) (list_mem.more s) s'"
      "length (heads s') = length (heads s)"
      "\<forall>x < length (heads s). l_info (heads s' ! x) = l_info (heads s ! x)"
      "chain (heads s') p' ys" "ys = sort_key (\<lambda>x. idx_key (datas s) (l_info (heads s ! x))) xs"
      "1 < length xs \<longrightarrow> (\<forall>x \<in> set xs. regenerated s' (l_info (heads s ! x)))"
    using by_idx.mergesort_ok [OF _ assms(1-3), of "datas s" "list_mem.more s"] by blast
  have "datas s' ! a = regen (datas s ! a)" if "regenerated s' a" for a
    using that m(2) unfolding idx_good_def regenerated_def by (metis length_map nth_map)
  then have reg: "item_at s' x = regen (item_at s x)" if "1 < length xs" "x \<in> set xs" for x
    using m(4) [rule_format, OF path_bound [OF assms(1) that(2)]] m(7) that by simp
  have "length (datas s') = length (datas s)" "list_mem.more s' = list_mem.more s"
    using m(2) by (auto simp: idx_good_def dest: map_eq_imp_length_eq)
  with reg m(1,3,4,5) show ?thesis unfolding m(6) idx_key_def by blast
qed

section \<open>The benchmark run\<close>

lemma same_input_more: "list_mem.more s' = list_mem.more s \<Longrightarrow> same_input r s' = same_input r s"
  by (cases s; cases s') (simp add: same_input_def)

lemma remove_crc_undo_ok:
  assumes "chain (heads s) p zs" and "distinct zs" and "3 \<le> length zs" and "infos_in s zs"
  shows "\<exists>crc. remove_crc_undo p key v s = Some (crc, s)"
proof -
  obtain l x y ws where zs: "zs = l # x # y # ws"
    using assms(3) by (auto simp: Suc_le_length_iff numeral_3_eq_3)
  have p: "p = Some l" "l < length (heads s)" "l_next (heads s ! l) = Some x" "x < length (heads s)"
    "l_next (heads s ! x) = Some y" "y < length (heads s)" "chain (heads s) (l_next (heads s ! y)) ws"
    "l \<noteq> x" "l \<noteq> y" "x \<noteq> y" "l \<notin> set ws" "x \<notin> set ws" "y \<notin> set ws"
    using assms(1,2) by (auto simp: zs)
  from remove_undo_ok [OF p(4,6,10,5)] obtain h where
    h: "core_list_remove (Some x) s = Some (Some y, s\<lparr>heads := h\<rparr>)"
      "core_list_undo_remove (Some y) (Some x) (s\<lparr>heads := h\<rparr>) = Some (Some y, s)"
      "h = (heads s)[x := \<lparr>l_next = l_next (heads s ! y), l_info = l_info (heads s ! y)\<rparr>,
                    y := \<lparr>l_next = None, l_info = l_info (heads s ! x)\<rparr>]" by blast
  let ?s = "s\<lparr>heads := h\<rparr>"
  have c: "chain (heads ?s) p (l # x # ws)" using p by (simp add: h(3))
  have i: "infos_in ?s (l # x # ws)" using assms(4) p(4,6,8-13) by (auto simp: infos_in_def zs h(3) nth_list_update)
  from core_list_find_in [OF c i, of key] obtain f where
    f: "core_list_find p key ?s = Some f" "f \<noteq> None \<Longrightarrow> the f \<in> set (l # x # ws)" by blast
  have nl: "next_of p ?s = Some (Some x)" "next_of p s = Some (Some x)" using p by (simp_all add: h(3))
  have "\<exists>f' us. (if f = None then next_of p ?s else Some f) = Some f' \<and> chain (heads ?s) f' us"
  proof (cases f)
    case None
    with nl(1) c p show ?thesis by (intro exI [of _ "Some x"] exI [of _ "x # ws"]) (simp add: h(3))
  next
    case (Some g)
    with f(2) obtain as bs where "l # x # ws = as @ g # bs" by (metis option.sel option.distinct(1) split_list)
    with c have "chain (heads ?s) (Some g) (g # bs)" by (auto simp: path_append simp del: path.simps(2)) (auto)
    with Some show ?thesis by (intro exI [of _ f] exI [of _ "g # bs"]) simp
  qed
  then obtain f' us where f': "(if f = None then next_of p ?s else Some f) = Some f'" "chain (heads ?s) f' us" by blast
  obtain d where d: "info_of p ?s = Some d" using i p c by (auto simp: infos_in_def)
  show ?thesis
    unfolding remove_crc_undo_def
    by (simp add: nl h(1,2) f(1) f'(1) crc_loop_ok [OF f'(2) d])
qed

lemma shuffle_loop_ok:
  assumes "chain (heads r) (r_list r) xs" and "distinct xs" and "2 \<le> length xs" and "infos_in r xs"
  shows "\<exists>p key retval found missed s. for_each [0..<m] find_round (r_list r, key0, 0, 0, 0, r) =
      Some (p, key, retval, found, missed, s) \<and> shuffled r xs p s"
proof -
  let ?P = "\<lambda>(k :: nat) st. shuffled r xs (fst st) (snd (snd (snd (snd (snd st)))))"
  have "shuffled r xs (r_list r) (r\<lparr>heads := heads r\<rparr>)" using assms(1) by (intro shuffledI) simp_all
  then have "\<exists>st. for_each [0..<m] find_round (r_list r, key0, 0, 0, 0, r) = Some st \<and> ?P m st"
    using find_round_ok [OF _ assms(2-4)]
    by (intro for_each_invar [where P = ?P]) (simp, auto simp: split_paired_all)
  then show ?thesis by (auto simp: split_paired_all)
qed

lemma infos_in_mset: "mset ys = mset xs \<Longrightarrow> infos_in s ys = infos_in s xs"
  by (auto simp: infos_in_def dest: mset_eq_setD)

definition arranged :: "core_results \<Rightarrow> nat list \<Rightarrow> nat option \<Rightarrow> core_results \<Rightarrow> bool" where
  "arranged r xs p s \<longleftrightarrow> data_good r s \<and> length (heads s) = length (heads r) \<and>
     (\<forall>x < length (heads r). l_info (heads s ! x) = l_info (heads r ! x)) \<and>
     (\<exists>zs. chain (heads s) p zs \<and> mset zs = mset xs)"

lemma arranged_items:
  assumes "arranged r xs p s" and "chain (heads r) p0 xs" and "infos_in r xs" and "distinct xs"
  obtains zs where "chain (heads s) p zs" "mset zs = mset xs" "distinct zs" "infos_in s zs"
proof -
  from assms(1) obtain zs where zs: "chain (heads s) p zs" "mset zs = mset xs" by (auto simp: arranged_def)
  have "length (datas s) = length (datas r)" using assms(1) by (auto simp: arranged_def data_good_def dest: map_eq_imp_length_eq)
  then have "infos_in s xs" using assms(1,3) path_bound [OF assms(2)] by (auto simp: infos_in_def arranged_def)
  with zs assms(4) show thesis using that mset_eq_imp_distinct_iff by (metis infos_in_mset)
qed

lemma data_sort_ok:
  assumes "shuffled r xs p s" and "distinct xs" and "xs \<noteq> []" and "infos_in r xs" and "kernels_ok r"
  shows "\<exists>p' s'. core_list_mergesort p cmp_complex s = Some (p', s') \<and> arranged r xs p' s'"
    and "arranged r xs p s"
proof -
  from assms(1) obtain h ys where
    h: "s = r\<lparr>heads := h\<rparr>" "chain h p ys" "mset ys = mset xs" "length h = length (heads r)"
      "\<And>x. l_info (h ! x) = l_info (heads r ! x)" by (auto simp: shuffled_def)
  have good: "data_good r s" using assms(5) h(1) by (simp add: data_good_def same_input_def)
  then show "arranged r xs p s" using h by (auto simp: arranged_def)
  have ys: "distinct ys" "ys \<noteq> []" using h(3) assms(2,3) mset_eq_imp_distinct_iff by auto
  have "\<forall>x \<in> set ys. in_datas s (l_info (heads s ! x))"
    using assms(4) h mset_eq_setD [OF h(3)] by (auto simp: in_datas_def infos_in_def)
  from by_data.mergesort_ok [OF good _ ys this, of p] h obtain p' s' zs where
    "core_list_mergesort p cmp_complex s = Some (p', s')" "data_good r s'"
    "length (heads s') = length (heads r)" "\<forall>x < length (heads r). l_info (heads s' ! x) = l_info (heads r ! x)"
    "chain (heads s') p' zs" "zs = sort_key (\<lambda>x. sint (cached_value s' (l_info (heads s ! x)))) ys"
    by auto
  with h(3) show "\<exists>p' s'. core_list_mergesort p cmp_complex s = Some (p', s') \<and> arranged r xs p' s'"
    by (auto simp: arranged_def)
qed

text \<open>The list's order by index.\<close>

definition in_index_order :: "'a list_mem_scheme \<Rightarrow> nat list \<Rightarrow> bool" where
  "in_index_order s xs \<longleftrightarrow> sorted_wrt (\<lambda>x y. sint (d_idx (item_at s x)) < sint (d_idx (item_at s y))) xs"

definition list_ready :: "core_results \<Rightarrow> nat list \<Rightarrow> bool" where
  "list_ready r xs \<longleftrightarrow> chain (heads r) (r_list r) xs \<and> distinct xs \<and> 3 \<le> length xs \<and> infos_in r xs \<and>
     in_index_order r xs \<and> (\<forall>x \<in> set xs. regen (item_at r x) = item_at r x)"

lemma strict_key:
  fixes K :: "'b \<Rightarrow> int"
  assumes "sorted_wrt (\<lambda>x y. K x < K y) xs"
  shows "inj_on K (set xs)" and "sorted (map K xs)"
proof -
  from assms show "inj_on K (set xs)"
  proof (induction xs)
    case (Cons x xs)
    then have "K x \<notin> K ` set xs" by auto
    with Cons show ?case by auto
  qed simp
  from assms show "sorted (map K xs)" by (induction xs) (auto simp: less_imp_le)
qed

lemma sort_back:
  assumes "arranged r xs p s" and "list_ready r xs"
  shows "\<exists>s'. core_list_mergesort p (cmp_idx True) s = Some (r_list r, s') \<and> same_input r s' \<and>
    chain (heads s') (r_list r) xs \<and> (\<forall>x \<in> set xs. l_info (heads s' ! x) = l_info (heads r ! x) \<and> item_at s' x = item_at r x) \<and>
    length (datas s') = length (datas r)"
proof -
  have r: "chain (heads r) (r_list r) xs" "distinct xs" "3 \<le> length xs" "infos_in r xs" "in_index_order r xs"
    "\<And>x. x \<in> set xs \<Longrightarrow> regen (item_at r x) = item_at r x" using assms(2) by (auto simp: list_ready_def)
  from assms(1) have s: "data_good r s" "length (heads s) = length (heads r)"
    "\<And>x. x < length (heads r) \<Longrightarrow> l_info (heads s ! x) = l_info (heads r ! x)" by (auto simp: arranged_def)
  have md: "map regen (datas s) = map regen (datas r)" using s(1) by (simp add: data_good_def)
  obtain zs where zs: "chain (heads s) p zs" "mset zs = mset xs" "distinct zs" "infos_in s zs"
    using arranged_items [OF assms(1) r(1,4,2)] .
  have set: "set zs = set xs" using zs(2) by (rule mset_eq_setD)
  have "idx_good (datas r) (list_mem.more s) s" by (simp add: idx_good_def md)
  moreover have "zs \<noteq> []" "\<forall>x \<in> set zs. in_datas s (l_info (heads s ! x))" "1 < length zs"
    using zs(2,4) r(3) by (auto simp: infos_in_def in_datas_def dest: mset_eq_length)
  ultimately have good: "idx_good (datas r) (list_mem.more s) s" and ne: "zs \<noteq> []"
    and ind: "\<forall>x \<in> set zs. in_datas s (l_info (heads s ! x))" and lz: "1 < length zs" by blast+
  from by_idx.mergesort_ok [OF good zs(1,3) ne ind] lz obtain p' s' ys where
    m: "core_list_mergesort p (cmp_idx True) s = Some (p', s')" "idx_good (datas r) (list_mem.more s) s'"
      "length (heads s') = length (heads s)" "\<And>x. x < length (heads s) \<Longrightarrow> l_info (heads s' ! x) = l_info (heads s ! x)"
      "chain (heads s') p' ys" "ys = sort_key (\<lambda>x. idx_key (datas r) (l_info (heads s ! x))) zs"
      "\<And>x. x \<in> set zs \<Longrightarrow> regenerated s' (l_info (heads s ! x))"
    by blast
  let ?f = "\<lambda>x. idx_key (datas r) (l_info (heads s ! x))"
  have inf: "l_info (heads s ! x) = l_info (heads r ! x) \<and> l_info (heads s' ! x) = l_info (heads r ! x)" if "x \<in> set xs" for x
    using s(2,3) m(3,4) path_bound [OF r(1) that] by simp
  have strict: "sorted_wrt (\<lambda>x y. ?f x < ?f y) xs"
    using r(5) unfolding in_index_order_def by (rule sorted_wrt_mono_rel [rotated]) (simp only: inf idx_key_def)
  have "ys = xs" unfolding m(6)
    by (rule sort_key_inj_key_eq [OF zs(2)]) (simp_all only: set strict_key [OF strict])
  then have chain: "chain (heads s') p' xs" using m(5) by simp
  have "p' = r_list r" using chain r(1) by (cases xs) auto
  moreover have "same_input r s'"
    using s(1) m(2) same_input_more [of s' s r] by (simp add: idx_good_def data_good_def)
  moreover have "item_at s' x = item_at r x" if "x \<in> set xs" for x
  proof -
    let ?a = "l_info (heads r ! x)"
    have "regenerated s' ?a" using m(7) [of x] inf [OF that] that set by simp
    moreover have "map regen (datas s') = map regen (datas r)" using m(2) by (simp add: idx_good_def)
    ultimately have "datas s' ! ?a = regen (datas r ! ?a)"
      by (metis length_map nth_map regenerated_def)
    then show ?thesis using r(6) [OF that] inf [OF that] by simp
  qed
  moreover have "length (datas s') = length (datas r)"
    using m(2) by (auto simp: idx_good_def dest: map_eq_imp_length_eq)
  ultimately show ?thesis using m(1) chain inf by blast
qed

lemma core_bench_list_ok:
  assumes "list_ready r xs" and "kernels_ok r"
  shows "\<exists>crc r'. core_bench_list r finder_idx = Some (crc, r') \<and> same_input r r' \<and>
    chain (heads r') (r_list r') xs \<and>
    (\<forall>x \<in> set xs. l_info (heads r' ! x) = l_info (heads r ! x) \<and> item_at r' x = item_at r x) \<and>
    length (datas r') = length (datas r)"
proof -
  have r: "chain (heads r) (r_list r) xs" "distinct xs" "3 \<le> length xs" "infos_in r xs" "2 \<le> length xs" "xs \<noteq> []"
    using assms(1) by (auto simp: list_ready_def)
  from shuffle_loop_ok [OF r(1,2,5,4), of "nat (sint (r_seed3 r))" "\<lparr>d_data16 = 0, d_idx = finder_idx\<rparr>"]
  obtain p key retval found missed s where
    a: "for_each [0..<nat (sint (r_seed3 r))] find_round (r_list r, \<lparr>d_data16 = 0, d_idx = finder_idx\<rparr>, 0, 0, 0, r) =
      Some (p, key, retval, found, missed, s)" "shuffled r xs p s" by blast
  obtain p1 s1 where
    b: "(if 0 < sint finder_idx then core_list_mergesort p cmp_complex s else Some (p, s)) = Some (p1, s1)"
      "arranged r xs p1 s1"
    using data_sort_ok [OF a(2) r(2,6,4) assms(2)] by (cases "0 < sint finder_idx") auto
  obtain zs where zs: "chain (heads s1) p1 zs" "mset zs = mset xs" "distinct zs" "infos_in s1 zs"
    using arranged_items [OF b(2) r(1,4,2)] .
  have "3 \<le> length zs" using mset_eq_length [OF zs(2)] r(3) by simp
  from remove_crc_undo_ok [OF zs(1,3) this zs(4)] obtain crc1 where
    c: "remove_crc_undo p1 key (retval + (found * 4 - missed)) s1 = Some (crc1, s1)" by blast
  from sort_back [OF b(2) assms(1)] obtain s2 where
    d: "core_list_mergesort p1 (cmp_idx True) s1 = Some (r_list r, s2)" "same_input r s2"
      "chain (heads s2) (r_list r) xs" "\<forall>x \<in> set xs. l_info (heads s2 ! x) = l_info (heads r ! x) \<and> item_at s2 x = item_at r x"
      "length (datas s2) = length (datas r)" by blast
  obtain x ys where x: "xs = x # ys" using r(6) by (cases xs) auto
  have e: "next_of (r_list r) s2 = Some (l_next (heads s2 ! x))" "chain (heads s2) (l_next (heads s2 ! x)) ys"
    "info_of (r_list r) s2 = Some (item_at s2 x)"
    using d(3-5) r(4) by (auto simp: x infos_in_def)
  have "core_bench_list r finder_idx = Some ((crc16 (d_data16 (item_at s2 x)) ^^ length ys) crc1, s2)"
    unfolding core_bench_list_def
    by (simp add: a(1) b(1) c d(1) e(1) crc_loop_ok [OF e(2,3)] Let_def)
  then show ?thesis using d by (auto simp: same_input_def)
qed

lemma core_bench_list_keeps:
  assumes "list_ready res xs" and "kernels_ok res"
  shows "\<exists>crc res'. core_bench_list res finder_idx = Some (crc, res') \<and>
    list_ready res' xs \<and> kernels_ok res' \<and> same_input res res' \<and>
    (\<forall>x \<in> set xs. l_info (heads res' ! x) = l_info (heads res ! x) \<and>
       datas res' ! l_info (heads res' ! x) = datas res ! l_info (heads res ! x))"
proof -
  from core_bench_list_ok [OF assms, of finder_idx] obtain crc r' where
    r: "core_bench_list res finder_idx = Some (crc, r')" "same_input res r'" "chain (heads r') (r_list r') xs"
      "\<forall>x \<in> set xs. l_info (heads r' ! x) = l_info (heads res ! x) \<and> item_at r' x = item_at res x"
      "length (datas r') = length (datas res)" by blast
  have keep: "l_info (heads r' ! x) = l_info (heads res ! x)" "item_at r' x = item_at res x" if "x \<in> set xs" for x
    using r(4) that by blast+
  have "in_index_order r' xs"
    using assms(1) unfolding list_ready_def in_index_order_def
    by (elim conjE) (erule sorted_wrt_mono_rel [rotated], simp only: keep(2))
  moreover have "infos_in r' xs" using assms(1) r(5) by (simp add: list_ready_def infos_in_def keep(1))
  moreover have "\<forall>x \<in> set xs. regen (item_at r' x) = item_at r' x"
  proof
    fix x assume x: "x \<in> set xs"
    with assms(1) have "regen (item_at res x) = item_at res x" by (simp add: list_ready_def)
    then show "regen (item_at r' x) = item_at r' x" by (simp only: keep(2) [OF x])
  qed
  ultimately have "list_ready r' xs" using assms(1) r(3) by (simp add: list_ready_def)
  then show ?thesis using r kernels_ok_same assms(2) by blast
qed

section \<open>Properties\<close>

text \<open>C8: A run of the list kernel always returns and every pointer it follows is valid; it searches,
  reverses, sorts by data (running the state and matrix kernels from the comparison function),
  removes and re-inserts, and leaves the list as it was: the same heads in the same order, with the
  same data, and the inputs of the other kernels unchanged, so that every iteration sees the same
  list. The list must be as \<open>core_list_init\<close> means to leave it, in strict index order.\<close>

theorem core_bench_list_restores:
  assumes "list_ready res xs" and "kernels_ok res"
  shows "\<exists>crc res'. core_bench_list res finder_idx = Some (crc, res') \<and>
    list_ready res' xs \<and> kernels_ok res' \<and> same_input res res' \<and>
    (\<forall>x \<in> set xs. l_info (heads res' ! x) = l_info (heads res ! x) \<and>
       datas res' ! l_info (heads res' ! x) = datas res ! l_info (heads res ! x))"
  by (rule core_bench_list_keeps [OF assms])

definition sample_results :: core_results where
  "sample_results =
     \<lparr>heads = [\<lparr>l_next = Some 2, l_info = 0\<rparr>, \<lparr>l_next = None, l_info = 1\<rparr>,
               \<lparr>l_next = Some 3, l_info = 3\<rparr>, \<lparr>l_next = Some 1, l_info = 2\<rparr>],
      datas = [\<lparr>d_data16 = 0x8080, d_idx = 0\<rparr>, \<lparr>d_data16 = 0xffff, d_idx = 0x7fff\<rparr>,
               \<lparr>d_data16 = 0x0101, d_idx = 2\<rparr>, \<lparr>d_data16 = 0, d_idx = 1\<rparr>],
      r_seed1 = 0, r_seed2 = 0, r_seed3 = 0x66, r_block = pat ''5012,1'' @ [0, 0], r_size = 8,
      r_iterations = 1, r_execs = 7, r_list = Some 0,
      r_mat = \<lparr>mat_N = 1, mat_A = [20], mat_B = [10], mat_C = [0]\<rparr>,
      r_crc = 0, r_crclist = 0, r_crcmatrix = 0, r_crcstate = 0, r_err = 0\<rparr>"

lemma sample_ready: "list_ready sample_results [0, 2, 3, 1]" "kernels_ok sample_results"
  by (simp_all add: list_ready_def kernels_ok_def sample_results_def infos_in_def in_index_order_def regen_def
      terminated_def fits_def pat_def)

theorem core_bench_list_restores_witness:
  "\<exists>crc res'. core_bench_list sample_results 1 = Some (crc, res') \<and> list_ready res' [0, 2, 3, 1] \<and>
     kernels_ok res' \<and> same_input sample_results res' \<and>
     (\<forall>x \<in> set [0, 2, 3, 1]. l_info (heads res' ! x) = l_info (heads sample_results ! x) \<and>
        datas res' ! l_info (heads res' ! x) = datas sample_results ! l_info (heads sample_results ! x))"
  by (rule core_bench_list_restores [OF sample_ready])

text \<open>C12: Sorting by index is the stable sort of the list: it returns, follows only valid pointers, puts
  the same heads into ascending order by index, keeps heads of equal index in their order, and
  restores the data of every item from its upper byte.\<close>

theorem mergesort_by_idx_sorts:
  assumes "chain (heads s) list xs" and "distinct xs" and "xs \<noteq> []" and "infos_in s xs"
  shows "\<exists>list' s'. core_list_mergesort list (cmp_idx True) s = Some (list', s') \<and>
    chain (heads s') list' (sort_key (\<lambda>x. sint (d_idx (datas s ! l_info (heads s ! x)))) xs) \<and>
    (\<forall>x < length (heads s). l_info (heads s' ! x) = l_info (heads s ! x)) \<and>
    (1 < length xs \<longrightarrow> (\<forall>x \<in> set xs. datas s' ! l_info (heads s' ! x) = regen (datas s ! l_info (heads s ! x))))"
  using idx_sort_ok [OF assms] by blast

theorem mergesort_by_idx_sorts_witness:
  "\<exists>list' s'. core_list_mergesort (Some 0) (cmp_idx True)
      \<lparr>heads = [\<lparr>l_next = Some 1, l_info = 1\<rparr>, \<lparr>l_next = Some 2, l_info = 0\<rparr>, \<lparr>l_next = None, l_info = 2\<rparr>],
       datas = [\<lparr>d_data16 = 5, d_idx = 1\<rparr>, \<lparr>d_data16 = 6, d_idx = 3\<rparr>, \<lparr>d_data16 = 0x107, d_idx = 1\<rparr>]\<rparr> =
      Some (list', s') \<and> chain (heads s') list' [1, 2, 0] \<and> datas s' ! 2 = \<lparr>d_data16 = 0x101, d_idx = 1\<rparr>"
proof -
  let ?s = "\<lparr>heads = [\<lparr>l_next = Some 1, l_info = 1\<rparr>, \<lparr>l_next = Some 2, l_info = 0\<rparr>, \<lparr>l_next = None, l_info = 2\<rparr>],
       datas = [\<lparr>d_data16 = 5, d_idx = 1\<rparr>, \<lparr>d_data16 = 6, d_idx = 3\<rparr>, \<lparr>d_data16 = 0x107, d_idx = 1\<rparr>]\<rparr> :: list_mem"
  have c: "chain (heads ?s) (Some 0) [0, 1, 2]" and i: "infos_in ?s [0, 1, 2]" by (simp_all add: infos_in_def)
  have d: "distinct [0, 1, 2 :: nat]" and ne: "[0, 1, 2 :: nat] \<noteq> []" by simp_all
  from mergesort_by_idx_sorts [OF c d ne i] obtain l s' where
    m: "core_list_mergesort (Some 0) (cmp_idx True) ?s = Some (l, s')"
      "chain (heads s') l (sort_key (\<lambda>x. sint (d_idx (datas ?s ! l_info (heads ?s ! x)))) [0, 1, 2])"
      "\<forall>x < length (heads ?s). l_info (heads s' ! x) = l_info (heads ?s ! x)"
      "1 < length [0, 1, 2 :: nat] \<longrightarrow>
         (\<forall>x \<in> set [0, 1, 2]. datas s' ! l_info (heads s' ! x) = regen (datas ?s ! l_info (heads ?s ! x)))"
    by (elim exE conjE) (rule that)
  have sorted: "sort_key (\<lambda>x. sint (d_idx (datas ?s ! l_info (heads ?s ! x)))) [0, 1, 2] = [1, 2, 0]" by simp
  have "l_info (heads s' ! 2) = 2" using m(3) [rule_format, of 2] by simp
  moreover have "datas s' ! l_info (heads s' ! 2) = regen \<lparr>d_data16 = 0x107, d_idx = 1\<rparr>"
    using m(4) by simp
  ultimately have "datas s' ! 2 = \<lparr>d_data16 = 0x101, d_idx = 1\<rparr>" by (simp add: regen_def)
  with m(1) m(2) [unfolded sorted] show ?thesis by blast
qed

text \<open>C13: Sorting by data terminates and is the stable sort by the seven-bit values the items have in the
  end; and all else it does to the results is to compute the value of each item of the list that had
  none cached exactly once, in some order (the item of a list of one is not compared): the state kernel, the matrix kernel or no kernel as the
  item's low bits say, run once on the argument in bits 3 to 6 and the running CRC, its result
  entered in the CRC and its low seven bits in the item, while values that were cached stay, and
  so do the upper bytes, from which the data is restored.\<close>

theorem mergesort_by_data_sorts:
  assumes "kernels_ok res" and "chain (heads res) list xs" and "distinct xs" and "xs \<noteq> []" and "infos_in res xs"
  shows "\<exists>list' res' as. core_list_mergesort list cmp_complex res = Some (list', res') \<and>
    chain (heads res') list' (sort_key (\<lambda>x. sint (d_data16 (datas res' ! l_info (heads res ! x)) AND 0x7f)) xs) \<and>
    distinct as \<and> computes as res (res'\<lparr>heads := heads res\<rparr>) \<and>
    set as \<subseteq> {l_info (heads res ! x) |x. x \<in> set xs \<and> \<not> cached res (l_info (heads res ! x))} \<and>
    (1 < length xs \<longrightarrow> set as = {l_info (heads res ! x) |x. x \<in> set xs \<and> \<not> cached res (l_info (heads res ! x))}) \<and>
    map regen (datas res') = map regen (datas res) \<and> same_input res res' \<and>
    (1 < length xs \<longrightarrow> (\<forall>x \<in> set xs. cached res' (l_info (heads res ! x)))) \<and>
    (\<forall>x \<in> set xs. cached res (l_info (heads res ! x)) \<longrightarrow>
       d_data16 (datas res' ! l_info (heads res ! x)) AND 0x7f = d_data16 (datas res ! l_info (heads res ! x)) AND 0x7f)"
proof -
  let ?items = "(\<lambda>x. l_info (heads res ! x)) ` set xs"
  have "data_good res res" using assms(1) by (simp add: data_good_def same_input_def)
  moreover have "res\<lparr>heads := heads res\<rparr> = res" by simp
  ultimately have good: "once res ?items res"
    unfolding once_def by (intro conjI exI [of _ "[]"]) (simp_all add: computes.intros(1))
  have inf: "\<forall>x \<in> set xs. item_in ?items res (l_info (heads res ! x))" using assms(5) by (simp add: item_in_def infos_in_def)
  from by_data_once.mergesort_ok [OF good assms(2-4) inf] obtain p' s' ys where
    m: "core_list_mergesort list cmp_complex res = Some (p', s')" "once res ?items s'" "by_data_once.later ?items res s'"
      "chain (heads s') p' ys" "ys = sort_key (\<lambda>x. sint (cached_value s' (l_info (heads res ! x)))) xs"
      "1 < length xs \<longrightarrow> (\<forall>x \<in> set xs. cached s' (l_info (heads res ! x)))" by blast
  from m(2) obtain as where as: "distinct as" "set as = {a. cached s' a \<and> \<not> cached res a}" "set as \<subseteq> ?items"
    "computes as res (s'\<lparr>heads := heads res\<rparr>)" and g: "data_good res s'" by (auto simp: once_def)
  have val: "cached_value s' a = cached_value res a" if "cached res a" for a
    using m(3) that by (metis by_data_once.later_def signed_word_eqI)
  have sub: "set as \<subseteq> {l_info (heads res ! x) |x. x \<in> set xs \<and> \<not> cached res (l_info (heads res ! x))}"
    using as(2,3) by blast
  have all: "set as = {l_info (heads res ! x) |x. x \<in> set xs \<and> \<not> cached res (l_info (heads res ! x))}"
    if "1 < length xs"
    using sub as(2) m(6) that by blast
  show ?thesis
    using m(1,4,6) as(1,4) sub all val g unfolding m(5) cached_value_def data_good_def by blast
qed

theorem mergesort_by_data_sorts_witness:
  "\<exists>list' res' as. core_list_mergesort (Some 0) cmp_complex sample_results = Some (list', res') \<and>
     distinct as \<and> set as = {2, 3} \<and> computes as sample_results (res'\<lparr>heads := heads sample_results\<rparr>) \<and>
     map regen (datas res') = map regen (datas sample_results) \<and> same_input sample_results res' \<and>
     cached res' 2 \<and> cached res' 3 \<and> d_data16 (datas res' ! 0) AND 0x7f = 0"
proof -
  let ?xs = "[0, 2, 3, 1 :: nat]" and ?i = "\<lambda>x. l_info (heads sample_results ! x)"
  have c: "chain (heads sample_results) (Some 0) ?xs" "infos_in sample_results ?xs" and d: "distinct ?xs" "?xs \<noteq> []"
    by (simp_all add: sample_results_def infos_in_def)
  from mergesort_by_data_sorts [OF sample_ready(2) c(1) d c(2)] obtain l r' as where
    m: "core_list_mergesort (Some 0) cmp_complex sample_results = Some (l, r')" "distinct as"
      "computes as sample_results (r'\<lparr>heads := heads sample_results\<rparr>)"
      "1 < length ?xs \<longrightarrow> set as = {?i x |x. x \<in> set ?xs \<and> \<not> cached sample_results (?i x)}"
      "map regen (datas r') = map regen (datas sample_results)" "same_input sample_results r'"
      "1 < length ?xs \<longrightarrow> (\<forall>x \<in> set ?xs. cached r' (?i x))"
      "\<forall>x \<in> set ?xs. cached sample_results (?i x) \<longrightarrow>
         d_data16 (datas r' ! ?i x) AND 0x7f = d_data16 (datas sample_results ! ?i x) AND 0x7f"
    by (elim exE conjE) (rule that)
  have i: "?i 0 = 0" "?i 1 = 1" "?i 2 = 3" "?i 3 = 2" by (simp_all add: sample_results_def)
  have k: "cached sample_results 0" "cached sample_results 1" "\<not> cached sample_results 2" "\<not> cached sample_results 3"
    by (simp_all add: cached_def sample_results_def)
  have "{?i x |x. x \<in> set ?xs \<and> \<not> cached sample_results (?i x)} = {2, 3}"
    using i k by auto
  then have "set as = {2, 3}" using m(4) by simp
  moreover have "cached r' 2" "cached r' 3" using m(7) i by simp_all
  moreover have "d_data16 (datas r' ! 0) AND 0x7f = d_data16 (datas sample_results ! 0) AND 0x7f"
    using m(8) i(1) k(1) by simp
  then have "d_data16 (datas r' ! 0) AND 0x7f = 0" by (simp add: sample_results_def)
  ultimately show ?thesis using m(1-3,5,6) by blast
qed

text \<open>C25: Removing an item unlinks the head after it, which takes over the removed data, and undoing the
  removal restores the memory exactly.\<close>

theorem remove_then_undo:
  assumes "x < length (heads s)" and "y < length (heads s)" and "x \<noteq> y" and "l_next (heads s ! x) = Some y"
  shows "\<exists>s'. core_list_remove (Some x) s = Some (Some y, s') \<and>
    l_next (heads s' ! x) = l_next (heads s ! y) \<and> l_info (heads s' ! x) = l_info (heads s ! y) \<and>
    l_info (heads s' ! y) = l_info (heads s ! x) \<and> l_next (heads s' ! y) = None \<and>
    core_list_undo_remove (Some y) (Some x) s' = Some (Some y, s)"
proof -
  from remove_undo_ok [OF assms] obtain h where
    h: "core_list_remove (Some x) s = Some (Some y, s\<lparr>heads := h\<rparr>)"
      "core_list_undo_remove (Some y) (Some x) (s\<lparr>heads := h\<rparr>) = Some (Some y, s)"
      "h = (heads s)[x := \<lparr>l_next = l_next (heads s ! y), l_info = l_info (heads s ! y)\<rparr>,
                    y := \<lparr>l_next = None, l_info = l_info (heads s ! x)\<rparr>]" by blast
  have "l_next (h ! x) = l_next (heads s ! y)" "l_info (h ! x) = l_info (heads s ! y)"
    "l_info (h ! y) = l_info (heads s ! x)" "l_next (h ! y) = None"
    unfolding h(3) using assms(1-3) by simp_all
  then show ?thesis by (intro exI [of _ "s\<lparr>heads := h\<rparr>"]) (simp add: h(1,2))
qed

theorem remove_then_undo_witness:
  "\<exists>s'. core_list_remove (Some 2) sample_results = Some (Some 3, s') \<and> l_info (heads s' ! 2) = 2 \<and>
     core_list_undo_remove (Some 3) (Some 2) s' = Some (Some 3, sample_results)"
proof -
  have "2 < length (heads sample_results)" "3 < length (heads sample_results)" "l_next (heads sample_results ! 2) = Some 3"
    "l_info (heads sample_results ! 3) = 2"
    by (simp_all add: sample_results_def)
  from remove_then_undo [OF this(1,2) _ this(3)] this(4) show ?thesis by auto
qed

text \<open>C26: Reversing a list visits the same heads in the opposite order and changes nothing but their
  \<open>next\<close> fields.\<close>

theorem core_list_reverse_reverses:
  assumes "chain (heads s) list xs" and "distinct xs"
  shows "\<exists>list' h. core_list_reverse list s = Some (list', s\<lparr>heads := h\<rparr>) \<and> chain h list' (rev xs) \<and>
    length h = length (heads s) \<and> (\<forall>x. l_info (h ! x) = l_info (heads s ! x)) \<and>
    (\<forall>x. x \<notin> set xs \<longrightarrow> h ! x = heads s ! x)"
  using reverse_loop_ok [OF assms(1), of None "[]"] assms(2) by (simp add: core_list_reverse_def)

theorem core_list_reverse_reverses_witness:
  "\<exists>list' h. core_list_reverse (Some 0) sample_results = Some (list', sample_results\<lparr>heads := h\<rparr>) \<and>
     chain h list' [1, 3, 2, 0]"
proof -
  have "chain (heads sample_results) (Some 0) [0, 2, 3, 1]" "distinct [0, 2, 3, 1 :: nat]"
    by (simp_all add: sample_results_def)
  from core_list_reverse_reverses [OF this] show ?thesis by auto
qed

text \<open>The search returns the first item that matches, by index when the key's index is not negative
  and else by the low byte of the data, and a null pointer when none does.\<close>

theorem core_list_find_first:
  assumes "chain (heads s) list xs" and "infos_in s xs"
  shows "core_list_find list key s =
    Some (List.find (\<lambda>x. if 0 \<le> sint (d_idx key)
                      then d_idx (datas s ! l_info (heads s ! x)) = d_idx key
                      else d_data16 (datas s ! l_info (heads s ! x)) AND 0xff = d_data16 key) xs)"
  by (rule core_list_find_ok [OF assms])

theorem core_list_find_first_witness:
  "core_list_find (Some 0) \<lparr>d_data16 = 0, d_idx = 2\<rparr> sample_results = Some (Some 3) \<and>
   core_list_find (Some 0) \<lparr>d_data16 = 0xff, d_idx = - 1\<rparr> sample_results = Some (Some 1)"
proof -
  have "chain (heads sample_results) (Some 0) [0, 2, 3, 1]" "infos_in sample_results [0, 2, 3, 1]"
    by (simp_all add: sample_results_def infos_in_def)
  note find = core_list_find_first [OF this]
  show ?thesis unfolding find by (simp add: sample_results_def)
qed

text \<open>C36: The loops whose comments say they take the CRC of the data content of the list read the first
  item only: the result is the CRC step of its data, iterated once for each head from the finder on.\<close>

theorem list_crc_reads_first_only:
  assumes "chain (heads s) finder xs" and "list < length (heads s)" and "l_info (heads s ! list) < length (datas s)"
  shows "crc_loop finder (Some list) retval s =
    Some ((crc16 (d_data16 (datas s ! l_info (heads s ! list))) ^^ length xs) retval)"
  by (rule crc_loop_ok [OF assms(1)]) (use assms(2,3) in simp)

theorem list_crc_reads_first_only_witness:
  "crc_loop (Some 2) (Some 0) 0 sample_results = Some ((crc16 0x8080 ^^ 3) 0)"
proof -
  have "chain (heads sample_results) (Some 2) [2, 3, 1]" "0 < length (heads sample_results)"
    "l_info (heads sample_results ! 0) < length (datas sample_results)"
    by (simp_all add: sample_results_def)
  from list_crc_reads_first_only [OF this, of 0] show ?thesis by (simp add: sample_results_def numeral_3_eq_3)
qed

text \<open>On an empty list the merge sort follows a null pointer, although its comment allows for the
  empty list: the tail of the merged list is cut off before the number of merges is looked at.\<close>

theorem mergesort_empty_list_faults:
  "core_list_mergesort None cmp s = None"
  by (simp add: core_list_mergesort_def sort_loop.simps pass_loop.simps set_next_def upd_head_def)

end
