(* ===== verification/CoreMark_Init.thy ===== *)
theory CoreMark_Init
  imports CoreMark_ListOk
begin

text \<open>
  \<open>core_list_init\<close> builds the list the list kernel needs: every head and data item it writes is inside
  the block, and the result is the list of all items in index order.
\<close>

section \<open>Insertion\<close>

text \<open>The data the insertion loop gives to the item in the \<open>x\<close>th place of the block.\<close>

definition inserted_data :: "s16 \<Rightarrow> nat \<Rightarrow> list_data" where
  "inserted_data seed x =
     (if x = 0 then \<lparr>d_data16 = 0x8080, d_idx = 0\<rparr>
      else if x = 1 then \<lparr>d_data16 = 0xffff, d_idx = 0x7fff\<rparr>
      else \<lparr>d_data16 = item_data seed (x - 2), d_idx = 0x7fff\<rparr>)"

text \<open>The first \<open>m + 1\<close> places are in use: the head, and behind it the items, the newest first.\<close>

definition built :: "s16 \<Rightarrow> nat \<Rightarrow> nat \<Rightarrow> 'a list_mem_scheme \<Rightarrow> 'a list_mem_scheme \<Rightarrow> bool" where
  "built seed n m s0 s \<longleftrightarrow>
     n \<le> length (heads s) \<and> n \<le> length (datas s) \<and> m < n \<and> list_mem.more s = list_mem.more s0 \<and>
     chain (heads s) (Some 0) (0 # rev [1..<Suc m]) \<and>
     (\<forall>x \<le> m. l_info (heads s ! x) = x \<and> datas s ! x = inserted_data seed x)"

lemma copy_info_ok: "a < length (datas s) \<Longrightarrow> copy_info a d s = Some (s\<lparr>datas := (datas s)[a := d]\<rparr>)"
  by (cases "datas s ! a"; cases d) (simp add: copy_info_def rd_wr_simps)

lemma insert_new_ok:
  assumes "built seed n m s0 s" and "key = inserted_data seed (Suc m)"
  shows "\<exists>s' e. core_list_insert_new (Some 0) key (Suc m) (Suc m) n n s =
      Some (e, (if Suc m + 1 < n then Suc (Suc m) else Suc m), (if Suc m + 1 < n then Suc (Suc m) else Suc m), s') \<and>
    built seed n (if Suc m + 1 < n then Suc m else m) s0 s'"
proof (cases "Suc m + 1 < n")
  case False
  then show ?thesis using assms(1) by (simp add: core_list_insert_new_def)
next
  case True
  note b = assms(1) [unfolded built_def]
  let ?h = "(heads s)[Suc m := \<lparr>l_next = l_next (heads s ! 0), l_info = Suc m\<rparr>, 0 := (heads s ! 0)\<lparr>l_next := Some (Suc m)\<rparr>]"
  let ?s = "s\<lparr>heads := ?h, datas := (datas s)[Suc m := key]\<rparr>"
  have len: "Suc m < length (heads s)" "Suc m < length (datas s)" "heads s \<noteq> []" using b True by auto
  have ins: "core_list_insert_new (Some 0) key (Suc m) (Suc m) n n s = Some (Some (Suc m), Suc (Suc m), Suc (Suc m), ?s)"
    using True len
    by (cases "heads s ! Suc m") (simp add: core_list_insert_new_def Let_def copy_info_ok list_update_swap [of 0 "Suc m"])
  have "chain ?h (Some 0) (0 # Suc m # rev [1..<Suc m])"
    using b len by (simp add: path_update)
  moreover have "[1..<Suc (Suc m)] = [1..<Suc m] @ [Suc m]" by simp
  ultimately have "chain ?h (Some 0) (0 # rev [1..<Suc (Suc m)])" by (simp only: rev_append rev.simps append.simps)
  then have "built seed n (Suc m) s0 ?s"
    using b True assms(2) by (auto simp: built_def nth_list_update le_Suc_eq)
  with ins True show ?thesis by auto
qed

lemma insert_loop_ok:
  assumes "built seed n 1 s0 s" and "3 \<le> n"
  shows "\<exists>mb s'. for_each [0..<n] (insert_round seed (Some 0) n n) (if 2 < n then 2 else 1, if 2 < n then 2 else 1, s) =
      Some (mb, mb, s') \<and> built seed n (n - 2) s0 s'"
proof -
  let ?m = "\<lambda>k. min (Suc k) (n - 2)"
  let ?P = "\<lambda>k (st :: nat \<times> nat \<times> 'a list_mem_scheme). fst st = Suc (?m k) \<and> fst (snd st) = Suc (?m k) \<and> built seed n (?m k) s0 (snd (snd st))"
  have "\<exists>st'. insert_round seed (Some 0) n n k st = Some st' \<and> ?P (Suc k) st'" if "?P k st" for k st
  proof -
    note P = that
    obtain s where st: "st = (Suc (?m k), Suc (?m k), s)" and b: "built seed n (?m k) s0 s"
      using P by (metis prod.collapse)
    show ?thesis
    proof (cases "Suc k < n - 2")
      case True
      then have "\<lparr>d_data16 = item_data seed k, d_idx = 0x7fff\<rparr> = inserted_data seed (Suc (?m k))"
        by (simp add: inserted_data_def)
      from insert_new_ok [OF b this] True show ?thesis
        by (auto simp: insert_round_def st min_def)
    next
      case False
      then have "?m k = n - 2" "?m (Suc k) = n - 2" "n \<le> Suc (Suc (n - 2))" by simp_all
      with b assms(2) show ?thesis
        by (simp add: insert_round_def st core_list_insert_new_def)
    qed
  qed
  moreover have "?P 0 (if 2 < n then 2 else 1, if 2 < n then 2 else 1, s)" using assms by (simp add: min_def)
  ultimately have "\<exists>st. for_each [0..<n] (insert_round seed (Some 0) n n) (if 2 < n then 2 else 1, if 2 < n then 2 else 1, s) = Some st \<and> ?P n st"
    by (intro for_each_invar [where P = ?P]) blast+
  moreover have "?m n = n - 2" by simp
  ultimately show ?thesis by auto
qed

section \<open>Indexing\<close>

text \<open>Every item but the last gets its index; the items' places are those of their heads.\<close>

lemma index_loop_ok:
  assumes "chain (heads s) finder ys" and "ys \<noteq> []" and "distinct ys"
    and "\<And>y. y \<in> set ys \<Longrightarrow> l_info (heads s ! y) = y \<and> y < length (datas s)"
  shows "\<exists>ds. index_loop seed size' i finder s = Some (s\<lparr>datas := ds\<rparr>) \<and> length ds = length (datas s) \<and>
    (\<forall>x. ds ! x = (if x \<in> set (butlast ys)
       then (datas s ! x)\<lparr>d_idx := item_idx seed size' (i + of_nat (length (takeWhile (\<lambda>y. y \<noteq> x) ys)))\<rparr> else datas s ! x))"
  using assms
proof (induction ys arbitrary: finder i s)
  case (Cons y ys)
  then have y: "finder = Some y" "y < length (heads s)" "chain (heads s) (l_next (heads s ! y)) ys"
    "l_info (heads s ! y) = y" "y < length (datas s)" "y \<notin> set ys" "distinct ys" by simp_all
  show ?case
  proof (cases ys)
    case Nil
    with y show ?thesis by (subst index_loop.simps) (auto intro!: exI [of _ "datas s"])
  next
    case (Cons z zs)
    let ?s = "s\<lparr>datas := (datas s)[y := (datas s ! y)\<lparr>d_idx := item_idx seed size' i\<rparr>]\<rparr>"
    have "chain (heads ?s) (l_next (heads s ! y)) ys" using y(3) by simp
    from Cons.IH [OF this _ y(7), of "i + 1"] Cons.prems(4) Cons obtain ds where
      d: "index_loop seed size' (i + 1) (l_next (heads s ! y)) ?s = Some (?s\<lparr>datas := ds\<rparr>)" "length ds = length (datas s)"
        "\<And>x. ds ! x = (if x \<in> set (butlast ys)
           then (datas ?s ! x)\<lparr>d_idx := item_idx seed size' (i + 1 + of_nat (length (takeWhile (\<lambda>y. y \<noteq> x) ys)))\<rparr> else datas ?s ! x)"
      by auto
    have "index_loop seed size' i finder s = Some (s\<lparr>datas := ds\<rparr>)"
      using d(1) y Cons by (subst index_loop.simps) (simp add: rd_wr_simps)
    moreover have "ds ! x = (if x \<in> set (butlast (y # ys))
       then (datas s ! x)\<lparr>d_idx := item_idx seed size' (i + of_nat (length (takeWhile (\<lambda>z. z \<noteq> x) (y # ys))))\<rparr> else datas s ! x)" for x
      using d(3) [of x] y(5,6) Cons by (auto simp: add.assoc dest: in_set_butlastD)
    ultimately show ?thesis using d(2) by blast
  qed
qed simp

section \<open>The list\<close>

text \<open>The data of the item in the \<open>x\<close>th of the \<open>n - 1\<close> places in use, once it has its index.\<close>

definition init_item :: "s16 \<Rightarrow> u32 \<Rightarrow> nat \<Rightarrow> list_data" where
  "init_item seed size' x =
     (if x < 2 then inserted_data seed x
      else (inserted_data seed x)\<lparr>d_idx := item_idx seed size' (of_nat (unat size' - 1 - x))\<rparr>)"

definition init_order :: "s16 \<Rightarrow> u32 \<Rightarrow> nat list" where
  "init_order seed size' =
     sort_key (\<lambda>x. sint (d_idx (init_item seed size' x))) (0 # rev [1..<unat size' - 1])"

lemma insort_key_cong: "(\<And>y. y \<in> insert x (set ys) \<Longrightarrow> f y = g y) \<Longrightarrow> insort_key f x ys = insort_key g x ys"
  by (induction ys) auto

lemma sort_key_cong: "(\<And>x. x \<in> set xs \<Longrightarrow> f x = g x) \<Longrightarrow> sort_key f xs = sort_key g xs"
proof (induction xs)
  case (Cons x xs)
  then have "insort_key f x (sort_key g xs) = insort_key g x (sort_key g xs)"
    by (intro insort_key_cong) auto
  with Cons show ?case by simp
qed simp

lemma regen_item_data: "regen (d\<lparr>d_data16 := item_data seed i\<rparr>) = d\<lparr>d_data16 := item_data seed i\<rparr>"
proof -
  let ?dat = "push_bit 3 (ucast (scast seed XOR of_nat i :: u32) AND 0xf :: u16) OR (ucast (of_nat i :: u32) AND 0x7)"
  have m: "(0xf :: u16) = mask 4" "(0x7 :: u16) = mask 3" by (simp_all add: mask_eq_exp_minus_1)
  have "(item_data seed i AND 0xff00) OR (0xff AND signed_drop_bit 8 (item_data seed i)) = item_data seed i"
    unfolding item_data_def Let_def byte_masks m
    by (rule bit_word_eqI) (simp only: cache_bits bit_mask_iff, auto simp: bit_simps)
  then show ?thesis by (simp add: regen_def)
qed

lemma regen_init_item: "regen (init_item seed size' x) = init_item seed size' x"
proof -
  have "regen (d\<lparr>d_idx := a\<rparr>) = (regen d)\<lparr>d_idx := a\<rparr>" for d and a by (simp add: regen_def)
  moreover have "regen (inserted_data seed x) = inserted_data seed x"
    using regen_item_data [where d = "\<lparr>d_data16 = 0, d_idx = 0x7fff\<rparr>"] by (simp add: inserted_data_def regen_def)
  ultimately show ?thesis by (simp add: init_item_def)
qed

lemma position_rev_upt: "0 < x \<Longrightarrow> x \<le> m \<Longrightarrow> length (takeWhile (\<lambda>y. y \<noteq> x) (rev [1..<Suc m])) = m - x"
proof (induction m)
  case (Suc m)
  have "[1..<Suc (Suc m)] = [1..<Suc m] @ [Suc m]" by simp
  then have r: "rev [1..<Suc (Suc m)] = Suc m # rev [1..<Suc m]" by (simp only: rev_append rev.simps append.simps)
  show ?case unfolding r using Suc by (cases "x = Suc m") (auto simp del: upt_Suc)
qed simp

lemma butlast_rev_upt: "set (butlast (rev [1..<Suc m])) = {2..m}"
proof (cases "m = 0")
  case False
  then have "rev [1..<Suc m] = rev [2..<Suc m] @ [1]" by (simp add: upt_conv_Cons numeral_2_eq_2 del: upt_Suc)
  then show ?thesis by (auto simp del: upt_Suc)
qed simp

lemma core_list_init_ok:
  assumes n: "n = unat (blksize div 20 - 2)" and "3 \<le> n" and "n \<le> length (heads s)" and "n \<le> length (datas s)"
  shows "\<exists>p s'. core_list_init blksize seed s = Some (p, s') \<and> list_mem.more s' = list_mem.more s \<and>
    chain (heads s') p (init_order seed (blksize div 20 - 2)) \<and> n \<le> length (datas s') \<and>
    (\<forall>x < n - 1. l_info (heads s' ! x) = x \<and> datas s' ! x = init_item seed (blksize div 20 - 2) x)"
proof -
  let ?sz = "blksize div 20 - 2"
  let ?d0 = "(datas s ! 0)\<lparr>d_idx := 0, d_data16 := 0x8080\<rparr>"
  let ?h0 = "(heads s)[0 := (heads s ! 0)\<lparr>l_next := None, l_info := 0\<rparr>]"
  let ?s0 = "s\<lparr>heads := ?h0, datas := (datas s)[0 := ?d0]\<rparr>"
  have ne: "heads s \<noteq> []" "datas s \<noteq> []" using assms(2-4) by auto
  have d0: "?d0 = inserted_data seed 0" by (cases "datas s ! 0") (simp add: inserted_data_def)
  have b0: "built seed n 0 s ?s0"
    using assms(2-4) ne d0 by (auto simp: built_def path_update)
  have key: "\<lparr>d_data16 = 0xffff, d_idx = 0x7fff\<rparr> = inserted_data seed (Suc 0)" by (simp add: inserted_data_def)
  from insert_new_ok [OF b0 key] assms(2) obtain s1 e where
    s1: "core_list_insert_new (Some 0) \<lparr>d_data16 = 0xffff, d_idx = 0x7fff\<rparr> 1 1 n n ?s0 = Some (e, 2, 2, s1)"
      "built seed n 1 s s1" by (auto simp: numeral_2_eq_2)
  from insert_loop_ok [OF s1(2) assms(2)] assms(2) obtain mb s2 where
    s2: "for_each [0..<n] (insert_round seed (Some 0) n n) (2, 2, s1) = Some (mb, mb, s2)" "built seed n (n - 2) s s2"
    by auto
  let ?ys = "rev [1..<Suc (n - 2)]"
  have c: "chain (heads s2) (Some 0) (0 # ?ys)" "n \<le> length (datas s2)" "n \<le> length (heads s2)"
    "list_mem.more s2 = list_mem.more s"
    "\<And>x. x \<le> n - 2 \<Longrightarrow> l_info (heads s2 ! x) = x \<and> datas s2 ! x = inserted_data seed x"
    using s2(2) by (auto simp: built_def)
  have ys: "chain (heads s2) (l_next (heads s2 ! 0)) ?ys" "next_of (Some 0) s2 = Some (l_next (heads s2 ! 0))"
    "?ys \<noteq> []" "distinct ?ys" using c(1) assms(2) by auto
  have info: "l_info (heads s2 ! y) = y \<and> y < length (datas s2)" if "y \<in> set ?ys" for y
    using that c(2,5) assms(2) by auto
  from index_loop_ok [OF ys(1,3,4) info, of seed ?sz 1] obtain ds where
    s3: "index_loop seed ?sz 1 (l_next (heads s2 ! 0)) s2 = Some (s2\<lparr>datas := ds\<rparr>)" "length ds = length (datas s2)"
      "\<And>x. ds ! x = (if x \<in> set (butlast ?ys)
         then (datas s2 ! x)\<lparr>d_idx := item_idx seed ?sz (1 + of_nat (length (takeWhile (\<lambda>y. y \<noteq> x) ?ys)))\<rparr> else datas s2 ! x)"
    by blast
  have item: "ds ! x = init_item seed ?sz x" if "x < n - 1" for x
  proof (cases "x < 2")
    case True
    then have "x \<notin> set (butlast ?ys)" unfolding butlast_rev_upt by simp
    with True s3(3) [of x] c(5) [of x] that show ?thesis by (simp add: init_item_def del: upt_Suc)
  next
    case False
    then have b: "x \<in> set (butlast ?ys)" unfolding butlast_rev_upt using that by simp
    from False that have "Suc (length (takeWhile (\<lambda>y. y \<noteq> x) ?ys)) = n - 1 - x"
      using position_rev_upt [of x "n - 2"] by (simp del: upt_Suc)
    then have "1 + of_nat (length (takeWhile (\<lambda>y. y \<noteq> x) ?ys)) = (of_nat (n - 1 - x) :: u32)"
      by (metis of_nat_Suc)
    with s3(3) [of x] b have "ds ! x = (datas s2 ! x)\<lparr>d_idx := item_idx seed ?sz (of_nat (n - 1 - x))\<rparr>"
      by (simp only: if_True)
    then show ?thesis using False c(5) [of x] that by (simp add: init_item_def flip: n)
  qed
  let ?s3 = "s2\<lparr>datas := ds\<rparr>"
  have inf: "infos_in ?s3 (0 # ?ys)" and ch: "chain (heads ?s3) (Some 0) (0 # ?ys)" and d: "distinct (0 # ?ys)"
    using c(1,2,5) s3(2) assms(2) by (auto simp: infos_in_def)
  from idx_sort_ok [OF ch d _ inf] obtain p s4 where
    s4: "core_list_mergesort (Some 0) (cmp_idx True) ?s3 = Some (p, s4)" "list_mem.more s4 = list_mem.more s"
      "length (datas s4) = length ds"
      "chain (heads s4) p (sort_key (\<lambda>x. sint (d_idx (item_at ?s3 x))) (0 # ?ys))"
      "\<forall>x < length (heads s2). l_info (heads s4 ! x) = l_info (heads s2 ! x)"
      "\<forall>x \<in> set (0 # ?ys). item_at s4 x = regen (item_at ?s3 x)"
    using c(4) ys(3) by auto
  have set: "x \<in> set (0 # ?ys) \<longleftrightarrow> x < n - 1" for x using assms(2) by auto
  have it3: "item_at ?s3 x = init_item seed ?sz x" if "x < n - 1" for x using that c(5) [of x] item by auto
  have "sort_key (\<lambda>x. sint (d_idx (item_at ?s3 x))) (0 # ?ys) = init_order seed ?sz"
  proof -
    have "Suc (n - 2) = n - 1" using assms(2) by simp
    then show ?thesis
      unfolding init_order_def n [symmetric] by (simp only:) (rule sort_key_cong, use set it3 in auto)
  qed
  moreover have "l_info (heads s4 ! x) = x \<and> datas s4 ! x = init_item seed ?sz x" if "x < n - 1" for x
  proof -
    have i: "l_info (heads s4 ! x) = x" using that s4(5) c(3,5) by simp
    have "x \<in> set (0 # ?ys)" using set that by blast
    with s4(6) have "item_at s4 x = regen (item_at ?s3 x)" by blast
    then show ?thesis using i it3 [OF that] by (simp add: regen_init_item)
  qed
  moreover have "core_list_init blksize seed s = Some (p, s4)"
    using ne s1(1) s2(1) s3(1) s4(1) ys(2)
    by (simp add: core_list_init_def Let_def rd_wr_simps flip: n)
  ultimately show ?thesis using s4(2-4) s3(2) c(2) by auto
qed

section \<open>Properties\<close>

text \<open>C11: Building the list succeeds for every part of at least 100 bytes: no access leaves the places for
  the heads and the data, and the list returned holds the head, the tail and all items in between,
  the items with the data and the index of their place, stably sorted by index.\<close>

theorem core_list_init_builds:
  assumes "n = unat (blksize div 20 - 2)" and "3 \<le> n" and "n \<le> length (heads s)" and "n \<le> length (datas s)"
  shows "\<exists>list s'. core_list_init blksize seed s = Some (list, s') \<and>
    chain (heads s') list (sort_key (\<lambda>x. sint (d_idx (init_item seed (blksize div 20 - 2) x))) (0 # rev [1..<n - 1])) \<and>
    (\<forall>x < n - 1. l_info (heads s' ! x) = x \<and> datas s' ! x = init_item seed (blksize div 20 - 2) x)"
  using core_list_init_ok [OF assms, of seed] unfolding init_order_def assms(1) by blast

theorem core_list_init_builds_witness:
  "\<exists>list s'. core_list_init 140 8 \<lparr>heads = replicate 5 \<lparr>l_next = None, l_info = 0\<rparr>,
       datas = replicate 5 \<lparr>d_data16 = 0, d_idx = 0\<rparr>\<rparr> = Some (list, s') \<and>
     chain (heads s') list [0, 3, 2, 1]"
proof -
  let ?s = "\<lparr>heads = replicate 5 \<lparr>l_next = None, l_info = 0\<rparr>, datas = replicate 5 \<lparr>d_data16 = 0, d_idx = 0\<rparr>\<rparr> :: list_mem"
  have n: "5 = unat ((140 :: u32) div 20 - 2)" "(3 :: nat) \<le> 5" "5 \<le> length (heads ?s)" "5 \<le> length (datas ?s)" by simp_all
  have "sort_key (\<lambda>x. sint (d_idx (init_item 8 (140 div 20 - 2) x))) (0 # rev [1..<5 - 1]) = [0, 3, 2, 1]" by code_simp
  with core_list_init_builds [OF n, of 8] show ?thesis by metis
qed

end
