(* ===== verification/CoreMark_Main.thy ===== *)
theory CoreMark_Main
  imports CoreMark_Init CoreMark_Util
begin

text \<open>
  CoreMark's main program (\<open>coremark/core_main.c\<close>) in the configuration of the posix port: seeds from
  the command line, one context, memory from \<open>malloc\<close>. The timer and the address of the block are
  parameters. The contents of the fresh block are arbitrary; its three parts are the arrays the
  kernels see in it. One block of memory is shared out among the parts, so that separate arrays
  describe it only while every kernel stays in its own part: the list and state kernels check their
  part's size, and where the product matrix would end behind the matrix part (which it can, see
  \<open>CoreMark_Matrix\<close>) the set-up is \<open>None\<close>, like an access outside an array. The lines that only
  print numbers of the report are left out.
\<close>

section \<open>Iterations\<close>

definition iterate_round :: "nat \<Rightarrow> core_results \<Rightarrow> core_results option" where
  "iterate_round i res = do {
     (crc, res) \<leftarrow> core_bench_list res 1;
     let res = res\<lparr>r_crc := crcu16 crc (r_crc res)\<rparr>;
     (crc, res) \<leftarrow> core_bench_list res (- 1);
     let res = res\<lparr>r_crc := crcu16 crc (r_crc res)\<rparr>;
     Some (if i = 0 then res\<lparr>r_crclist := r_crc res\<rparr> else res)
   }"

definition iterate :: "core_results \<Rightarrow> core_results option" where
  "iterate res =
     for_each [0..<unat (r_iterations res)] iterate_round
       (res\<lparr>r_crc := 0, r_crclist := 0, r_crcmatrix := 0, r_crcstate := 0\<rparr>)"

section \<open>Parameters\<close>

definition ALL_ALGORITHMS_MASK :: u32 where
  "ALL_ALGORITHMS_MASK = 1 OR push_bit 1 1 OR push_bit 2 1"

definition NUM_ALGORITHMS :: nat where
  "NUM_ALGORITHMS = 3"

definition TOTAL_DATA_SIZE :: u32 where
  "TOTAL_DATA_SIZE = 2 * 1000"

definition has_algorithm :: "u32 \<Rightarrow> nat \<Rightarrow> bool" where
  "has_algorithm execs i \<longleftrightarrow> push_bit i 1 AND execs \<noteq> 0"

text \<open>The default values based on one seed only.\<close>

definition default_seeds :: "core_results \<Rightarrow> core_results" where
  "default_seeds res =
     (let res = (if r_seed1 res = 0 \<and> r_seed2 res = 0 \<and> r_seed3 res = 0
                 then res\<lparr>r_seed1 := 0, r_seed2 := 0, r_seed3 := 0x66\<rparr> else res)
      in if r_seed1 res = 1 \<and> r_seed2 res = 0 \<and> r_seed3 res = 0
         then res\<lparr>r_seed1 := 0x3415, r_seed2 := 0x3415, r_seed3 := 0x66\<rparr> else res)"

definition read_params :: "string list \<Rightarrow> core_results \<Rightarrow> core_results" where
  "read_params argv res =
     (let res = res\<lparr>r_seed1 := ucast (get_seed_args 1 argv), r_seed2 := ucast (get_seed_args 2 argv),
                   r_seed3 := ucast (get_seed_args 3 argv), r_iterations := get_seed_args 4 argv,
                   r_execs := get_seed_args 5 argv\<rparr>;
          res = (if r_execs res = 0 then res\<lparr>r_execs := ALL_ALGORITHMS_MASK\<rparr> else res)
      in default_seeds res)"

text \<open>The size of the whole block; the seed the size can be given by is 16 bits wide.\<close>

definition block_size :: "string list \<Rightarrow> u32" where
  "block_size argv =
     (let malloc_override = scast (ucast (get_seed_args 7 argv) :: s16) :: s32
      in if malloc_override \<noteq> 0 then malloc_override else TOTAL_DATA_SIZE)"

definition count_algorithms :: "u32 \<Rightarrow> u16" where
  "count_algorithms execs = of_nat (length (filter (has_algorithm execs) [0..<NUM_ALGORITHMS]))"

text \<open>A division by zero is \<open>None\<close>.\<close>

definition split_size :: "core_results \<Rightarrow> core_results option" where
  "split_size res =
     (let num = count_algorithms (r_execs res)
      in if num = 0 then None else Some (res\<lparr>r_size := r_size res div ucast num\<rparr>))"

text \<open>The addresses of the parts, for the algorithms that are selected.\<close>

definition assign_blocks :: "u32 \<Rightarrow> 64 word \<Rightarrow> u32 \<Rightarrow> 64 word option list" where
  "assign_blocks execs base size' =
     fst (fold (\<lambda>i (bs, j). if has_algorithm execs i
                            then (bs @ [Some (base + ucast (size' * j))], j + 1) else (bs @ [None], j))
            [0..<NUM_ALGORITHMS] ([], 0))"

section \<open>Initialisation\<close>

text \<open>
  The matrices lie at the addresses \<open>core_init_matrix\<close> gives them; when the last of them ends behind the
  part of the block they are given, they overlap the part behind it and the result is \<open>None\<close>.
\<close>

definition call_inits ::
  "64 word option list \<Rightarrow> (nat \<Rightarrow> s16) \<Rightarrow> (nat \<Rightarrow> s16) \<Rightarrow> (nat \<Rightarrow> s32) \<Rightarrow> core_results \<Rightarrow> core_results option" where
  "call_inits blocks old_A old_B old_C res = do {
     res \<leftarrow> (if has_algorithm (r_execs res) 0
            then do {
              (p, res) \<leftarrow> core_list_init (r_size res) (r_seed1 res) res;
              Some (res\<lparr>r_list := p\<rparr>)
            }
            else Some res);
     res \<leftarrow> (if has_algorithm (r_execs res) 1
            then do {
              b \<leftarrow> blocks ! 1;
              (m, A_at, B_at, C_at) \<leftarrow> core_init_matrix (r_size res) b
                         (scast (r_seed1 res) OR push_bit 16 (scast (r_seed2 res))) old_A old_B old_C;
              if unat C_at + 4 * length (mat_C m) \<le> unat b + unat (r_size res)
              then Some (res\<lparr>r_mat := m\<rparr>) else None
            }
            else Some res);
     (if has_algorithm (r_execs res) 2
      then do {
        block \<leftarrow> core_init_state (r_size res) (r_seed1 res) (r_block res);
        Some (res\<lparr>r_block := block\<rparr>)
      }
      else Some res)
   }"

text \<open>
  Everything up to the timed run. The block is \<open>mem size\<close>, the results with the parts of a fresh block
  whose parts are \<open>size\<close> bytes long.
\<close>

definition core_setup ::
  "string list \<Rightarrow> 64 word \<Rightarrow> (u32 \<Rightarrow> core_results) \<Rightarrow> (nat \<Rightarrow> s16) \<Rightarrow> (nat \<Rightarrow> s16) \<Rightarrow> (nat \<Rightarrow> s32) \<Rightarrow> core_results option" where
  "core_setup argv base mem old_A old_B old_C = do {
     let size' = block_size argv;
     let num = count_algorithms (r_execs (read_params argv (mem 0)));
     res \<leftarrow> split_size ((read_params argv (mem (size' div ucast num)))\<lparr>r_size := size', r_err := 0\<rparr>);
     call_inits (assign_blocks (r_execs res) base (r_size res)) old_A old_B old_C res
   }"

section \<open>The number of iterations\<close>

text \<open>
  \<open>secs k\<close> is the whole seconds the \<open>k\<close>th measured run took: the timer is the platform's.
\<close>

partial_function (option) calibrate :: "(nat \<Rightarrow> nat) \<Rightarrow> nat \<Rightarrow> core_results \<Rightarrow> (nat \<times> core_results) option" where
  "calibrate secs k res = do {
     res \<leftarrow> iterate (res\<lparr>r_iterations := r_iterations res * 10\<rparr>);
     if secs k < 1 then calibrate secs (k + 1) res else Some (secs k, res)
   }"

declare calibrate.simps [code]

definition set_iterations :: "(nat \<Rightarrow> nat) \<Rightarrow> core_results \<Rightarrow> core_results option" where
  "set_iterations secs res =
     (if r_iterations res = 0
      then do {
        (passed, res) \<leftarrow> calibrate secs 0 (res\<lparr>r_iterations := 1\<rparr>);
        let divisor = of_nat passed;
        let divisor = (if divisor = 0 then 1 else divisor);
        Some (res\<lparr>r_iterations := r_iterations res * (1 + 10 div divisor)\<rparr>)
      }
      else Some res)"

section \<open>Validation\<close>

definition list_known_crc :: "u16 list" where
  "list_known_crc = [0xd4b0, 0x3340, 0x6a79, 0xe714, 0xe3c1]"

definition matrix_known_crc :: "u16 list" where
  "matrix_known_crc = [0xbe52, 0x1199, 0x5608, 0x1fd7, 0x0747]"

definition state_known_crc :: "u16 list" where
  "state_known_crc = [0x5e47, 0x39bf, 0xe5a4, 0x8e3a, 0x8d84]"

definition seed_crc :: "core_results \<Rightarrow> u16" where
  "seed_crc res =
     crc16 (ucast (r_size res)) (crc16 (r_seed3 res) (crc16 (r_seed2 res) (crc16 (r_seed1 res) 0)))"

text \<open>The run the seeds stand for, if known: its number and what is printed for it.\<close>

definition known_run :: "u16 \<Rightarrow> (nat \<times> string) option" where
  "known_run seedcrc =
     (if seedcrc = 0x8a02 then Some (0, ''6k performance run parameters for coremark.'')
      else if seedcrc = 0x7b05 then Some (1, ''6k validation run parameters for coremark.'')
      else if seedcrc = 0x4eaf then Some (2, ''Profile generation run parameters for coremark.'')
      else if seedcrc = 0xe9f5 then Some (3, ''2K performance run parameters for coremark.'')
      else if seedcrc = 0x18f2 then Some (4, ''2K validation run parameters for coremark.'')
      else None)"

definition check_crc ::
  "string \<Rightarrow> nat \<Rightarrow> (core_results \<Rightarrow> u16) \<Rightarrow> u16 \<Rightarrow> core_results \<times> string list \<Rightarrow> core_results \<times> string list" where
  "check_crc what i crc known r =
     (case r of (res, out) \<Rightarrow>
        if has_algorithm (r_execs res) i \<and> crc res \<noteq> known
        then (res\<lparr>r_err := r_err res + 1\<rparr>,
              out @ [''[0]ERROR! '' @ what @ '' crc 0x'' @ show_hex 4 (unat (crc res)) @ '' - should be 0x'' @
                     show_hex 4 (unat known)])
        else (res, out))"

definition check_results :: "nat \<Rightarrow> core_results \<times> string list \<Rightarrow> core_results \<times> string list" where
  "check_results known_id r =
     (case r of (res, out) \<Rightarrow>
        check_crc ''state'' 2 r_crcstate (state_known_crc ! known_id)
          (check_crc ''matrix'' 1 r_crcmatrix (matrix_known_crc ! known_id)
            (check_crc ''list'' 0 r_crclist (list_known_crc ! known_id) (res\<lparr>r_err := 0\<rparr>, out))))"

text \<open>The errors against the known results; \<open>-1\<close> for seeds that are not known.\<close>

definition known_errors :: "core_results \<Rightarrow> s16 \<times> core_results \<times> string list" where
  "known_errors res =
     (case known_run (seed_crc res) of
        None \<Rightarrow> (- 1, res, [])
      | Some (known_id, msg) \<Rightarrow>
          (case check_results known_id (res, [msg]) of (res, out) \<Rightarrow> (0 + r_err res, res, out)))"

text \<open>The rest of the errors, and the verdict; \<open>total_secs\<close> is the time of the timed run.\<close>

definition count_errors :: "port_sizes \<Rightarrow> nat \<Rightarrow> s16 \<Rightarrow> s16" where
  "count_errors z total_secs total_errors =
     (let total_errors = total_errors + ucast (fst (check_data_types z))
      in if total_secs < 10 then total_errors + 1 else total_errors)"

definition verdict :: "s16 \<Rightarrow> string list" where
  "verdict total_errors =
     (if total_errors = 0
      then [''Correct operation validated. See README.md for run and reporting rules.''] else []) @
     (if sint total_errors > 0 then [''Errors detected''] else []) @
     (if sint total_errors < 0
      then [''Cannot validate operation for these seed values, please compare with results on a known platform.'']
      else [])"

definition validate :: "port_sizes \<Rightarrow> nat \<Rightarrow> core_results \<Rightarrow> s16 \<times> core_results \<times> string list" where
  "validate z total_secs res =
     (case known_errors res of (total_errors, res, out) \<Rightarrow>
        let total_errors = count_errors z total_secs total_errors;
            out = out @ snd (check_data_types z) @
              (if total_secs < 10 then [''ERROR! Must execute for at least 10 secs for a valid result!''] else []) @
              verdict total_errors
        in (total_errors, res, out))"

text \<open>The size of a list head: two pointers. \<open>main\<close> returns with a message when it is too large.\<close>

definition sizeof_list_head :: nat where
  "sizeof_list_head = 2 * 8"

definition core_main ::
  "string list \<Rightarrow> 64 word \<Rightarrow> (u32 \<Rightarrow> core_results) \<Rightarrow> (nat \<Rightarrow> s16) \<Rightarrow> (nat \<Rightarrow> s16) \<Rightarrow> (nat \<Rightarrow> s32) \<Rightarrow>
     (nat \<Rightarrow> nat) \<Rightarrow> nat \<Rightarrow> port_sizes \<Rightarrow> (string + s16 \<times> core_results \<times> string list) option" where
  "core_main argv base mem old_A old_B old_C secs total_secs z =
     (if 128 < sizeof_list_head then Some (Inl ''list_head structure too big for comparable data!'')
      else do {
        res \<leftarrow> core_setup argv base mem old_A old_B old_C;
        res \<leftarrow> set_iterations secs res;
        res \<leftarrow> iterate res;
        Some (Inr (validate z total_secs res))
      })"

section \<open>The run\<close>

text \<open>The list of heads is \<open>xs\<close> and its data is that of \<open>r\<close>; the other kernels' inputs are those of \<open>r\<close>.\<close>

definition input_kept :: "core_results \<Rightarrow> nat list \<Rightarrow> core_results \<Rightarrow> bool" where
  "input_kept r xs s \<longleftrightarrow> list_ready s xs \<and> kernels_ok s \<and> same_input r s \<and>
     (\<forall>x \<in> set xs. l_info (heads s ! x) = l_info (heads r ! x) \<and> item_at s x = item_at r x)"

lemma same_input_trans: "same_input r s \<Longrightarrow> same_input s t \<Longrightarrow> same_input r t"
  by (simp add: same_input_def)

lemma input_kept_refl: "list_ready r xs \<Longrightarrow> kernels_ok r \<Longrightarrow> input_kept r xs r"
  by (simp add: input_kept_def same_input_def)

lemma input_kept_trans: "input_kept r xs s \<Longrightarrow> input_kept s xs t \<Longrightarrow> input_kept r xs t"
  unfolding input_kept_def using same_input_trans by (metis (no_types, lifting))

lemma input_kept_crcs [simp]:
  "input_kept r xs (s\<lparr>r_crc := a\<rparr>) = input_kept r xs s"
  "input_kept r xs (s\<lparr>r_crclist := a\<rparr>) = input_kept r xs s"
  "input_kept r xs (s\<lparr>r_crcmatrix := a\<rparr>) = input_kept r xs s"
  "input_kept r xs (s\<lparr>r_crcstate := a\<rparr>) = input_kept r xs s"
  by (simp_all add: input_kept_def list_ready_def kernels_ok_def same_input_def infos_in_def in_index_order_def)

lemma bench_list_keeps:
  assumes "input_kept r xs s"
  shows "\<exists>crc s'. core_bench_list s idx = Some (crc, s') \<and> input_kept r xs s'"
proof -
  have "list_ready s xs" "kernels_ok s" using assms by (simp_all add: input_kept_def)
  from core_bench_list_keeps [OF this, of idx] obtain crc s' where
    "core_bench_list s idx = Some (crc, s')" "input_kept s xs s'" by (auto simp: input_kept_def)
  with input_kept_trans [OF assms] show ?thesis by blast
qed

lemma iterate_round_keeps:
  assumes "input_kept r xs s"
  shows "\<exists>s'. iterate_round i s = Some s' \<and> input_kept r xs s'"
proof -
  from bench_list_keeps [OF assms, of 1] obtain c1 s1 where s1: "core_bench_list s 1 = Some (c1, s1)" "input_kept r xs s1" by blast
  then have "input_kept r xs (s1\<lparr>r_crc := crcu16 c1 (r_crc s1)\<rparr>)" by simp
  from bench_list_keeps [OF this, of "- 1"] obtain c2 s2 where
    s2: "core_bench_list (s1\<lparr>r_crc := crcu16 c1 (r_crc s1)\<rparr>) (- 1) = Some (c2, s2)" "input_kept r xs s2" by blast
  from s1(1) s2 show ?thesis by (simp add: iterate_round_def Let_def)
qed

lemma iterate_keeps:
  assumes "input_kept r xs s"
  shows "\<exists>s'. iterate s = Some s' \<and> input_kept r xs s'"
  unfolding iterate_def
  by (rule for_each_invar [where P = "\<lambda>_. input_kept r xs"]) (use assms iterate_round_keeps in auto)

lemma input_kept_iterations:
  "input_kept r xs s \<Longrightarrow> input_kept (r\<lparr>r_iterations := n\<rparr>) xs (s\<lparr>r_iterations := n\<rparr>)"
proof -
  have "list_ready (s\<lparr>r_iterations := n\<rparr>) xs = list_ready s xs" "kernels_ok (s\<lparr>r_iterations := n\<rparr>) = kernels_ok s"
    by (simp_all add: list_ready_def kernels_ok_def infos_in_def in_index_order_def)
  moreover have "same_input r s \<Longrightarrow> same_input (r\<lparr>r_iterations := n\<rparr>) (s\<lparr>r_iterations := n\<rparr>)"
    by (simp add: same_input_def)
  ultimately show "input_kept r xs s \<Longrightarrow> input_kept (r\<lparr>r_iterations := n\<rparr>) xs (s\<lparr>r_iterations := n\<rparr>)"
    unfolding input_kept_def by auto
qed

lemma calibrate_keeps:
  assumes "input_kept r xs s" and "\<exists>m. k \<le> m \<and> 1 \<le> secs m"
  shows "\<exists>t n s'. calibrate secs k s = Some (t, s') \<and> 1 \<le> t \<and> input_kept (r\<lparr>r_iterations := n\<rparr>) xs s'"
proof -
  from assms(2) obtain m where m: "k \<le> m" "1 \<le> secs m" by blast
  from m(1) assms(1) show ?thesis
  proof (induction k arbitrary: r s rule: inc_induct)
    case base
    from iterate_keeps [OF input_kept_iterations [OF base]] obtain s' where
      "iterate (s\<lparr>r_iterations := r_iterations s * 10\<rparr>) = Some s'"
      "input_kept (r\<lparr>r_iterations := r_iterations s * 10\<rparr>) xs s'" by blast
    with m(2) show ?case by (subst calibrate.simps) auto
  next
    case (step k)
    from iterate_keeps [OF input_kept_iterations [OF step.prems]] obtain s1 where
      s1: "iterate (s\<lparr>r_iterations := r_iterations s * 10\<rparr>) = Some s1"
      "input_kept (r\<lparr>r_iterations := r_iterations s * 10\<rparr>) xs s1" by blast
    show ?case
    proof (cases "secs k < 1")
      case True
      from step.IH [OF s1(2)] obtain t n s' where
        "calibrate secs (Suc k) s1 = Some (t, s')" "1 \<le> t" "input_kept (r\<lparr>r_iterations := n\<rparr>) xs s'" by auto
      with True s1(1) show ?thesis by (subst calibrate.simps) auto
    next
      case False
      with s1 show ?thesis by (subst calibrate.simps) auto
    qed
  qed
qed

lemma set_iterations_keeps:
  assumes "input_kept r xs s" and "r_iterations s = 0 \<Longrightarrow> \<exists>m. 1 \<le> secs m"
  shows "\<exists>n s'. set_iterations secs s = Some s' \<and> input_kept (r\<lparr>r_iterations := n\<rparr>) xs s'"
proof (cases "r_iterations s = 0")
  case False
  with assms(1) show ?thesis
    by (intro exI [of _ "r_iterations r"] exI [of _ s]) (simp add: set_iterations_def)
next
  case True
  with assms(2) have "\<exists>m. 0 \<le> m \<and> 1 \<le> secs m" by simp
  from calibrate_keeps [OF input_kept_iterations [OF assms(1), of 1] this] obtain t n s' where
    c: "calibrate secs 0 (s\<lparr>r_iterations := 1\<rparr>) = Some (t, s')" "input_kept (r\<lparr>r_iterations := n\<rparr>) xs s'" by auto
  from input_kept_iterations [OF c(2)] True c(1) show ?thesis
    by (simp add: set_iterations_def Let_def) (metis core_results.update_convs(6))
qed

section \<open>The set-up leaves valid inputs\<close>

text \<open>
  What the seed must satisfy for a part of \<open>size'\<close> bytes: it turns no byte of the state kernel's
  input into a comma, and the items of the list get different indices.
\<close>

definition seed_fits :: "s16 \<Rightarrow> u32 \<Rightarrow> bool" where
  "seed_fits seed size' \<longleftrightarrow>
     list_all (\<lambda>b. b = ch (CHR '','') \<or> b XOR ucast seed \<noteq> ch (CHR '','')) (0 # pattern_bytes) \<and>
     distinct (map (\<lambda>x. d_idx (init_item seed (size' div 20 - 2) x)) [0..<unat (size' div 20 - 2) - 1])"

lemma strict_sort_key:
  fixes K :: "'b \<Rightarrow> int"
  assumes "distinct (map K xs)"
  shows "sorted_wrt (\<lambda>x y. K x < K y) (sort_key K xs)"
proof -
  have "distinct (map K (sort_key K xs))"
    using assms by (metis distinct_map distinct_sort set_sort)
  moreover have "sorted (map K (sort_key K xs))" by simp
  ultimately have "sorted_wrt (<) (map K (sort_key K xs))" by (simp add: strict_sorted_iff)
  then show ?thesis by (simp add: sorted_wrt_map)
qed

lemma init_order_set:
  assumes "2 \<le> unat size'"
  shows "set (init_order seed size') = {..<unat size' - 1}" and "distinct (init_order seed size')"
    and "length (init_order seed size') = unat size' - 1"
  using assms unfolding init_order_def set_sort distinct_sort length_sort by auto

lemma list_part_ready:
  assumes n: "n = unat (r_size r div 20 - 2)" and "4 \<le> n" and "n \<le> length (heads r)" and "n \<le> length (datas r)"
    and "seed_fits (r_seed1 r) (r_size r)"
  shows "\<exists>p s. core_list_init (r_size r) (r_seed1 r) r = Some (p, s) \<and> list_mem.more s = list_mem.more r \<and>
    list_ready (s\<lparr>r_list := p\<rparr>) (init_order (r_seed1 r) (r_size r div 20 - 2))"
proof -
  let ?sz = "r_size r div 20 - 2" and ?o = "init_order (r_seed1 r) (r_size r div 20 - 2)"
  from core_list_init_ok [OF n _ assms(3,4), of "r_seed1 r"] assms(2) obtain p s where
    s: "core_list_init (r_size r) (r_seed1 r) r = Some (p, s)" "list_mem.more s = list_mem.more r"
      "chain (heads s) p ?o" "n \<le> length (datas s)"
      "\<And>x. x < n - 1 \<Longrightarrow> l_info (heads s ! x) = x \<and> datas s ! x = init_item (r_seed1 r) ?sz x" by auto
  have o: "set ?o = {..<n - 1}" "distinct ?o" "length ?o = n - 1"
    using init_order_set [of ?sz "r_seed1 r"] assms(2) by (simp_all flip: n)
  have item: "item_at s x = init_item (r_seed1 r) ?sz x" if "x \<in> set ?o" for x using s(5) [of x] that o(1) by simp
  let ?K = "\<lambda>x. sint (d_idx (init_item (r_seed1 r) ?sz x))"
  have "distinct (map ?K (0 # rev [1..<n - 1]))"
  proof -
    have "inj_on (\<lambda>x. d_idx (init_item (r_seed1 r) ?sz x)) {..<n - 1}"
      using assms(5) by (simp add: seed_fits_def distinct_map atLeast0LessThan flip: n)
    then have "inj_on ?K {..<n - 1}" by (auto simp: inj_on_def dest: signed_word_eqI)
    then show ?thesis unfolding distinct_map by (rule conjI [rotated, OF inj_on_subset]) (use assms(2) in auto)
  qed
  then have "sorted_wrt (\<lambda>x y. ?K x < ?K y) ?o" unfolding init_order_def n by (rule strict_sort_key)
  then have "sorted_wrt (\<lambda>x y. sint (d_idx (item_at s x)) < sint (d_idx (item_at s y))) ?o"
    by (rule sorted_wrt_mono_rel [rotated]) (simp only: item)
  then have "in_index_order (s\<lparr>r_list := p\<rparr>) ?o" by (simp add: in_index_order_def)
  moreover have "regen (item_at s x) = item_at s x" if "x \<in> set ?o" for x
    unfolding item [OF that] by (rule regen_init_item)
  moreover have "infos_in (s\<lparr>r_list := p\<rparr>) ?o" using s(4,5) o(1) by (auto simp: infos_in_def)
  ultimately have "list_ready (s\<lparr>r_list := p\<rparr>) ?o" using s(3) o(2,3) assms(2) by (simp add: list_ready_def)
  with s(1,2) show ?thesis by blast
qed

lemma init_size_bound: "unat (x :: u32) \<le> 2 ^ 31 \<Longrightarrow> unat x + 16 < 2 ^ 32"
  by simp

lemma list_ready_more:
  "list_ready (s\<lparr>r_mat := m\<rparr>) xs = list_ready s xs" "list_ready (s\<lparr>r_block := b\<rparr>) xs = list_ready s xs"
  by (simp_all add: list_ready_def infos_in_def in_index_order_def)

lemma more_fields:
  assumes "list_mem.more s = list_mem.more (r :: core_results)"
  shows "r_size s = r_size r" "r_seed1 s = r_seed1 r" "r_seed2 s = r_seed2 r" "r_block s = r_block r" "r_execs s = r_execs r"
  using assms by (cases s; cases r; simp)+

text \<open>
  The three matrices, whose first is at the next multiple of 4, end inside a part of \<open>sz\<close> bytes at \<open>b\<close>.
\<close>

definition holds_matrices :: "64 word \<Rightarrow> u32 \<Rightarrow> bool" where
  "holds_matrices b sz \<longleftrightarrow>
     (case matrix_dim sz 0 0 of
        None \<Rightarrow> False
      | Some N \<Rightarrow> (4 - unat b mod 4) mod 4 + 8 * (unat N * unat N) \<le> unat sz)"

lemma call_inits_ready:
  assumes n: "n = unat (r_size r div 20 - 2)" and "4 \<le> n" and "n \<le> length (heads r)" and "n \<le> length (datas r)"
    and execs: "\<And>i. i < 3 \<Longrightarrow> has_algorithm (r_execs r) i"
    and fit: "seed_fits (r_seed1 r) (r_size r)" and seeds: "(ucast (r_seed1 r) :: u8) = ucast (r_seed2 r)"
    and size: "2 \<le> unat (r_size r)" "unat (r_size r) \<le> 2 ^ 31" "length (r_block r) = unat (r_size r)"
    and b: "blocks ! 1 = Some b" "unat b + unat (r_size r) + 4 < 2 ^ 64" and part: "holds_matrices b (r_size r)"
  shows "\<exists>s. call_inits blocks old_A old_B old_C r = Some s \<and>
    list_ready s (init_order (r_seed1 r) (r_size r div 20 - 2)) \<and> kernels_ok s"
proof -
  let ?o = "init_order (r_seed1 r) (r_size r div 20 - 2)"
  from list_part_ready [OF n assms(2-4) fit] obtain p s where
    s: "core_list_init (r_size r) (r_seed1 r) r = Some (p, s)" "list_mem.more s = list_mem.more r"
      "list_ready (s\<lparr>r_list := p\<rparr>) ?o" by blast
  note more = more_fields [OF s(2)]
  have "0 < r_size r" using size(1) by (simp add: word_less_nat_alt)
  from core_init_matrix_ok [OF this size(2) b(2), of "scast (r_seed1 r) OR push_bit 16 (scast (r_seed2 r))" old_A old_B old_C]
  obtain m A_at B_at C_at where
    m: "core_init_matrix (r_size r) b (scast (r_seed1 r) OR push_bit 16 (scast (r_seed2 r))) old_A old_B old_C = Some (m, A_at, B_at, C_at)"
      "length (mat_A m) = unat (mat_N m) * unat (mat_N m)" "length (mat_B m) = unat (mat_N m) * unat (mat_N m)"
      "length (mat_C m) = unat (mat_N m) * unat (mat_N m)" "unat (mat_N m) < 2 ^ 14"
      "A_at = align_mem b" "unat B_at = unat A_at + 2 * (unat (mat_N m) * unat (mat_N m))"
      "unat C_at = unat B_at + 2 * (unat (mat_N m) * unat (mat_N m))"
    by (auto simp: Let_def)
  have "matrix_dim (r_size r) 0 0 = Some (mat_N m)"
    using m(1) by (auto simp: core_init_matrix_def Let_def split: bind_splits)
  then have past: "unat C_at + 4 * length (mat_C m) \<le> unat b + unat (r_size r)"
    using part m(4,6-8) b(2) align_mem_pad [of b] by (simp add: holds_matrices_def)
  have "unat (mat_N m) * unat (mat_N m) \<le> 2 ^ 14 * 2 ^ 14" using m(5) by (intro mult_le_mono) simp_all
  then have fits: "fits (mat_N m) (mat_A m)" "fits (mat_N m) (mat_B m)" "fits (mat_N m) (mat_C m)"
    using m(2-4) by (simp_all add: fits_def)
  from init_state_terminated [of "r_size r" "r_block r" "r_seed1 r"] size obtain blk where
    blk: "core_init_state (r_size r) (r_seed1 r) (r_block r) = Some blk" "length blk = length (r_block r)"
      "terminated (unat (r_size r)) blk" "set (take (unat (r_size r)) blk) \<subseteq> insert 0 (set pattern_bytes)"
    using init_size_bound [OF size(2)] by (metis order_refl)
  let ?s = "s\<lparr>r_list := p, r_mat := m, r_block := blk\<rparr>"
  have "\<forall>x \<in> set blk. x \<noteq> ch (CHR '','') \<longrightarrow> x XOR ucast (r_seed1 r) \<noteq> ch (CHR '','')"
    using blk(2,4) size(3) fit by (auto simp: seed_fits_def list_all_iff)
  then have "kernels_ok ?s" using blk(3) seeds fits more by (simp add: kernels_ok_def)
  moreover have "list_ready ?s ?o" using s(3) by (simp add: list_ready_more)
  moreover have "call_inits blocks old_A old_B old_C r = Some ?s"
    using execs [of 0] execs [of 1] execs [of 2] by (simp add: call_inits_def s(1) more b(1) m(1) blk(1) past del: One_nat_def)
  ultimately show ?thesis by blast
qed

text \<open>The parameters read do not depend on the memory.\<close>

lemma read_params_fields:
  "r_execs (read_params argv m) = (if get_seed_args 5 argv = 0 then ALL_ALGORITHMS_MASK else get_seed_args 5 argv)"
  "heads (read_params argv m) = heads m" "datas (read_params argv m) = datas m" "r_block (read_params argv m) = r_block m"
  by (simp_all add: read_params_def default_seeds_def Let_def)

lemma all_algorithms:
  assumes "\<forall>i < 3. has_algorithm e i"
  shows "count_algorithms e = 3" and "assign_blocks e base sz ! 1 = Some (base + ucast (sz * 1))"
proof -
  have h: "has_algorithm e 0" "has_algorithm e (Suc 0)" "has_algorithm e 2" using assms by auto
  have u: "[0..<NUM_ALGORITHMS] = [0, 1, 2]" by (simp add: NUM_ALGORITHMS_def upt_rec)
  show "count_algorithms e = 3" by (simp add: count_algorithms_def u h)
  show "assign_blocks e base sz ! 1 = Some (base + ucast (sz * 1))" by (simp add: assign_blocks_def u h)
qed

text \<open>A fresh block whose parts are \<open>sz\<close> bytes long, at an address behind which it fits.\<close>

definition fresh_block :: "64 word \<Rightarrow> u32 \<Rightarrow> core_results \<Rightarrow> bool" where
  "fresh_block base sz m \<longleftrightarrow>
     unat (sz div 20 - 2) \<le> length (heads m) \<and> unat (sz div 20 - 2) \<le> length (datas m) \<and>
     length (r_block m) = unat sz \<and> unat base + 2 ^ 33 < 2 ^ 64"

lemma core_setup_ready:
  fixes argv base mem
  defines "sz \<equiv> block_size argv div 3"
  defines "r \<equiv> read_params argv (mem sz)"
  assumes execs: "\<forall>i < 3. has_algorithm (r_execs r) i" and "120 \<le> unat sz" and "fresh_block base sz (mem sz)"
    and "seed_fits (r_seed1 r) sz" and "(ucast (r_seed1 r) :: u8) = ucast (r_seed2 r)"
    and "holds_matrices (base + ucast sz) sz"
  shows "\<exists>s. core_setup argv base mem old_A old_B old_C = Some s \<and>
    list_ready s (init_order (r_seed1 r) (sz div 20 - 2)) \<and> kernels_ok s"
proof -
  have e: "r_execs (read_params argv (mem 0)) = r_execs r" by (simp add: r_def read_params_fields)
  note alg = all_algorithms [OF execs]
  have small: "unat sz \<le> 2 ^ 31"
  proof -
    have "unat (block_size argv) < 2 ^ 32" using unsigned_less [of "block_size argv"] by simp
    then show ?thesis by (simp add: sz_def unat_div)
  qed
  let ?r = "r\<lparr>r_err := 0, r_size := sz\<rparr>"
  have "unat (sz div 20 - 2) = unat sz div 20 - 2"
  proof -
    have "2 \<le> sz div 20" using assms(4) by (simp add: word_le_nat_alt unat_div)
    then show ?thesis by (simp add: unat_sub unat_div)
  qed
  then have "4 \<le> unat (sz div 20 - 2)" using assms(4) by simp
  moreover have "unat (base + ucast (sz * 1)) + unat sz + 4 < 2 ^ 64"
  proof -
    have "unat (base + ucast sz) \<le> unat base + unat (ucast sz :: 64 word)" by (simp add: unat_word_ariths)
    also have "unat (ucast sz :: 64 word) = unat sz" by (simp add: unsigned_ucast_eq take_bit_nat_eq_self unsigned_less [THEN order.strict_trans2])
    finally show ?thesis using small assms(5) by (simp add: fresh_block_def)
  qed
  ultimately have "\<exists>s. call_inits (assign_blocks (r_execs r) base sz) old_A old_B old_C ?r = Some s \<and>
      list_ready s (init_order (r_seed1 ?r) (r_size ?r div 20 - 2)) \<and> kernels_ok s"
    using execs assms(4-8) small alg(2) read_params_fields(2-4) [of argv "mem sz"]
    by (intro call_inits_ready [where n = "unat (sz div 20 - 2)"]) (simp_all add: fresh_block_def r_def)
  moreover have "core_setup argv base mem old_A old_B old_C = call_inits (assign_blocks (r_execs r) base sz) old_A old_B old_C ?r"
    using alg(1) e by (simp add: core_setup_def Let_def split_size_def r_def sz_def read_params_fields)
  ultimately show ?thesis by simp
qed

text \<open>Checking a result changes nothing but the error count.\<close>

lemma list_ready_err [simp]: "list_ready (s\<lparr>r_err := e\<rparr>) xs = list_ready s xs" "kernels_ok (s\<lparr>r_err := e\<rparr>) = kernels_ok s"
  by (simp_all add: list_ready_def kernels_ok_def infos_in_def in_index_order_def)

lemma check_crc_err: "\<exists>e out'. check_crc what i crc known (res\<lparr>r_err := e0\<rparr>, out) = (res\<lparr>r_err := e\<rparr>, out')"
  by (auto simp: check_crc_def)

lemma check_results_err: "\<exists>e out'. check_results k (res, out) = (res\<lparr>r_err := e\<rparr>, out')"
  unfolding check_results_def prod.case using check_crc_err by metis

lemma validate_keeps: "\<exists>e. fst (snd (validate z t res)) = res\<lparr>r_err := e\<rparr>"
proof (cases "known_run (seed_crc res)")
  case None
  then show ?thesis by (intro exI [of _ "r_err res"]) (simp add: validate_def known_errors_def Let_def)
next
  case (Some p)
  obtain e out where "check_results (fst p) (res, [snd p]) = (res\<lparr>r_err := e\<rparr>, out)"
    using check_results_err by blast
  with Some show ?thesis
    by (intro exI [of _ e]) (simp add: validate_def known_errors_def Let_def case_prod_beta)
qed

section \<open>Properties\<close>

text \<open>C9: The benchmark as a whole returns: with all three algorithms selected, a part size of at least 120
  bytes, fresh memory of that size, a part for the matrices that holds them where it lies, equal
  seeds that fit it, and a timer that some time measures a second if the number of iterations is to be
  found, the set-up, the measurement and all iterations run to the end, every kernel stays in its
  own part of the block, no access leaves its array, no pointer is null, and the inputs of all kernels
  are still intact.\<close>

theorem core_main_returns:
  assumes "sz = block_size argv div 3" and "r = read_params argv (mem sz)"
    and "\<forall>i < 3. has_algorithm (r_execs r) i" and "120 \<le> unat sz" and "fresh_block base sz (mem sz)"
    and "seed_fits (r_seed1 r) sz" and "(ucast (r_seed1 r) :: u8) = ucast (r_seed2 r)"
    and "\<exists>k. 1 \<le> secs k" and "holds_matrices (base + ucast sz) sz"
  shows "\<exists>total_errors res out.
    core_main argv base mem old_A old_B old_C secs total_secs z = Some (Inr (total_errors, res, out)) \<and>
    list_ready res (init_order (r_seed1 r) (sz div 20 - 2)) \<and> kernels_ok res"
proof -
  let ?o = "init_order (r_seed1 r) (sz div 20 - 2)"
  from core_setup_ready [of argv mem base] assms obtain s where
    s: "core_setup argv base mem old_A old_B old_C = Some s" "list_ready s ?o" "kernels_ok s" by blast
  from set_iterations_keeps [OF input_kept_refl [OF s(2,3)], of secs] assms(8) obtain n s1 where
    s1: "set_iterations secs s = Some s1" "input_kept (s\<lparr>r_iterations := n\<rparr>) ?o s1" by blast
  from iterate_keeps [OF s1(2)] obtain s2 where
    s2: "iterate s1 = Some s2" "input_kept (s\<lparr>r_iterations := n\<rparr>) ?o s2" by blast
  obtain e out res where v: "validate z total_secs s2 = (e, res, out)" by (cases "validate z total_secs s2")
  with validate_keeps [of z total_secs s2] obtain err where "res = s2\<lparr>r_err := err\<rparr>" by auto
  with s2(2) have "list_ready res ?o" "kernels_ok res" by (simp_all add: input_kept_def)
  moreover have "core_main argv base mem old_A old_B old_C secs total_secs z = Some (Inr (e, res, out))"
    by (simp add: core_main_def sizeof_list_head_def s(1) s1(1) s2(1) v)
  ultimately show ?thesis by blast
qed

definition sample_port :: port_sizes where
  "sample_port = \<lparr>sz_u8 = 1, sz_u16 = 2, sz_s16 = 2, sz_s32 = 4, sz_u32 = 4, sz_ptr_int = 8, sz_int_ptr = 8\<rparr>"

definition sample_memory :: "u32 \<Rightarrow> core_results" where
  "sample_memory sz = sample_results
     \<lparr>heads := replicate (unat sz) \<lparr>l_next = None, l_info = 0\<rparr>,
      datas := replicate (unat sz) \<lparr>d_data16 = 0, d_idx = 0\<rparr>,
      r_block := replicate (unat sz) 0\<rparr>"

lemma seed_fits_performance: "seed_fits 0 666"
  by code_simp

theorem core_main_returns_witness:
  "\<exists>total_errors res out.
    core_main [''coremark''] 0x10000 sample_memory (\<lambda>_. 0) (\<lambda>_. 0) (\<lambda>_. 0) (\<lambda>_. 2) 12 sample_port = Some (Inr (total_errors, res, out)) \<and>
    list_ready res (init_order 0 31) \<and> kernels_ok res"
proof -
  let ?r = "read_params [''coremark''] (sample_memory 666)"
  have sz: "666 = block_size [''coremark''] div 3"
    by (simp add: block_size_def get_seed_args_def TOTAL_DATA_SIZE_def Let_def)
  have seeds: "r_seed1 ?r = 0" "r_seed2 ?r = 0" "r_execs ?r = 7"
    by (simp_all add: read_params_def default_seeds_def get_seed_args_def ALL_ALGORITHMS_MASK_def Let_def)
  have "has_algorithm 7 0" "has_algorithm 7 1" "has_algorithm 7 2" by code_simp+
  then have execs: "\<forall>i < 3. has_algorithm (r_execs ?r) i"
    unfolding seeds by (auto simp: less_Suc_eq numeral_3_eq_3 numeral_2_eq_2)
  have "fresh_block 0x10000 666 (sample_memory 666)"
    by (simp add: fresh_block_def sample_memory_def)
  moreover have "seed_fits (r_seed1 ?r) 666" unfolding seeds by (rule seed_fits_performance)
  moreover have "(ucast (r_seed1 ?r) :: u8) = ucast (r_seed2 ?r)" by (simp add: seeds)
  moreover have "holds_matrices (0x10000 + ucast (666 :: u32)) 666"
  proof -
    obtain N where N: "matrix_dim (666 :: u32) 0 0 = Some N" "8 * (unat N * unat N) < 666"
      "666 \<le> 8 * ((unat N + 1) * (unat N + 1))"
      using matrix_dim_ok [of 666] by auto
    then have "unat N = 9" by (intro square_between [where a = 666]) simp_all
    with N(1) show ?thesis by (simp add: holds_matrices_def)
  qed
  moreover have "\<exists>k. 1 \<le> (2 :: nat)" "120 \<le> unat (666 :: u32)" by simp_all
  ultimately show ?thesis
    using core_main_returns [where mem = sample_memory and base = "0x10000" and secs = "\<lambda>_. 2", OF sz refl execs] by (simp add: seeds)
qed

text \<open>C10: Every iteration computes on the same input: whatever the number of iterations, \<open>iterate\<close> returns
  and leaves the list, its data, the state block, the matrices A and B and the parameters as they
  were.\<close>

theorem iterate_same_input:
  assumes "list_ready res xs" and "kernels_ok res"
  shows "\<exists>res'. iterate res = Some res' \<and> list_ready res' xs \<and> kernels_ok res' \<and> same_input res res' \<and>
    (\<forall>x \<in> set xs. datas res' ! l_info (heads res' ! x) = datas res ! l_info (heads res ! x))"
  using iterate_keeps [OF input_kept_refl [OF assms]] by (auto simp: input_kept_def)

theorem iterate_same_input_witness:
  "\<exists>res'. iterate sample_results = Some res' \<and> list_ready res' [0, 2, 3, 1] \<and> kernels_ok res' \<and>
     same_input sample_results res' \<and>
     (\<forall>x \<in> set [0, 2, 3, 1]. datas res' ! l_info (heads res' ! x) = datas sample_results ! l_info (heads sample_results ! x))"
  by (rule iterate_same_input [OF sample_ready])

lemma check_crc_fst:
  "fst (check_crc what i crc known p) =
     (fst p)\<lparr>r_err := r_err (fst p) + (if has_algorithm (r_execs (fst p)) i \<and> crc (fst p) \<noteq> known then 1 else 0)\<rparr>"
  by (cases p) (simp add: check_crc_def)

lemma known_errors_known:
  assumes "known_run (seed_crc res) = Some (k, msg)"
  shows "fst (known_errors res) =
    (if has_algorithm (r_execs res) 0 \<and> r_crclist res \<noteq> list_known_crc ! k then 1 else 0) +
    (if has_algorithm (r_execs res) 1 \<and> r_crcmatrix res \<noteq> matrix_known_crc ! k then 1 else 0) +
    (if has_algorithm (r_execs res) 2 \<and> r_crcstate res \<noteq> state_known_crc ! k then 1 else 0)"
proof -
  have "fst (known_errors res) = r_err (fst (check_results k (res, [msg])))"
    by (simp add: known_errors_def assms case_prod_beta)
  also have "\<dots> = (if has_algorithm (r_execs res) 0 \<and> r_crclist res \<noteq> list_known_crc ! k then 1 else 0) +
    (if has_algorithm (r_execs res) 1 \<and> r_crcmatrix res \<noteq> matrix_known_crc ! k then 1 else 0) +
    (if has_algorithm (r_execs res) 2 \<and> r_crcstate res \<noteq> state_known_crc ! k then 1 else 0)"
    unfolding check_results_def prod.case check_crc_fst by simp
  finally show ?thesis .
qed

text \<open>C23: For the known seeds a run is validated exactly when it took at least ten seconds and the CRCs of
  the selected algorithms are the known ones.\<close>

theorem known_run_validated:
  assumes "known_run (seed_crc res) = Some (k, msg)" and "fst (check_data_types z) = 0"
  shows "fst (validate z total_secs res) = 0 \<longleftrightarrow>
    10 \<le> total_secs \<and>
    (has_algorithm (r_execs res) 0 \<longrightarrow> r_crclist res = list_known_crc ! k) \<and>
    (has_algorithm (r_execs res) 1 \<longrightarrow> r_crcmatrix res = matrix_known_crc ! k) \<and>
    (has_algorithm (r_execs res) 2 \<longrightarrow> r_crcstate res = state_known_crc ! k)"
proof -
  have "fst (validate z total_secs res) = count_errors z total_secs (fst (known_errors res))"
    by (simp add: validate_def Let_def case_prod_beta)
  then show ?thesis
    by (simp add: count_errors_def Let_def assms(2) known_errors_known [OF assms(1)])
qed

lemma sample_port_ok: "fst (check_data_types sample_port) = 0"
  by (simp add: check_data_types_def size_error_def sample_port_def)

theorem known_run_validated_witness:
  "fst (validate sample_port 12
     (sample_results\<lparr>r_size := 666, r_crclist := 0xe714, r_crcmatrix := 0x1fd7, r_crcstate := 0x8e3a\<rparr>)) = 0"
proof -
  let ?r = "sample_results\<lparr>r_size := 666, r_crclist := 0xe714, r_crcmatrix := 0x1fd7, r_crcstate := 0x8e3a\<rparr>"
  have "seed_crc ?r = crc16 666 (crc16 0x66 (crc16 0 (crc16 0 0)))" by (simp add: seed_crc_def sample_results_def)
  also have "\<dots> = 0xe9f5" by code_simp
  finally have "known_run (seed_crc ?r) = Some (3, ''2K performance run parameters for coremark.'')"
    by (simp add: known_run_def)
  from known_run_validated [OF this sample_port_ok, of 12] show ?thesis
    by (simp add: list_known_crc_def matrix_known_crc_def state_known_crc_def)
qed

text \<open>C38: For other seeds the error count starts at minus one, and a run that is too short adds one: such a
  run is reported as validated.\<close>

theorem unknown_short_run_validated:
  assumes "known_run (seed_crc res) = None" and "fst (check_data_types z) = 0" and "total_secs < 10"
  shows "fst (validate z total_secs res) = 0 \<and>
    ''Correct operation validated. See README.md for run and reporting rules.'' \<in> set (snd (snd (validate z total_secs res)))"
  using assms by (simp add: validate_def known_errors_def count_errors_def verdict_def Let_def)

theorem unknown_short_run_validated_witness:
  "fst (validate sample_port 3 sample_results) = 0"
proof -
  have "seed_crc sample_results = crc16 8 (crc16 0x66 (crc16 0 (crc16 0 0)))" by (simp add: seed_crc_def sample_results_def)
  also have "known_run \<dots> = None" by code_simp
  finally have "known_run (seed_crc sample_results) = None" .
  from unknown_short_run_validated [OF this sample_port_ok, of 3] show ?thesis by simp
qed

lemma no_list_no_run:
  assumes "r_list res = None" and "0 < sint (r_seed3 res)"
  shows "core_bench_list res idx = None"
proof -
  obtain m where m: "nat (sint (r_seed3 res)) = Suc m" using assms(2) by (metis not0_implies_Suc zero_less_nat_eq nat_neq_iff)
  have u: "[0..<Suc m] = 0 # [1..<Suc m]" by (simp add: upt_rec)
  have "find_round 0 (None, key, a, b, c, res) = None" for key a b c
    by (simp add: find_round_def core_list_find_def find_while.simps core_list_reverse_def reverse_loop.simps
        next_of_def head_at_def Let_def)
  then show ?thesis unfolding core_bench_list_def m u assms(1) by simp
qed

text \<open>C39: The list kernel drives every iteration, also when it is not selected: then nothing sets the list
  pointer, and if the fresh results hold a null pointer the first iteration follows it.\<close>

theorem unselected_list_faults:
  assumes "\<not> has_algorithm (r_execs res) 0" and "call_inits blocks old_A old_B old_C res = Some res'"
    and "r_list res = None" and "0 < sint (r_seed3 res)" and "r_iterations res \<noteq> 0"
  shows "iterate res' = None"
proof -
  have keep: "r_list res' = None \<and> r_seed3 res' = r_seed3 res \<and> r_iterations res' = r_iterations res"
    using assms(1-3) by (auto simp: call_inits_def split: if_splits bind_splits)
  obtain n where n: "unat (r_iterations res) = Suc n" using assms(5) by (metis not0_implies_Suc unat_eq_zero)
  have u: "[0..<Suc n] = 0 # [1..<Suc n]" by (simp add: upt_rec)
  from keep assms(4) show ?thesis
    unfolding iterate_def by (simp add: n u iterate_round_def no_list_no_run del: upt_Suc)
qed

theorem unselected_list_faults_witness:
  "iterate (sample_results\<lparr>r_list := None, r_execs := 8\<rparr>) = None"
proof -
  let ?r = "sample_results\<lparr>r_list := None, r_execs := 8\<rparr>"
  have h: "\<not> has_algorithm 8 0" "\<not> has_algorithm 8 1" "\<not> has_algorithm 8 2" by code_simp+
  then have i: "call_inits [] (\<lambda>_. 0) (\<lambda>_. 0) (\<lambda>_. 0) ?r = Some ?r" by (simp add: call_inits_def)
  have n: "\<not> has_algorithm (r_execs ?r) 0" using h by simp
  have "r_list ?r = None" "0 < sint (r_seed3 ?r)" "r_iterations ?r \<noteq> 0" by (simp_all add: sample_results_def)
  from unselected_list_faults [OF n i this] show ?thesis .
qed

text \<open>A selection of no known algorithm divides the block size by zero.\<close>

theorem no_algorithm_divides_by_zero:
  "core_setup [''coremark'', ''0'', ''0'', ''0x66'', ''1'', ''8''] base mem old_A old_B old_C = None"
proof -
  have e: "get_seed_args 5 [''coremark'', ''0'', ''0'', ''0x66'', ''1'', ''8''] = 8" by code_simp
  have "count_algorithms 8 = 0" by code_simp
  then show ?thesis by (simp add: core_setup_def split_size_def Let_def read_params_fields e)
qed

end
