(* ===== verification/VAM.thy ===== *)
theory VAM
  imports Prelude
begin

text \<open>
  The VSL abstract machine (\<open>csibe/src/compiler/vam.c\<close>): a byte-coded machine with sixteen 32-bit
  registers, a zero flag and 64K bytes of memory, and the tracer that prints its state. The
  fetch-execute loop is a step function over the machine's globals; \<open>exit\<close> and accesses outside
  the memory array are results of a step, so that both show.
\<close>

section \<open>State\<close>

definition MEMMAX :: u32 where "MEMMAX = 256 * 256"

definition REGMAX :: nat where "REGMAX = 16"

definition I_HALT :: u8 where "I_HALT = 0"
definition I_NOP :: u8 where "I_NOP = 1"
definition I_TRAP :: u8 where "I_TRAP = 2"
definition I_ADD :: u8 where "I_ADD = 3"
definition I_SUB :: u8 where "I_SUB = 4"
definition I_MUL :: u8 where "I_MUL = 5"
definition I_DIV :: u8 where "I_DIV = 6"
definition I_STI :: u8 where "I_STI = 7"
definition I_LDI :: u8 where "I_LDI = 8"
definition I_LDA :: u8 where "I_LDA = 9"
definition I_LDR :: u8 where "I_LDR = 10"
definition I_BZE :: u8 where "I_BZE = 11"
definition I_BNZ :: u8 where "I_BNZ = 12"
definition I_BRA :: u8 where "I_BRA = 13"
definition I_BAL :: u8 where "I_BAL = 14"

lemmas opcodes = I_HALT_def I_NOP_def I_TRAP_def I_ADD_def I_SUB_def I_MUL_def I_DIV_def
  I_STI_def I_LDI_def I_LDA_def I_LDR_def I_BZE_def I_BNZ_def I_BRA_def I_BAL_def

text \<open>
  The globals, the two output streams, and the three locals of the interpreter loop that keep
  their value from one instruction to the next.
\<close>

record vam =
  reg :: "u32 list"
  mem :: "nat \<Rightarrow> u8"
  pc :: u32
  z_flag :: bool
  vam_clock :: u32
  trace_flag :: bool
  out :: string
  errs :: string
  rx :: nat
  ry :: nat
  offset :: u32

text \<open>
  What a piece of the interpreter does: go on with a value, leave through \<open>exit\<close>, or touch memory
  outside the array \<open>mem\<close> (undefined behaviour in C).
\<close>

datatype 'a res = Ok 'a vam | Exit int vam | Wild

fun thn :: "'a res \<Rightarrow> ('a \<Rightarrow> vam \<Rightarrow> 'b res) \<Rightarrow> 'b res" where
  "thn (Ok v s) f = f v s"
| "thn (Exit n s) f = Exit n s"
| "thn Wild f = Wild"

definition nl :: string where "nl = [CHR 0x0A]"

definition print :: "string \<Rightarrow> vam \<Rightarrow> vam" where
  "print str s = s\<lparr>out := out s @ str\<rparr>"

definition eprint :: "string \<Rightarrow> vam \<Rightarrow> vam" where
  "eprint str s = s\<lparr>errs := errs s @ str\<rparr>"

definition rd_mem :: "u32 \<Rightarrow> vam \<Rightarrow> u8 res" where
  "rd_mem a s = (if a < MEMMAX then Ok (mem s (unat a)) s else Wild)"

definition wr_mem :: "u32 \<Rightarrow> u8 \<Rightarrow> vam \<Rightarrow> unit res" where
  "wr_mem a v s = (if a < MEMMAX then Ok () (s\<lparr>mem := (mem s)(unat a := v)\<rparr>) else Wild)"

definition get_reg :: "nat \<Rightarrow> vam \<Rightarrow> u32" where
  "get_reg i s = reg s ! i"

definition set_reg :: "nat \<Rightarrow> u32 \<Rightarrow> vam \<Rightarrow> vam" where
  "set_reg i v s = s\<lparr>reg := (reg s)[i := v]\<rparr>"

text \<open>The macro \<open>DO_Z\<close>.\<close>

definition DO_Z :: "u32 \<Rightarrow> vam \<Rightarrow> vam" where
  "DO_Z x s = s\<lparr>z_flag := (x = 0)\<rparr>"

definition tick :: "u32 \<Rightarrow> vam \<Rightarrow> vam" where
  "tick n s = s\<lparr>vam_clock := vam_clock s + n\<rparr>"

section \<open>Tracing\<close>

definition hex8 :: "u32 \<Rightarrow> string" where
  "hex8 w = show_hex 8 (unat w)"

definition print_op :: "u32 \<Rightarrow> u8 \<Rightarrow> nat \<Rightarrow> nat \<Rightarrow> u32 \<Rightarrow> string" where
  "print_op o_pc op x y off =
     (let a = hex8 o_pc; R = (\<lambda>n. CHR ''R'' # show_nat n); end = nl @ nl in
      if op = I_HALT then a @ '':  HALT'' @ end
      else if op = I_NOP then a @ '':  NOP'' @ end
      else if op = I_TRAP then a @ '':  TRAP'' @ end
      else if op = I_ADD then a @ '':  ADD  '' @ R x @ '','' @ R y @ end
      else if op = I_SUB then a @ '':  SUB  '' @ R x @ '','' @ R y @ end
      else if op = I_MUL then a @ '':  MUL  '' @ R x @ '','' @ R y @ end
      else if op = I_DIV then a @ '':  DIV  '' @ R x @ '','' @ R y @ end
      else if op = I_STI then a @ '':  STI  '' @ R x @ '','' @ show_d off @ ''('' @ R y @ '')'' @ end
      else if op = I_LDI then a @ '':  LDI  '' @ show_d off @ ''('' @ R x @ ''),'' @ R y @ end
      else if op = I_LDA then a @ '':  LDA  '' @ show_d off @ ''('' @ R x @ ''),'' @ R y @ end
      else if op = I_LDR then a @ '':  LDR  '' @ R x @ '','' @ R y @ end
      else if op = I_BZE then a @ '':  BZE  '' @ show_d off @ end
      else if op = I_BNZ then a @ '':  BNZ  '' @ show_d off @ end
      else if op = I_BRA then a @ '':  BRA  '' @ show_d off @ end
      else if op = I_BAL then a @ '':  BAL  '' @ R x @ '','' @ R y @ end
      else a @ '':  ???'' @ end)"

text \<open>
  The memory dump of \<open>trace\<close>: three rows of four words from a base address. The base is chosen
  so that two rows fit; the third is printed all the same.
\<close>

definition dump_base :: "u32 \<Rightarrow> u32" where
  "dump_base a = (if a < 16 then 0 else if a + 32 < MEMMAX then a AND 0xfffffff0 else MEMMAX - 32)"

definition dump_word :: "u32 \<Rightarrow> vam \<Rightarrow> string option" where
  "dump_word b s =
     (if \<forall>k \<in> {0, 1, 2, 3}. b + k < MEMMAX
      then Some (concat (map (\<lambda>k. show_hex 2 (unat (mem s (unat (b + k))))) [0, 1, 2, 3]))
      else None)"

definition dump_row :: "u32 \<Rightarrow> string \<Rightarrow> vam \<Rightarrow> string option" where
  "dump_row b row_end s = do {
     w0 \<leftarrow> dump_word b s;
     w1 \<leftarrow> dump_word (b + 4) s;
     w2 \<leftarrow> dump_word (b + 8) s;
     w3 \<leftarrow> dump_word (b + 12) s;
     Some (hex8 b @ '':  '' @ w0 @ '' '' @ w1 @ '' '' @ w2 @ '' '' @ w3 @ row_end)
   }"

definition dump :: "u32 \<Rightarrow> string \<Rightarrow> vam \<Rightarrow> string option" where
  "dump b last_end s = do {
     r0 \<leftarrow> dump_row b nl s;
     r1 \<leftarrow> dump_row (b + 16) nl s;
     r2 \<leftarrow> dump_row (b + 32) last_end s;
     Some (r0 @ r1 @ r2)
   }"

definition trace_reg :: "nat \<Rightarrow> vam \<Rightarrow> string" where
  "trace_reg i s =
     ''R'' @ show_nat i @ (if i < 10 then ''  = '' else '' = '') @ hex8 (get_reg i s) @
     (if i = 15 then nl @ nl else if i mod 4 = 3 then nl else ''   '')"

definition trace :: "u32 \<Rightarrow> u8 \<Rightarrow> nat \<Rightarrow> nat \<Rightarrow> u32 \<Rightarrow> vam \<Rightarrow> unit res" where
  "trace o_pc op x y off s =
     (let text = print_op o_pc op x y off @
                 concat (map (\<lambda>i. trace_reg i s) [0..<16]) @
                 ''PC  = '' @ hex8 (pc s) @ ''   '' @
                 ''Z   = '' @ pad_left 8 (CHR '' '') (if z_flag s then ''1'' else ''0'') @ ''   '' @
                 ''CLK = '' @ show_d (vam_clock s) @ nl @ nl
      in case (dump (dump_base (pc s)) (nl @ nl) s,
               dump (dump_base (get_reg 1 s)) (nl @ nl @ nl) s) of
           (Some d1, Some d2) \<Rightarrow> Ok () (print (text @ d1 @ d2) s)
         | _ \<Rightarrow> Wild)"

section \<open>Fetching\<close>

definition i_pc :: "vam \<Rightarrow> u32 res" where
  "i_pc s =
     (if pc s < MEMMAX then Ok (pc s) (s\<lparr>pc := pc s + 1\<rparr>)
      else Exit 10 (print (''vam: bus error'' @ nl) (s\<lparr>pc := pc s + 1\<rparr>)))"

definition fetch :: "vam \<Rightarrow> u8 res" where
  "fetch s = thn (i_pc s) (\<lambda>a. rd_mem a)"

text \<open>\<open>rx = mem[pc] >> 4 ; ry = mem[i_pc()] & 0x0f\<close>: the first read is not checked.\<close>

definition fetch_regs :: "vam \<Rightarrow> unit res" where
  "fetch_regs s =
     thn (rd_mem (pc s) s) (\<lambda>b s.
     thn (fetch (s\<lparr>rx := unat (drop_bit 4 b)\<rparr>)) (\<lambda>b s.
     Ok () (s\<lparr>ry := unat (b AND 0x0f)\<rparr>)))"

text \<open>The four bytes of an operand, most significant first, combined by shifting and or-ing.\<close>

definition fetch_or :: "vam \<Rightarrow> unit res" where
  "fetch_or s = thn (fetch s) (\<lambda>b s. Ok () (s\<lparr>offset := push_bit 8 (offset s) OR ucast b\<rparr>))"

definition fetch_offset :: "vam \<Rightarrow> unit res" where
  "fetch_offset s =
     thn (fetch s) (\<lambda>b s.
     thn (fetch_or (s\<lparr>offset := ucast b\<rparr>)) (\<lambda>_ s.
     thn (fetch_or s) (\<lambda>_ s. fetch_or s)))"

section \<open>Instructions\<close>

text \<open>The registers an instruction names, once fetched.\<close>

abbreviation r_x :: "vam \<Rightarrow> u32" where "r_x s \<equiv> get_reg (rx s) s"
abbreviation r_y :: "vam \<Rightarrow> u32" where "r_y s \<equiv> get_reg (ry s) s"

definition set_y :: "u32 \<Rightarrow> vam \<Rightarrow> vam" where
  "set_y v s = DO_Z v (set_reg (ry s) v s)"

definition op_trap :: "vam \<Rightarrow> unit res" where
  "op_trap s =
     (let s = print [char_of (unat (get_reg 15 s) mod 256)] s
      in Ok () (tick 1 (DO_Z (get_reg 15 s) s)))"

definition op_add :: "vam \<Rightarrow> unit res" where
  "op_add s = thn (fetch_regs s) (\<lambda>_ s. Ok () (tick 1 (set_y (r_x s + r_y s) s)))"

definition op_sub :: "vam \<Rightarrow> unit res" where
  "op_sub s = thn (fetch_regs s) (\<lambda>_ s. Ok () (tick 1 (set_y (r_x s - r_y s) s)))"

definition op_mul :: "vam \<Rightarrow> unit res" where
  "op_mul s = thn (fetch_regs s) (\<lambda>_ s. Ok () (tick 5 (set_y (r_x s * r_y s) s)))"

definition op_div :: "u32 \<Rightarrow> vam \<Rightarrow> unit res" where
  "op_div o_pc s =
     thn (fetch_regs s) (\<lambda>_ s.
     thn (if r_y s = 0
          then trace o_pc I_DIV (rx s) (ry s) (offset s)
                 (set_y 0 (print (''vam: Divide by zero trap'' @ nl) s))
          else Ok () (set_y (r_x s div r_y s) s)) (\<lambda>_ s.
     Ok () (tick 10 s)))"

text \<open>The common end of the four address checks.\<close>

definition bus_error :: "u32 \<Rightarrow> u8 \<Rightarrow> vam \<Rightarrow> unit res" where
  "bus_error o_pc op s =
     thn (trace o_pc op (rx s) (ry s) (offset s) (eprint (''vam: bus error'' @ nl) s)) (\<lambda>_ s. Exit 10 s)"

definition op_sti :: "u32 \<Rightarrow> vam \<Rightarrow> unit res" where
  "op_sti o_pc s =
     thn (fetch_regs s) (\<lambda>_ s.
     thn (fetch_offset s) (\<lambda>_ s.
     if offset s + r_y s + 4 > MEMMAX then bus_error o_pc I_STI s
     else
       thn (wr_mem (offset s + r_y s) (ucast (drop_bit 24 (r_x s))) s) (\<lambda>_ s.
       thn (wr_mem (offset s + r_y s + 1) (ucast (drop_bit 16 (r_x s) AND 0xff)) s) (\<lambda>_ s.
       thn (wr_mem (offset s + r_y s + 2) (ucast (drop_bit 8 (r_x s) AND 0xff)) s) (\<lambda>_ s.
       thn (wr_mem (offset s + r_y s + 3) (ucast (r_x s AND 0xff)) s) (\<lambda>_ s.
       Ok () (tick 2 (DO_Z (r_x s) s))))))))"

definition load_or :: "u32 \<Rightarrow> u32 \<Rightarrow> vam \<Rightarrow> u32 res" where
  "load_or a t s = thn (rd_mem a s) (\<lambda>b s. Ok (push_bit 8 t + ucast b) s)"

definition op_ldi_lda :: "u32 \<Rightarrow> u8 \<Rightarrow> vam \<Rightarrow> unit res" where
  "op_ldi_lda o_pc op s =
     thn (fetch_regs s) (\<lambda>_ s.
     thn (fetch_offset s) (\<lambda>_ s.
     if op = I_LDA then Ok () (tick 2 (set_y (offset s + r_x s) s))
     else if offset s + r_x s + 4 > MEMMAX then bus_error o_pc op s
     else
       thn (rd_mem (offset s + r_x s) s) (\<lambda>b s.
       thn (load_or (offset s + r_x s + 1) (ucast b) s) (\<lambda>t s.
       thn (load_or (offset s + r_x s + 2) t s) (\<lambda>t s.
       thn (load_or (offset s + r_x s + 3) t s) (\<lambda>t s.
       Ok () (tick 2 (set_y t s))))))))"

definition op_ldr :: "vam \<Rightarrow> unit res" where
  "op_ldr s = thn (fetch_regs s) (\<lambda>_ s. Ok () (set_y (r_x s) (tick 1 s)))"

definition op_branch :: "u32 \<Rightarrow> u8 \<Rightarrow> vam \<Rightarrow> unit res" where
  "op_branch o_pc op s =
     thn (fetch_offset s) (\<lambda>_ s.
     if (op = I_BZE \<and> z_flag s) \<or> (op = I_BNZ \<and> \<not> z_flag s) \<or> op = I_BRA
     then
       if offset s + pc s - 3 \<ge> MEMMAX then bus_error o_pc op s
       else Ok () (tick 1 ((tick 1 s)\<lparr>pc := pc s + (offset s - 5)\<rparr>))
     else Ok () (tick 1 s))"

definition op_bal :: "u32 \<Rightarrow> vam \<Rightarrow> unit res" where
  "op_bal o_pc s =
     thn (fetch_regs s) (\<lambda>_ s.
     if r_x s \<ge> MEMMAX then bus_error o_pc I_BAL s
     else let t = pc s;
              s = s\<lparr>pc := r_x s\<rparr>
          in Ok () (tick 2 (set_reg (ry s) t s)))"

text \<open>The switch of \<open>vam\<close>.\<close>

definition vam_switch :: "u32 \<Rightarrow> u8 \<Rightarrow> vam \<Rightarrow> unit res" where
  "vam_switch o_pc op s =
     (if op = I_HALT then
        thn (trace o_pc op (rx s) (ry s) (offset s) (tick 1 s)) (\<lambda>_ s. Exit 0 s)
      else if op = I_NOP then trace o_pc op (rx s) (ry s) (offset s) (tick 1 s)
      else if op = I_TRAP then op_trap s
      else if op = I_ADD then op_add s
      else if op = I_SUB then op_sub s
      else if op = I_MUL then op_mul s
      else if op = I_DIV then op_div o_pc s
      else if op = I_STI then op_sti o_pc s
      else if op = I_LDI \<or> op = I_LDA then op_ldi_lda o_pc op s
      else if op = I_LDR then op_ldr s
      else if op = I_BZE \<or> op = I_BNZ \<or> op = I_BRA then op_branch o_pc op s
      else if op = I_BAL then op_bal o_pc s
      else Ok () (print (''vam: Instruction trap '' @ show_hex 2 (unat op) @ nl) s))"

text \<open>One turn of the endless loop of \<open>vam\<close>.\<close>

definition vam_step :: "vam \<Rightarrow> unit res" where
  "vam_step s =
     (let o_pc = pc s in
      thn (fetch s) (\<lambda>op s.
      thn (vam_switch o_pc op s) (\<lambda>_ s.
      if trace_flag s then trace o_pc op (rx s) (ry s) (offset s) s else Ok () s)))"

text \<open>The loop: \<open>None\<close> when the fuel runs out before the program leaves it.\<close>

fun vam_loop :: "nat \<Rightarrow> vam \<Rightarrow> unit res option" where
  "vam_loop 0 s = None"
| "vam_loop (Suc fuel) s =
     (case vam_step s of Ok _ s' \<Rightarrow> vam_loop fuel s' | r \<Rightarrow> Some r)"

section \<open>Starting up\<close>

text \<open>
  \<open>argv\<close> includes the program name; the vector ends in a null pointer, which is what
  \<open>argv[nextarg]\<close> yields when no argument is left.
\<close>

datatype args = Args bool "string option" | ArgsExit int string

definition argv_at :: "string list \<Rightarrow> nat \<Rightarrow> string option" where
  "argv_at argv i = (if i < length argv then Some (argv ! i) else None)"

definition read_args :: "string list \<Rightarrow> args" where
  "read_args argv =
     (let argc = length argv; nextarg = 1 in
      if argc < 2 then ArgsExit 10 (''vam: Too few args'' @ nl)
      else
        let (nextarg, trc) = (if argv_at argv nextarg = Some ''-t'' then (nextarg + 1, True)
                              else (nextarg, False))
        in if argc < nextarg then ArgsExit 10 (''vam: No image file'' @ nl)
           else Args trc (argv_at argv nextarg))"

definition reset_vam :: "bool \<Rightarrow> vam" where
  "reset_vam trc =
     \<lparr>reg = replicate REGMAX 0, mem = (\<lambda>_. 0), pc = 0, z_flag = False, vam_clock = 0,
      trace_flag = trc, out = [], errs = [], rx = 0, ry = 0, offset = 0\<rparr>"

fun load_image :: "nat \<Rightarrow> u8 list \<Rightarrow> vam \<Rightarrow> unit res" where
  "load_image i [] s = Ok () s"
| "load_image i (b # bs) s =
     (if i < unat MEMMAX then load_image (i + 1) bs (s\<lparr>mem := (mem s)(i := b)\<rparr>) else Wild)"

definition init_system :: "(string \<Rightarrow> u8 list option) \<Rightarrow> bool \<Rightarrow> string option \<Rightarrow> unit res" where
  "init_system files trc image_file =
     (let s = reset_vam trc in
      case image_file of
        None \<Rightarrow> Wild
      | Some name \<Rightarrow>
          (case files name of
             None \<Rightarrow> Exit 10 (print (''vam: Couldn't open '' @ name @ nl) s)
           | Some bytes \<Rightarrow> load_image 0 bytes s))"

definition vam_main :: "nat \<Rightarrow> (string \<Rightarrow> u8 list option) \<Rightarrow> string list \<Rightarrow> unit res option" where
  "vam_main fuel files argv =
     (case read_args argv of
        ArgsExit n msg \<Rightarrow> Some (Exit n (print msg (reset_vam False)))
      | Args trc image_file \<Rightarrow>
          (case init_system files trc image_file of
             Ok _ s \<Rightarrow> vam_loop fuel s
           | r \<Rightarrow> Some r))"

end
