(* ===== verification/VAM_Exec.thy ===== *)
theory VAM_Exec
  imports VAM
begin

text \<open>
  What the instructions of the abstract machine mean, apart from their bytes: the instruction set
  as a datatype, its encoding, the effect of each instruction on registers, memory and program
  counter, the lemma that one turn of the interpreter loop has exactly that effect, and where the
  tracer's dumps are inside memory. Word accesses to memory are described by an interface that the
  code generator's proofs use.
\<close>

section \<open>Words in memory\<close>

definition word_bytes :: "u32 \<Rightarrow> u8 list" where
  "word_bytes w = [ucast (drop_bit 24 w), ucast (drop_bit 16 w), ucast (drop_bit 8 w), ucast w]"

definition or_bytes :: "u8 \<Rightarrow> u8 \<Rightarrow> u8 \<Rightarrow> u8 \<Rightarrow> u32" where
  "or_bytes a b c d =
     push_bit 8 (push_bit 8 (push_bit 8 (ucast a) OR ucast b) OR ucast c) OR ucast d"

definition add_bytes :: "u8 \<Rightarrow> u8 \<Rightarrow> u8 \<Rightarrow> u8 \<Rightarrow> u32" where
  "add_bytes a b c d =
     push_bit 8 (push_bit 8 (push_bit 8 (ucast a) + ucast b) + ucast c) + ucast d"

definition load_word :: "nat \<Rightarrow> (nat \<Rightarrow> u8) \<Rightarrow> u32" where
  "load_word a m = or_bytes (m a) (m (a + 1)) (m (a + 2)) (m (a + 3))"

definition store_word :: "nat \<Rightarrow> u32 \<Rightarrow> (nat \<Rightarrow> u8) \<Rightarrow> nat \<Rightarrow> u8" where
  "store_word a v m =
     m(a := ucast (drop_bit 24 v), a + 1 := ucast (drop_bit 16 v),
       a + 2 := ucast (drop_bit 8 v), a + 3 := ucast v)"

lemma less_8_cases:
  assumes "n < (8::nat)"
  shows "n \<in> {0, 1, 2, 3, 4, 5, 6, 7}"
  using less_16_cases [of n] assms by auto

lemma or_bytes_of_word:
  "or_bytes (ucast (drop_bit 24 w)) (ucast (drop_bit 16 w)) (ucast (drop_bit 8 w)) (ucast w) = w"
proof (rule bit_word_eqI)
  fix n assume "n < LENGTH(32)"
  then consider "n < 8" | "8 \<le> n" "n < 16" | "16 \<le> n" "n < 24" | "24 \<le> n" "n < 32" by fastforce
  then show "bit (or_bytes (ucast (drop_bit 24 w)) (ucast (drop_bit 16 w)) (ucast (drop_bit 8 w))
      (ucast w)) n = bit w n"
    by cases (auto simp: or_bytes_def bit_simps)
qed

lemma shift_add_or: "push_bit 8 t + (ucast (b::u8) :: u32) = push_bit 8 t OR ucast b"
proof -
  have "push_bit 8 t AND (ucast b :: u32) = 0"
    by (rule bit_word_eqI) (auto simp: bit_simps dest: bit_imp_le_length)
  then show ?thesis by (rule disjunctive_add_eq_or)
qed

lemma add_bytes_eq: "add_bytes a b c d = or_bytes a b c d"
  unfolding add_bytes_def or_bytes_def shift_add_or by (rule refl)

text \<open>A byte-addressed store read and written a word at a time.\<close>

locale word_memory =
  fixes load :: "nat \<Rightarrow> 'm \<Rightarrow> 'w" and store :: "nat \<Rightarrow> 'w \<Rightarrow> 'm \<Rightarrow> 'm"
  assumes load_store_same: "load a (store a v m) = v"
    and load_store_apart: "a + 4 \<le> b \<or> b + 4 \<le> a \<Longrightarrow> load b (store a v m) = load b m"
begin

fun store_all :: "(nat \<times> 'w) list \<Rightarrow> 'm \<Rightarrow> 'm" where
  "store_all [] m = m"
| "store_all ((a, v) # ws) m = store_all ws (store a v m)"

lemma load_store_all_apart:
  "\<forall>(a, v) \<in> set ws. a + 4 \<le> b \<or> b + 4 \<le> a \<Longrightarrow> load b (store_all ws m) = load b m"
proof (induction ws arbitrary: m)
  case (Cons w ws)
  obtain a v where "w = (a, v)" by (cases w)
  with Cons show ?case using load_store_apart [of a b v m] by auto
qed simp

lemma load_store_slots:
  assumes "load (base + 4 * i) m = x"
  shows "load (base + 4 * i) (store (base + 4 * j) v m) = (if i = j then v else x)"
proof (cases "i = j")
  case True
  then show ?thesis by (simp add: load_store_same)
next
  case False
  then have "base + 4 * j + 4 \<le> base + 4 * i \<or> base + 4 * i + 4 \<le> base + 4 * j" by linarith
  then show ?thesis using assms False by (simp add: load_store_apart)
qed

end

interpretation vmem: word_memory load_word store_word
proof
  fix a and v :: u32 and m
  show "load_word a (store_word a v m) = v"
    by (simp add: load_word_def store_word_def or_bytes_of_word)
next
  fix a b :: nat and v :: u32 and m
  assume "a + 4 \<le> b \<or> b + 4 \<le> a"
  then show "load_word b (store_word a v m) = load_word b m"
    by (auto simp: load_word_def store_word_def)
qed

section \<open>The instruction set\<close>

datatype instr =
    HALT | NOP | TRAP
  | ADD nat nat | SUB nat nat | MUL nat nat | DIV nat nat
  | STI nat u32 nat | LDI u32 nat nat | LDA u32 nat nat | LDR nat nat
  | BZE u32 | BNZ u32 | BRA u32 | BAL nat nat

definition regs_byte :: "nat \<Rightarrow> nat \<Rightarrow> u8" where
  "regs_byte x y = push_bit 4 (of_nat x) OR of_nat y"

fun encode :: "instr \<Rightarrow> u8 list" where
  "encode HALT = [I_HALT]"
| "encode NOP = [I_NOP]"
| "encode TRAP = [I_TRAP]"
| "encode (ADD x y) = [I_ADD, regs_byte x y]"
| "encode (SUB x y) = [I_SUB, regs_byte x y]"
| "encode (MUL x y) = [I_MUL, regs_byte x y]"
| "encode (DIV x y) = [I_DIV, regs_byte x y]"
| "encode (STI x d y) = I_STI # regs_byte x y # word_bytes d"
| "encode (LDI d x y) = I_LDI # regs_byte x y # word_bytes d"
| "encode (LDA d x y) = I_LDA # regs_byte x y # word_bytes d"
| "encode (LDR x y) = [I_LDR, regs_byte x y]"
| "encode (BZE d) = I_BZE # word_bytes d"
| "encode (BNZ d) = I_BNZ # word_bytes d"
| "encode (BRA d) = I_BRA # word_bytes d"
| "encode (BAL x y) = [I_BAL, regs_byte x y]"

fun regs_ok :: "instr \<Rightarrow> bool" where
  "regs_ok (ADD x y) = (x < 16 \<and> y < 16)"
| "regs_ok (SUB x y) = (x < 16 \<and> y < 16)"
| "regs_ok (MUL x y) = (x < 16 \<and> y < 16)"
| "regs_ok (DIV x y) = (x < 16 \<and> y < 16)"
| "regs_ok (STI x d y) = (x < 16 \<and> y < 16)"
| "regs_ok (LDI d x y) = (x < 16 \<and> y < 16)"
| "regs_ok (LDA d x y) = (x < 16 \<and> y < 16)"
| "regs_ok (LDR x y) = (x < 16 \<and> y < 16)"
| "regs_ok (BAL x y) = (x < 16 \<and> y < 16)"
| "regs_ok _ = True"

section \<open>Meaning\<close>

definition put :: "nat \<Rightarrow> u32 \<Rightarrow> vam \<Rightarrow> vam" where
  "put y v s = DO_Z v (set_reg y v s)"

definition taken :: "instr \<Rightarrow> vam \<Rightarrow> bool" where
  "taken i s = (case i of BZE _ \<Rightarrow> z_flag s | BNZ _ \<Rightarrow> \<not> z_flag s | _ \<Rightarrow> True)"

definition jump :: "u32 \<Rightarrow> instr \<Rightarrow> vam \<Rightarrow> vam option" where
  "jump d i s =
     (if \<not> taken i s then Some (tick 1 (s\<lparr>pc := pc s + 5\<rparr>))
      else if d + pc s + 2 < MEMMAX then Some (tick 2 (s\<lparr>pc := pc s + d\<rparr>)) else None)"

text \<open>
  The normal effect of an instruction at the program counter; \<open>None\<close> where the machine stops,
  traps or reports a bus error.
\<close>

fun exec :: "instr \<Rightarrow> vam \<Rightarrow> vam option" where
  "exec HALT s = None"
| "exec NOP s = None"
| "exec TRAP s = Some (tick 1 (DO_Z (get_reg 15 s)
     (print [char_of (unat (get_reg 15 s) mod 256)] (s\<lparr>pc := pc s + 1\<rparr>))))"
| "exec (ADD x y) s = Some (tick 1 (put y (get_reg x s + get_reg y s) (s\<lparr>pc := pc s + 2\<rparr>)))"
| "exec (SUB x y) s = Some (tick 1 (put y (get_reg x s - get_reg y s) (s\<lparr>pc := pc s + 2\<rparr>)))"
| "exec (MUL x y) s = Some (tick 5 (put y (get_reg x s * get_reg y s) (s\<lparr>pc := pc s + 2\<rparr>)))"
| "exec (DIV x y) s =
     (if get_reg y s = 0 then None
      else Some (tick 10 (put y (get_reg x s div get_reg y s) (s\<lparr>pc := pc s + 2\<rparr>))))"
| "exec (STI x d y) s =
     (let a = d + get_reg y s in
      if a \<le> MEMMAX - 4
      then Some (tick 2 (DO_Z (get_reg x s)
             (s\<lparr>pc := pc s + 6, mem := store_word (unat a) (get_reg x s) (mem s)\<rparr>)))
      else None)"
| "exec (LDI d x y) s =
     (let a = d + get_reg x s in
      if a \<le> MEMMAX - 4
      then Some (tick 2 (put y (load_word (unat a) (mem s)) (s\<lparr>pc := pc s + 6\<rparr>)))
      else None)"
| "exec (LDA d x y) s = Some (tick 2 (put y (d + get_reg x s) (s\<lparr>pc := pc s + 6\<rparr>)))"
| "exec (LDR x y) s = Some (tick 1 (put y (get_reg x s) (s\<lparr>pc := pc s + 2\<rparr>)))"
| "exec (BZE d) s = jump d (BZE d) s"
| "exec (BNZ d) s = jump d (BNZ d) s"
| "exec (BRA d) s = jump d (BRA d) s"
| "exec (BAL x y) s =
     (if get_reg x s < MEMMAX
      then Some (tick 2 (set_reg y (pc s + 2) (s\<lparr>pc := get_reg x s\<rparr>))) else None)"

text \<open>The interpreter's locals remember the operands of the last instruction that had them.\<close>

fun locals :: "instr \<Rightarrow> vam \<Rightarrow> vam" where
  "locals (ADD x y) s = s\<lparr>rx := x, ry := y\<rparr>"
| "locals (SUB x y) s = s\<lparr>rx := x, ry := y\<rparr>"
| "locals (MUL x y) s = s\<lparr>rx := x, ry := y\<rparr>"
| "locals (DIV x y) s = s\<lparr>rx := x, ry := y\<rparr>"
| "locals (STI x d y) s = s\<lparr>rx := x, ry := y, offset := d\<rparr>"
| "locals (LDI d x y) s = s\<lparr>rx := x, ry := y, offset := d\<rparr>"
| "locals (LDA d x y) s = s\<lparr>rx := x, ry := y, offset := d\<rparr>"
| "locals (LDR x y) s = s\<lparr>rx := x, ry := y\<rparr>"
| "locals (BZE d) s = s\<lparr>offset := d\<rparr>"
| "locals (BNZ d) s = s\<lparr>offset := d\<rparr>"
| "locals (BRA d) s = s\<lparr>offset := d\<rparr>"
| "locals (BAL x y) s = s\<lparr>rx := x, ry := y\<rparr>"
| "locals _ s = s"

section \<open>Fetching what was encoded\<close>

fun bytes_at :: "nat \<Rightarrow> u8 list \<Rightarrow> (nat \<Rightarrow> u8) \<Rightarrow> bool" where
  "bytes_at a [] m = (a \<le> 65536)"
| "bytes_at a (b # bs) m = (a < 65536 \<and> m a = b \<and> bytes_at (a + 1) bs m)"

lemma MEMMAX_nat [bounds]: "a < MEMMAX \<longleftrightarrow> unat a < 65536"
  by (simp add: MEMMAX_def word_less_nat_alt)

lemma fetch_at [seq_simps]:
  assumes "bytes_at (unat (pc s)) (b # bs) (mem s)"
  shows "fetch s = Ok b (s\<lparr>pc := pc s + 1\<rparr>)"
  using assms by (simp add: fetch_def i_pc_def rd_mem_def bounds)

lemma bytes_at_next:
  assumes "bytes_at (unat (pc s)) (b # bs) (mem s)"
  shows "bytes_at (unat (pc s + 1)) bs (mem s)"
  using assms by (simp add: unat_word_ariths)

lemma nibble_bits:
  assumes "x < (16::nat)" and "bit x n"
  shows "n < 4"
proof (rule ccontr)
  assume "\<not> n < 4"
  then have "4 \<le> n" by simp
  then have "(2::nat) ^ 4 \<le> 2 ^ n" by (rule power_increasing) simp
  with assms(1) have "x < 2 ^ n" by simp
  with assms(2) show False by (simp add: bit_iff_odd)
qed

lemma regs_byte_high:
  assumes "x < 16" and "y < 16"
  shows "unat (drop_bit 4 (regs_byte x y)) = x"
proof -
  have "drop_bit 4 (regs_byte x y) = of_nat x"
    by (rule bit_word_eqI)
       (use assms in \<open>auto simp: regs_byte_def bit_simps dest: nibble_bits\<close>)
  with assms show ?thesis by (simp add: unat_of_nat)
qed

lemma regs_byte_low:
  assumes "x < 16" and "y < 16"
  shows "unat (regs_byte x y AND 0x0f) = y"
proof -
  have mask: "(0x0f :: u8) = mask 4" by (simp add: mask_eq_decr_exp)
  have "regs_byte x y AND 0x0f = of_nat y"
    unfolding mask by (rule bit_word_eqI)
       (use assms in \<open>auto simp: regs_byte_def bit_simps not_le dest: nibble_bits\<close>)
  with assms show ?thesis by (simp add: unat_of_nat)
qed

lemma fetch_regs_at [seq_simps]:
  assumes "bytes_at (unat (pc s)) (regs_byte x y # bs) (mem s)" and "x < 16" and "y < 16"
  shows "fetch_regs s = Ok () (s\<lparr>rx := x, ry := y, pc := pc s + 1\<rparr>)"
proof -
  have "rd_mem (pc s) s = Ok (regs_byte x y) s"
    using assms(1) by (simp add: rd_mem_def bounds)
  moreover have "fetch (s\<lparr>rx := x\<rparr>) = Ok (regs_byte x y) (s\<lparr>rx := x, pc := pc s + 1\<rparr>)"
    using fetch_at [of "s\<lparr>rx := x\<rparr>"] assms(1) by (simp del: bytes_at.simps)
  ultimately show ?thesis
    using assms(2,3) by (simp add: fetch_regs_def regs_byte_high regs_byte_low)
qed

lemma bytes_at_nth:
  "bytes_at a bs m \<longleftrightarrow> a + length bs \<le> 65536 \<and> (\<forall>i < length bs. m (a + i) = bs ! i)"
  by (induction bs arbitrary: a) (auto simp: All_less_Suc2)

lemma bytes_at_append:
  "bytes_at a (bs @ cs) m \<longleftrightarrow> bytes_at a bs m \<and> bytes_at (a + length bs) cs m"
proof (induction bs arbitrary: a)
  case Nil
  then show ?case by (cases cs) auto
qed simp

lemma fetch_or_at:
  assumes "bytes_at (unat (pc s)) (b # bs) (mem s)"
  shows "fetch_or s = Ok () (s\<lparr>pc := pc s + 1, offset := push_bit 8 (offset s) OR ucast b\<rparr>)"
  using fetch_at [OF assms] by (simp add: fetch_or_def)

lemma fetch_offset_at:
  assumes "bytes_at (unat (pc s)) (word_bytes w @ bs) (mem s)"
  shows "fetch_offset s = Ok () (s\<lparr>pc := pc s + 4, offset := w\<rparr>)"
proof -
  obtain a b c d where w: "word_bytes w = [a, b, c, d]" "or_bytes a b c d = w"
    by (simp add: word_bytes_def or_bytes_of_word)
  let ?n = "\<lambda>t k. s\<lparr>pc := pc s + k, offset := t\<rparr>"
  have at: "bytes_at (unat (pc s)) (a # b # c # d # bs) (mem s)"
    "bytes_at (unat (pc s + 1)) (b # c # d # bs) (mem s)"
    "bytes_at (unat (pc s + 1 + 1)) (c # d # bs) (mem s)"
    "bytes_at (unat (pc s + 1 + 1 + 1)) (d # bs) (mem s)"
    using assms bytes_at_next [of s a "b # c # d # bs"]
      bytes_at_next [of "s\<lparr>pc := pc s + 1\<rparr>" b "c # d # bs"]
      bytes_at_next [of "s\<lparr>pc := pc s + 1 + 1\<rparr>" c "d # bs"]
    by (simp_all add: w del: bytes_at.simps)
  have f: "fetch s = Ok a (s\<lparr>pc := pc s + 1\<rparr>)"
    "fetch_or (?n t 1) = Ok () (?n (push_bit 8 t OR ucast b) 2)"
    "fetch_or (?n t 2) = Ok () (?n (push_bit 8 t OR ucast c) 3)"
    "fetch_or (?n t 3) = Ok () (?n (push_bit 8 t OR ucast d) 4)" for t
    using fetch_at [OF at(1)] fetch_or_at [of "?n t 1" b "c # d # bs"]
      fetch_or_at [of "?n t 2" c "d # bs"] fetch_or_at [of "?n t 3" d bs] at
    by (simp_all add: add.assoc del: bytes_at.simps)
  show ?thesis
    using f w(2) by (simp add: fetch_offset_def or_bytes_def)
qed

section \<open>One turn of the loop\<close>

lemma ucast_and_ff: "(ucast ((w::u32) AND 0xff) :: u8) = ucast w"
proof (rule bit_word_eqI)
  fix n assume "n < LENGTH(8)"
  then show "bit (ucast (w AND 0xff) :: u8) n = bit (ucast w :: u8) n"
    using less_8_cases [of n] by (auto simp: bit_simps)
qed

lemma word_slot [bounds]:
  assumes "a \<le> MEMMAX - 4"
  shows "\<not> a + 4 > MEMMAX" and "a < MEMMAX" and "a + 1 < MEMMAX" and "a + 2 < MEMMAX"
    and "a + 3 < MEMMAX" and "unat (a + 1) = unat a + 1" and "unat (a + 2) = unat a + 2"
    and "unat (a + 3) = unat a + 3"
  using assms by (simp_all add: MEMMAX_def word_le_nat_alt word_less_nat_alt unat_word_ariths)

abbreviation fetched :: "nat \<Rightarrow> nat \<Rightarrow> vam \<Rightarrow> vam" where
  "fetched x y s \<equiv> s\<lparr>pc := pc s + 1, rx := x, ry := y\<rparr>"

abbreviation fetched_off :: "nat \<Rightarrow> nat \<Rightarrow> u32 \<Rightarrow> vam \<Rightarrow> vam" where
  "fetched_off x y d s \<equiv> s\<lparr>pc := pc s + 5, rx := x, ry := y, offset := d\<rparr>"

lemma fetch_operands:
  assumes "bytes_at (unat (pc s)) (regs_byte x y # word_bytes d) (mem s)" and "x < 16" and "y < 16"
  shows "fetch_regs s = Ok () (fetched x y s)"
    and "fetch_offset (fetched x y s) = Ok () (fetched_off x y d s)"
proof -
  show "fetch_regs s = Ok () (fetched x y s)"
    using fetch_regs_at [OF assms] by simp
  have "bytes_at (unat (pc s + 1)) (word_bytes d @ []) (mem s)"
    using bytes_at_next [OF assms(1)] by simp
  then show "fetch_offset (fetched x y s) = Ok () (fetched_off x y d s)"
    using fetch_offset_at [of "fetched x y s" d "[]"] by (simp add: add.assoc)
qed

lemma op_sti_exec:
  assumes "bytes_at (unat (pc s)) (regs_byte x y # word_bytes d) (mem s)" and "x < 16" and "y < 16"
    and "d + get_reg y s \<le> MEMMAX - 4"
  shows "op_sti o_pc s = Ok () (tick 2 (DO_Z (get_reg x s) ((fetched_off x y d s)
     \<lparr>mem := store_word (unat (d + get_reg y s)) (get_reg x s) (mem s)\<rparr>)))"
  using assms(4) fetch_operands [OF assms(1-3)] word_slot [OF assms(4)]
  by (simp add: op_sti_def wr_mem_def store_word_def get_reg_def ucast_and_ff numeral_eq_Suc)

lemma op_ldi_exec:
  assumes "bytes_at (unat (pc s)) (regs_byte x y # word_bytes d) (mem s)" and "x < 16" and "y < 16"
    and "d + get_reg x s \<le> MEMMAX - 4"
  shows "op_ldi_lda o_pc I_LDI s =
     Ok () (tick 2 (put y (load_word (unat (d + get_reg x s)) (mem s)) (fetched_off x y d s)))"
  using assms(4) fetch_operands [OF assms(1-3)] word_slot [OF assms(4)]
  by (simp add: op_ldi_lda_def rd_mem_def load_or_def load_word_def get_reg_def set_y_def put_def
      opcodes add_bytes_eq [symmetric] add_bytes_def)

lemma op_lda_exec:
  assumes "bytes_at (unat (pc s)) (regs_byte x y # word_bytes d) (mem s)" and "x < 16" and "y < 16"
  shows "op_ldi_lda o_pc I_LDA s = Ok () (tick 2 (put y (d + get_reg x s) (fetched_off x y d s)))"
  using fetch_operands [OF assms(1-3)]
  by (simp add: op_ldi_lda_def get_reg_def set_y_def put_def)

lemma op_branch_exec:
  assumes "bytes_at (unat (pc s)) (word_bytes d) (mem s)" and "jump d i (s\<lparr>pc := pc s - 1\<rparr>) = Some s'"
    and "(op, i) \<in> {(I_BZE, BZE d), (I_BNZ, BNZ d), (I_BRA, BRA d)}"
  shows "op_branch o_pc op s = Ok () (s'\<lparr>offset := d\<rparr>)"
proof -
  have f: "fetch_offset s = Ok () (s\<lparr>pc := pc s + 4, offset := d\<rparr>)"
    using fetch_offset_at [of s d "[]"] assms(1) by simp
  have arith: "d + (pc s + 4) - 3 = d + (pc s - 1) + 2" "pc s + 4 + (d - 5) = pc s - 1 + d"
    "pc s - 1 + 5 = pc s + 4"
    by (simp_all add: algebra_simps)
  show ?thesis
    using f assms(2,3) unfolding op_branch_def jump_def taken_def
    by (auto simp: opcodes tick_def arith not_le [symmetric] split: if_splits)
qed

lemma vam_step_fetch:
  assumes "bytes_at (unat (pc s)) (op # bs) (mem s)"
    and "vam_switch (pc s) op (s\<lparr>pc := pc s + 1\<rparr>) = Ok () s'"
  shows "vam_step s = (if trace_flag s' then trace (pc s) op (rx s') (ry s') (offset s') s' else Ok () s')"
  using fetch_at [OF assms(1)] assms(2) by (simp add: vam_step_def)

lemma vam_switch_exec:
  assumes "bytes_at (unat (pc s)) (op # bs) (mem s)" and "encode i = op # bs" and "regs_ok i"
    and "exec i s = Some s'"
  shows "vam_switch (pc s) op (s\<lparr>pc := pc s + 1\<rparr>) = Ok () (locals i s')"
proof -
  let ?s = "s\<lparr>pc := pc s + 1\<rparr>"
  have bs: "bytes_at (unat (pc ?s)) bs (mem ?s)"
    using bytes_at_next [OF assms(1)] by simp
  have regs: "fetch_regs ?s = Ok () (s\<lparr>pc := pc s + 2, rx := x, ry := y\<rparr>)"
    if "bs = [regs_byte x y]" "x < 16" "y < 16" for x y
    using fetch_regs_at [of ?s x y "[]"] bs that by (simp add: add.assoc)
  note alu = regs op_add_def op_sub_def op_mul_def op_div_def op_ldr_def op_bal_def set_y_def
    put_def get_reg_def set_reg_def DO_Z_def tick_def Let_def
  show ?thesis
  proof (cases i)
    case (STI x d y)
    with assms bs op_sti_exec [of ?s x y d "pc s"] show ?thesis
      by (auto simp: vam_switch_def opcodes get_reg_def DO_Z_def tick_def Let_def add.assoc
          split: if_splits)
  next
    case (LDI d x y)
    with assms bs op_ldi_exec [of ?s x y d "pc s"] show ?thesis
      by (auto simp: vam_switch_def opcodes get_reg_def put_def set_reg_def DO_Z_def tick_def Let_def
          add.assoc split: if_splits)
  next
    case (LDA d x y)
    with assms bs op_lda_exec [of ?s x y d "pc s"] show ?thesis
      by (auto simp: vam_switch_def opcodes get_reg_def put_def set_reg_def DO_Z_def tick_def Let_def
          add.assoc split: if_splits)
  next
    case (BZE d)
    with assms bs op_branch_exec [of ?s d i s' I_BZE "pc s"] show ?thesis
      by (simp add: vam_switch_def opcodes)
  next
    case (BNZ d)
    with assms bs op_branch_exec [of ?s d i s' I_BNZ "pc s"] show ?thesis
      by (simp add: vam_switch_def opcodes)
  next
    case (BRA d)
    with assms bs op_branch_exec [of ?s d i s' I_BRA "pc s"] show ?thesis
      by (simp add: vam_switch_def opcodes)
  qed (use assms in \<open>auto simp: vam_switch_def opcodes op_trap_def alu print_def
       split: if_splits\<close>)
qed

definition step_result :: "u32 \<Rightarrow> u8 \<Rightarrow> vam \<Rightarrow> unit res" where
  "step_result o_pc op s =
     (if trace_flag s then trace o_pc op (rx s) (ry s) (offset s) s else Ok () s)"

lemma step_exec:
  assumes "bytes_at (unat (pc s)) (encode i) (mem s)" and "regs_ok i" and "exec i s = Some s'"
  shows "vam_step s = step_result (pc s) (hd (encode i)) (locals i s')"
proof -
  obtain op bs where "encode i = op # bs" by (cases i) simp_all
  with vam_switch_exec [of s op bs i s'] vam_step_fetch [of s op bs "locals i s'"] assms
  show ?thesis by (simp add: step_result_def)
qed

section \<open>The tracer\<close>

lemma dump_word_defined:
  "(\<exists>t. dump_word b s = Some t) \<longleftrightarrow>
     b < MEMMAX \<and> b + 1 < MEMMAX \<and> b + 2 < MEMMAX \<and> b + 3 < MEMMAX"
  by (simp add: dump_word_def)

lemma dump_in_memory:
  assumes "b \<le> MEMMAX - 48"
  shows "\<exists>t. dump b e s = Some t"
proof -
  have "\<exists>t. dump_word (b + k) s = Some t" if "k \<le> 44" for k
    using assms that unfolding dump_word_defined
    by (simp add: MEMMAX_def word_le_nat_alt word_less_nat_alt unat_word_ariths)
  then have w: "\<exists>t. dump_word (b + of_nat k) s = Some t" if "k \<le> 44" for k :: nat
    using that by (simp add: word_le_nat_alt unat_of_nat)
  show ?thesis
    using w [of 0] w [of 4] w [of 8] w [of 12] w [of 16] w [of 20] w [of 24] w [of 28] w [of 32]
      w [of 36] w [of 40] w [of 44]
    by (auto simp: dump_def dump_row_def add.assoc)
qed

lemma dump_outside:
  assumes "\<not> b < MEMMAX \<or> \<not> b + 32 < MEMMAX"
  shows "dump b e s = None"
  using assms dump_word_defined [of b s] dump_word_defined [of "b + 32" s]
  by (auto simp: dump_def dump_row_def bind_eq_None_conv)

lemma low_nibble_cleared: "unat ((a::u32) AND 0xfffffff0) = unat a - unat a mod 16"
proof -
  have mask: "(0xfffffff0 :: u32) = NOT (mask 4)" by (simp add: mask_eq_decr_exp)
  have "a AND NOT (mask 4) = push_bit 4 (drop_bit 4 a)"
    by (rule bit_word_eqI) (simp only: bit_and_iff bit_not_iff bit_mask_iff bit_push_bit_iff
        bit_drop_bit_eq comp_apply possible_bit_word, auto)
  then have "a AND 0xfffffff0 = push_bit 4 (drop_bit 4 a)" by (simp only: mask)
  moreover have "take_bit 32 (unat a) = unat a"
    using unsigned_less [of a] by (intro take_bit_nat_eq_self) simp
  then have "unat (push_bit 4 (drop_bit 4 a)) = take_bit 32 (unat a div 16 * 16)"
    by (simp add: unsigned_push_bit_eq unsigned_drop_bit_eq)
       (simp add: push_bit_eq_mult drop_bit_eq_div)
  moreover have "unat a div 16 * 16 < 2 ^ 32"
  proof -
    have "unat a < 2 ^ LENGTH(32)" by (rule unsigned_less)
    moreover have "unat a div 16 * 16 \<le> unat a" by simp
    ultimately show ?thesis by simp
  qed
  ultimately show ?thesis by (simp add: minus_mod_eq_div_mult take_bit_nat_eq_self)
qed

lemma dump_base_defined: "(\<exists>t. dump (dump_base a) e s = Some t) \<longleftrightarrow> a < MEMMAX - 32"
proof -
  consider "unat a < 16" | "16 \<le> unat a" "unat a < 65504" | "65504 \<le> unat a" by linarith
  then show ?thesis
  proof cases
    case 1
    then have "dump_base a \<le> MEMMAX - 48"
      by (simp add: dump_base_def word_less_nat_alt)
    with 1 dump_in_memory show ?thesis by (simp add: word_less_nat_alt MEMMAX_def)
  next
    case 2
    then have "dump_base a = a AND 0xfffffff0"
      by (simp add: dump_base_def word_less_nat_alt MEMMAX_def unat_word_ariths)
    moreover have "unat a - unat a mod 16 \<le> 65488" using 2 by presburger
    ultimately have "dump_base a \<le> MEMMAX - 48"
      by (simp add: word_le_nat_alt low_nibble_cleared MEMMAX_def)
    with 2 dump_in_memory show ?thesis by (simp add: word_less_nat_alt MEMMAX_def)
  next
    case 3
    have "dump (dump_base a) e s = None"
    proof (cases "a + 32 < MEMMAX")
      case True
      have "2 ^ 32 \<le> unat a + 32"
      proof (rule ccontr)
        assume "\<not> 2 ^ 32 \<le> unat a + 32"
        then have "unat (a + 32) = unat a + 32" by (simp add: unat_word_ariths)
        with True 3 show False by (simp add: word_less_nat_alt MEMMAX_def)
      qed
      moreover have "unat a mod 16 < 16" by simp
      ultimately have "\<not> a AND 0xfffffff0 < MEMMAX"
        by (simp add: word_less_nat_alt low_nibble_cleared MEMMAX_def)
      with 3 True show ?thesis
        by (intro dump_outside) (simp add: dump_base_def word_less_nat_alt)
    next
      case False
      with 3 have "dump_base a = MEMMAX - 32" by (simp add: dump_base_def word_less_nat_alt)
      then show ?thesis by (intro dump_outside) simp
    qed
    with 3 show ?thesis by (simp add: word_less_nat_alt MEMMAX_def)
  qed
qed

lemma trace_lemma:
  "if pc s < MEMMAX - 32 \<and> get_reg 1 s < MEMMAX - 32
   then \<exists>str. trace o_pc op x y off s = Ok () (print str s)
   else trace o_pc op x y off s = Wild"
proof -
  have "(\<exists>t. dump (dump_base (pc s)) (nl @ nl) s = Some t) = (pc s < MEMMAX - 32)"
    and "(\<exists>t. dump (dump_base (get_reg 1 s)) (nl @ nl @ nl) s = Some t) = (get_reg 1 s < MEMMAX - 32)"
    by (rule dump_base_defined)+
  then show ?thesis
    by (auto simp: trace_def Let_def split: option.splits)
qed

end
