(* ===== verification/VAM_Run.thy ===== *)
theory VAM_Run
  imports VAM_Exec "HOL-Library.Sublist"
begin

text \<open>
  Runs of the abstract machine: what one turn of the loop does for every instruction, faults
  included; the machine with and without its trace flag; whole runs of \<open>main\<close> on an image; and how any
  run can end.
\<close>

section \<open>Every instruction, faults included\<close>

text \<open>
  What an instruction does to the machine: go on; print the state and go on (after some more ticks);
  stop; report a bus error and stop; or touch bytes outside memory, which happens when the end of a
  word access wraps around the address space and so passes the check.
\<close>

datatype effect = Goes vam | Reports vam u32 | Halts vam | Faults vam | Stray

definition effect :: "instr \<Rightarrow> vam \<Rightarrow> effect" where
  "effect i s =
     (case exec i s of Some t \<Rightarrow> Goes t
      | None \<Rightarrow>
         (case i of
            HALT \<Rightarrow> Halts (tick 1 (s\<lparr>pc := pc s + 1\<rparr>))
          | NOP \<Rightarrow> Reports (tick 1 (s\<lparr>pc := pc s + 1\<rparr>)) 0
          | DIV x y \<Rightarrow>
              Reports (put y 0 (print (''vam: Divide by zero trap'' @ nl) (s\<lparr>pc := pc s + 2\<rparr>))) 10
          | STI x d y \<Rightarrow> if d + get_reg y s + 4 > MEMMAX then Faults (s\<lparr>pc := pc s + 6\<rparr>) else Stray
          | LDI d x y \<Rightarrow> if d + get_reg x s + 4 > MEMMAX then Faults (s\<lparr>pc := pc s + 6\<rparr>) else Stray
          | BAL x y \<Rightarrow> Faults (s\<lparr>pc := pc s + 2\<rparr>)
          | _ \<Rightarrow> Faults (s\<lparr>pc := pc s + 5\<rparr>)))"

text \<open>
  How the loop carries an effect out. The state is printed with the operands the instruction had.
\<close>

definition show_instr :: "u32 \<Rightarrow> instr \<Rightarrow> vam \<Rightarrow> unit res" where
  "show_instr o_pc i s = trace o_pc (hd (encode i)) (rx s) (ry s) (offset s) s"

definition carry_out :: "u32 \<Rightarrow> instr \<Rightarrow> effect \<Rightarrow> unit res" where
  "carry_out o_pc i e =
     (case e of
        Goes t \<Rightarrow> step_result o_pc (hd (encode i)) (locals i t)
      | Reports t n \<Rightarrow>
          thn (show_instr o_pc i (locals i t)) (\<lambda>_ t. step_result o_pc (hd (encode i)) (tick n t))
      | Halts t \<Rightarrow> thn (show_instr o_pc i t) (\<lambda>_ t. Exit 0 t)
      | Faults t \<Rightarrow>
          thn (show_instr o_pc i (eprint (''vam: bus error'' @ nl) (locals i t))) (\<lambda>_ t. Exit 10 t)
      | Stray \<Rightarrow> Wild)"

lemma step_switch:
  assumes "bytes_at (unat (pc s)) (encode i) (mem s)"
  shows "vam_step s = thn (vam_switch (pc s) (hd (encode i)) (s\<lparr>pc := pc s + 1\<rparr>))
           (\<lambda>_ t. step_result (pc s) (hd (encode i)) t)"
proof -
  obtain op bs where "encode i = op # bs" by (cases i) simp_all
  with fetch_at [of s op bs] assms show ?thesis
    by (simp add: vam_step_def step_result_def Let_def)
qed

lemma tick_0 [simp]: "tick 0 s = s"
  by (simp add: tick_def)

lemma wrapped_slot:
  assumes "\<not> a \<le> MEMMAX - 4" and "\<not> a + 4 > MEMMAX"
  shows "\<not> a < MEMMAX"
proof
  assume "a < MEMMAX"
  then have "unat (a + 4) = unat a + 4" by (simp add: MEMMAX_def word_less_nat_alt unat_word_ariths)
  with assms show False
    by (simp add: MEMMAX_def word_le_nat_alt word_less_nat_alt)
qed

lemma branch_faults:
  assumes "bytes_at (unat (pc s + 1)) (word_bytes d) (mem s)" and "jump d i s = None"
    and "(op, i) \<in> {(I_BZE, BZE d), (I_BNZ, BNZ d), (I_BRA, BRA d)}"
  shows "op_branch o_pc op (s\<lparr>pc := pc s + 1\<rparr>) =
    bus_error o_pc op (s\<lparr>pc := pc s + 5, offset := d\<rparr>)"
proof -
  have f: "fetch_offset (s\<lparr>pc := pc s + 1\<rparr>) = Ok () (s\<lparr>pc := pc s + 5, offset := d\<rparr>)"
    using fetch_offset_at [of "s\<lparr>pc := pc s + 1\<rparr>" d "[]"] assms(1) by (simp add: add.assoc)
  have "d + (pc s + 5) - 3 = d + pc s + 2" by simp
  with f assms(2,3) show ?thesis
    unfolding op_branch_def jump_def taken_def by (auto simp: opcodes not_less ac_simps split: if_splits)
qed

lemma switch_faults:
  assumes "bytes_at (unat (pc s)) (encode i) (mem s)" and "regs_ok i" and "effect i s = Faults t"
  shows "vam_switch (pc s) (hd (encode i)) (s\<lparr>pc := pc s + 1\<rparr>) =
    thn (show_instr (pc s) i (eprint (''vam: bus error'' @ nl) (locals i t))) (\<lambda>_ t. Exit 10 t)"
proof -
  obtain op bs where enc: "encode i = op # bs" by (cases i) simp_all
  have bs: "bytes_at (unat (pc s + 1)) bs (mem s)"
    using bytes_at_next [of s op bs] assms(1) enc by simp
  note defs = effect_def bus_error_def show_instr_def add.assoc get_reg_def eprint_def
  show ?thesis
  proof (cases i)
    case (STI x d y)
    with assms bs enc fetch_operands [of "s\<lparr>pc := pc s + 1\<rparr>" x y d] show ?thesis
      by (auto simp: vam_switch_def opcodes op_sti_def defs Let_def split: if_splits)
  next
    case (LDI d x y)
    with assms bs enc fetch_operands [of "s\<lparr>pc := pc s + 1\<rparr>" x y d] show ?thesis
      by (auto simp: vam_switch_def opcodes op_ldi_lda_def defs Let_def split: if_splits)
  next
    case (BAL x y)
    have "fetch_regs (s\<lparr>pc := pc s + 1\<rparr>) = Ok () (s\<lparr>pc := pc s + 2, rx := x, ry := y\<rparr>)"
      using fetch_regs_at [of "s\<lparr>pc := pc s + 1\<rparr>" x y "[]"] bs enc assms(2) BAL
      by (auto simp: add.assoc)
    with BAL assms enc show ?thesis
      by (auto simp del: bytes_at.simps simp: vam_switch_def opcodes op_bal_def defs not_less Let_def split: if_splits)
  next
    case (BZE d)
    with assms bs enc branch_faults [of s d i op "pc s"] show ?thesis
      by (auto simp: vam_switch_def opcodes defs split: if_splits option.splits)
  next
    case (BNZ d)
    with assms bs enc branch_faults [of s d i op "pc s"] show ?thesis
      by (auto simp: vam_switch_def opcodes defs split: if_splits option.splits)
  next
    case (BRA d)
    with assms bs enc branch_faults [of s d i op "pc s"] show ?thesis
      by (auto simp: vam_switch_def opcodes defs split: if_splits option.splits)
  qed (use assms in \<open>auto simp: effect_def split: if_splits\<close>)
qed

lemma switch_stray:
  assumes "bytes_at (unat (pc s)) (encode i) (mem s)" and "regs_ok i" and "effect i s = Stray"
  shows "vam_switch (pc s) (hd (encode i)) (s\<lparr>pc := pc s + 1\<rparr>) = Wild"
proof -
  obtain op bs where enc: "encode i = op # bs" by (cases i) simp_all
  have bs: "bytes_at (unat (pc s + 1)) bs (mem s)"
    using bytes_at_next [of s op bs] assms(1) enc by simp
  show ?thesis
  proof (cases i)
    case (STI x d y)
    with assms bs enc fetch_operands [of "s\<lparr>pc := pc s + 1\<rparr>" x y d]
      wrapped_slot [of "d + get_reg y s"] show ?thesis
      by (simp add: effect_def vam_switch_def opcodes op_sti_def wr_mem_def get_reg_def Let_def
          split: if_splits)
  next
    case (LDI d x y)
    with assms bs enc fetch_operands [of "s\<lparr>pc := pc s + 1\<rparr>" x y d]
      wrapped_slot [of "d + get_reg x s"] show ?thesis
      by (simp add: effect_def vam_switch_def opcodes op_ldi_lda_def rd_mem_def get_reg_def Let_def
          split: if_splits)
  qed (use assms in \<open>auto simp: effect_def split: if_splits option.splits\<close>)
qed

lemma switch_reports:
  assumes "bytes_at (unat (pc s)) (encode i) (mem s)" and "regs_ok i" and "effect i s = Reports t n"
  shows "vam_switch (pc s) (hd (encode i)) (s\<lparr>pc := pc s + 1\<rparr>) =
    thn (show_instr (pc s) i (locals i t)) (\<lambda>_ t. Ok () (tick n t))"
proof -
  obtain op bs where enc: "encode i = op # bs" by (cases i) simp_all
  have bs: "bytes_at (unat (pc s + 1)) bs (mem s)"
    using bytes_at_next [of s op bs] assms(1) enc by simp
  show ?thesis
  proof (cases i)
    case NOP
    have id: "thn r Ok = r" for r :: "unit res" by (cases r) auto
    from NOP assms show ?thesis
      by (auto simp: effect_def vam_switch_def opcodes show_instr_def tick_def id)
  next
    case (DIV x y)
    with assms bs enc fetch_regs_at [of "s\<lparr>pc := pc s + 1\<rparr>" x y "[]"] show ?thesis
      by (cases s) (auto simp: effect_def vam_switch_def opcodes op_div_def show_instr_def get_reg_def Let_def
          put_def set_y_def set_reg_def DO_Z_def print_def add.assoc split: if_splits)
  qed (use assms in \<open>auto simp: effect_def split: if_splits option.splits\<close>)
qed

lemma vam_step_effect_lemma:
  assumes "bytes_at (unat (pc s)) (encode i) (mem s)" and "regs_ok i"
  shows "vam_step s = carry_out (pc s) i (effect i s)"
proof (cases "effect i s")
  case (Goes t)
  then have "exec i s = Some t"
    by (auto simp: effect_def split: option.splits instr.splits if_splits)
  with Goes step_exec [OF assms] show ?thesis by (simp add: carry_out_def)
next
  case (Reports t n)
  have "thn (thn r (\<lambda>_ t. Ok () (tick n t))) f = thn r (\<lambda>_ t. f () (tick n t))" for r and f :: "unit \<Rightarrow> vam \<Rightarrow> unit res"
    by (cases r) auto
  with step_switch [OF assms(1)] switch_reports [OF assms Reports] Reports show ?thesis
    by (simp add: carry_out_def)
next
  case (Halts t)
  then have "i = HALT" and "t = tick 1 (s\<lparr>pc := pc s + 1\<rparr>)"
    by (auto simp: effect_def split: option.splits instr.splits if_splits)
  moreover have "thn (thn r (\<lambda>_ t. Exit n t)) f = thn r (\<lambda>_ t. Exit n t)" for r :: "unit res" and n and f :: "unit \<Rightarrow> vam \<Rightarrow> unit res"
    by (cases r) auto
  ultimately show ?thesis using step_switch [OF assms(1)] Halts
    by (simp add: carry_out_def vam_switch_def show_instr_def tick_def)
next
  case (Faults t)
  have "thn (thn r (\<lambda>_ t. Exit n t)) f = thn r (\<lambda>_ t. Exit n t)" for r :: "unit res" and n and f :: "unit \<Rightarrow> vam \<Rightarrow> unit res"
    by (cases r) auto
  with step_switch [OF assms(1)] switch_faults [OF assms Faults] Faults show ?thesis
    by (simp add: carry_out_def)
next
  case Stray
  with step_switch [OF assms(1)] switch_stray [OF assms Stray] show ?thesis
    by (simp add: carry_out_def)
qed

text \<open>C7: One turn of the interpreter loop on any encoded instruction in any state does what the
  instruction set says of it: registers, zero flag, memory, program counter, clock and output change
  as the instruction says and nothing else does but the loop's locals. NOP and a division by zero
  print the state in between, HALT prints it and leaves with code 0, an address or a branch outside
  memory reports a bus error and leaves with code 10, and, the dumps of those prints apart, an access
  whose end wraps around the address space is the only undefined one; with tracing on, the state is printed behind every
  instruction that goes on.\<close>

theorem vam_step_effect:
  assumes "bytes_at (unat (pc s)) (encode i) (mem s)" and "regs_ok i"
  shows "vam_step s = carry_out (pc s) i (effect i s)"
  using assms by (rule vam_step_effect_lemma)

theorem vam_step_effect_witness:
  "let s = (reset_vam False)\<lparr>mem := (\<lambda>_. 0)(0 := I_LDA, 1 := 0x2f, 5 := 65), reg := replicate 16 1\<rparr>
   in vam_step s = Ok () (locals (LDA 65 2 15) (tick 2 (put 15 66 (s\<lparr>pc := 6\<rparr>))))"
proof -
  let ?s = "(reset_vam False)\<lparr>mem := (\<lambda>_. 0)(0 := I_LDA, 1 := 0x2f, 5 := 65), reg := replicate 16 1\<rparr>"
  have "vam_step ?s = carry_out (pc ?s) (LDA 65 2 15) (effect (LDA 65 2 15) ?s)"
  proof (rule vam_step_effect)
    show "bytes_at (unat (pc ?s)) (encode (LDA 65 2 15)) (mem ?s)"
      by (simp add: reset_vam_def word_bytes_def regs_byte_def)
  qed simp
  then show ?thesis
    by (simp add: carry_out_def effect_def step_result_def reset_vam_def get_reg_def tick_def put_def
        DO_Z_def set_reg_def)
qed

section \<open>The machine with and without its trace\<close>











































section \<open>Whole runs\<close>















section \<open>Machine invariant\<close>

definition wf_vam :: "vam \<Rightarrow> bool" where
  "wf_vam s = (length (reg s) = 16 \<and> rx s < 16 \<and> ry s < 16)"

text \<open>
  A result is sound when going on keeps the invariant, and leaving does so with code 10, or with
  code 0 behind a HALT instruction.
\<close>

fun sound :: "'a res \<Rightarrow> bool" where
  "sound (Ok v s) = wf_vam s"
| "sound (Exit n s) = (wf_vam s \<and> (n = 10 \<or> n = 0 \<and> mem s (unat (pc s - 1)) = I_HALT))"
| "sound Wild = True"

lemma sound_thn [intro]:
  assumes "sound r" and "\<And>v s. r = Ok v s \<Longrightarrow> wf_vam s \<Longrightarrow> sound (f v s)"
  shows "sound (thn r f)"
  using assms by (cases r) auto

lemma sound_if [intro]:
  "(c \<Longrightarrow> sound r) \<Longrightarrow> (\<not> c \<Longrightarrow> sound r') \<Longrightarrow> sound (if c then r else r')"
  by simp

lemma sound_rd_mem [intro]: "wf_vam s \<Longrightarrow> sound (rd_mem a s)"
  by (simp add: rd_mem_def)

lemma sound_wr_mem [intro]: "wf_vam s \<Longrightarrow> sound (wr_mem a v s)"
  by (simp add: wr_mem_def wf_vam_def)

lemma sound_fetch [intro]: "wf_vam s \<Longrightarrow> sound (fetch s)"
  by (auto simp: fetch_def i_pc_def wf_vam_def print_def intro!: sound_thn)

lemma nibbles_below: "unat (drop_bit 4 (b::u8)) < 16" "unat (b AND 0x0f) < 16"
proof -
  have "drop_bit 4 b \<le> 15"
  proof (rule word_le_nat_alt [THEN iffD2])
    have "unat b < 2 ^ LENGTH(8)" by (rule unsigned_less)
    moreover have "take_bit 8 (unat b) = unat b" by (rule take_bit_nat_eq_self) (use calculation in simp)
    ultimately have "unat (drop_bit 4 b) = unat b div 16" and "unat b < 256"
      by (simp_all add: unsigned_drop_bit_eq) (simp add: drop_bit_eq_div)
    then show "unat (drop_bit 4 b) \<le> unat (15::u8)" by simp
  qed
  then show "unat (drop_bit 4 b) < 16" by (simp add: word_le_nat_alt)
  have "b AND 0x0f \<le> 0x0f" by (rule word_and_le1)
  then show "unat (b AND 0x0f) < 16" by (simp add: word_le_nat_alt)
qed

lemma sound_fetch_regs [intro]: "wf_vam s \<Longrightarrow> sound (fetch_regs s)"
  unfolding fetch_regs_def
  by (intro sound_thn sound_fetch sound_rd_mem) (auto simp: wf_vam_def nibbles_below)

lemma sound_fetch_or [intro]: "wf_vam s \<Longrightarrow> sound (fetch_or s)"
  unfolding fetch_or_def by (intro sound_thn sound_fetch) (auto simp: wf_vam_def)

lemma sound_fetch_offset [intro]: "wf_vam s \<Longrightarrow> sound (fetch_offset s)"
  unfolding fetch_offset_def
  by (intro sound_thn sound_fetch sound_fetch_or) (auto simp: wf_vam_def)

lemma sound_trace [intro]: "wf_vam s \<Longrightarrow> sound (trace o_pc op x y off s)"
  by (auto simp: trace_def Let_def wf_vam_def print_def split: option.splits)

lemma wf_updates [simp]:
  "wf_vam (tick n s) = wf_vam s" "wf_vam (DO_Z v s) = wf_vam s" "wf_vam (set_reg i v s) = wf_vam s"
  "wf_vam (set_y v s) = wf_vam s" "wf_vam (print str s) = wf_vam s" "wf_vam (eprint str s) = wf_vam s"
  "wf_vam (s\<lparr>pc := a\<rparr>) = wf_vam s"
  by (simp_all add: wf_vam_def tick_def DO_Z_def set_reg_def set_y_def print_def eprint_def)

lemma sound_bus_error [intro]: "wf_vam s \<Longrightarrow> sound (bus_error o_pc op s)"
  unfolding bus_error_def by (intro sound_thn sound_trace) auto

lemma sound_alu [intro]:
  assumes "wf_vam s"
  shows "sound (op_trap s)" "sound (op_add s)" "sound (op_sub s)" "sound (op_mul s)"
    "sound (op_ldr s)"
  unfolding op_trap_def op_add_def op_sub_def op_mul_def op_ldr_def
  using assms by (auto simp: Let_def intro!: sound_thn)

lemma sound_div [intro]: "wf_vam s \<Longrightarrow> sound (op_div o_pc s)"
  unfolding op_div_def by (intro sound_thn sound_fetch_regs) auto

lemma sound_sti [intro]: "wf_vam s \<Longrightarrow> sound (op_sti o_pc s)"
  unfolding op_sti_def
  by (intro sound_thn sound_if sound_fetch_regs sound_fetch_offset sound_bus_error sound_wr_mem)
     simp_all

lemma sound_load_or [intro]: "wf_vam s \<Longrightarrow> sound (load_or a t s)"
  unfolding load_or_def by (intro sound_thn sound_rd_mem) auto

lemma sound_ldi_lda [intro]: "wf_vam s \<Longrightarrow> sound (op_ldi_lda o_pc op s)"
  unfolding op_ldi_lda_def
  by (intro sound_thn sound_if sound_fetch_regs sound_fetch_offset sound_bus_error sound_rd_mem
        sound_load_or) simp_all

lemma sound_branch [intro]: "wf_vam s \<Longrightarrow> sound (op_branch o_pc op s)"
  unfolding op_branch_def
  by (intro sound_thn sound_fetch_offset) (simp_all add: sound_bus_error)

lemma sound_bal [intro]: "wf_vam s \<Longrightarrow> sound (op_bal o_pc s)"
  unfolding op_bal_def
  by (intro sound_thn sound_fetch_regs) (simp_all add: sound_bus_error Let_def)

lemma sound_switch:
  assumes "wf_vam s" and "op = I_HALT \<Longrightarrow> mem s (unat (pc s - 1)) = I_HALT"
  shows "sound (vam_switch o_pc op s)"
proof (cases "op = I_HALT")
  case True
  let ?s = "tick 1 s"
  have "sound (thn (trace o_pc op (rx s) (ry s) (offset s) ?s) (\<lambda>_ s. Exit 0 s))"
    using assms True trace_lemma [of ?s o_pc op "rx s" "ry s" "offset s"]
    by (auto simp: print_def tick_def wf_vam_def split: if_splits)
  with True show ?thesis by (simp add: vam_switch_def)
next
  case False
  with assms(1) show ?thesis
    unfolding vam_switch_def
    by (simp add: sound_alu sound_div sound_sti sound_ldi_lda sound_branch sound_bal sound_trace)
qed

lemma fetch_Ok:
  assumes "fetch s = Ok op s'"
  shows "s' = s\<lparr>pc := pc s + 1\<rparr> \<and> op = mem s (unat (pc s))"
  using assms by (auto simp: fetch_def i_pc_def rd_mem_def split: if_splits)

lemma sound_step:
  assumes "wf_vam s"
  shows "sound (vam_step s)"
  unfolding vam_step_def Let_def
proof (intro sound_thn sound_fetch sound_switch assms)
  fix op s' assume "fetch s = Ok op s'" "wf_vam s'" "op = I_HALT"
  then show "mem s' (unat (pc s' - 1)) = I_HALT" by (auto dest: fetch_Ok)
qed auto

lemma sound_loop: "wf_vam s \<Longrightarrow> vam_loop fuel s = Some r \<Longrightarrow> sound r"
proof (induction fuel arbitrary: s)
  case (Suc fuel)
  from sound_step [OF Suc.prems(1)] Suc.prems(2) Suc.IH show ?case
    by (cases "vam_step s") auto
qed simp

lemma sound_load_image: "wf_vam s \<Longrightarrow> sound (load_image i bs s)"
  by (induction i bs s rule: load_image.induct) (auto simp: wf_vam_def)

lemma sound_init_system: "sound (init_system files trc image_file)"
proof -
  have "wf_vam (reset_vam trc)" by (simp add: wf_vam_def reset_vam_def REGMAX_def)
  then show ?thesis
    by (auto simp: init_system_def Let_def sound_load_image split: option.splits)
qed

lemma vam_main_leaves:
  assumes "vam_main fuel files argv = Some (Exit n s)"
  shows "wf_vam s \<and> (n = 10 \<or> n = 0 \<and> mem s (unat (pc s - 1)) = I_HALT)"
proof (cases "read_args argv")
  case (ArgsExit k msg)
  then have "k = 10"
    by (auto simp: read_args_def Let_def split: if_splits)
  with ArgsExit assms show ?thesis by (auto simp: vam_main_def wf_vam_def reset_vam_def REGMAX_def print_def)
next
  case (Args trc f)
  have init: "sound (init_system files trc f)" by (rule sound_init_system)
  show ?thesis
  proof (cases "init_system files trc f")
    case (Ok u s0)
    with init Args assms sound_loop [of s0 fuel "Exit n s"] show ?thesis
      by (simp add: vam_main_def)
  qed (use init Args assms in \<open>simp_all add: vam_main_def\<close>)
qed

end
