(* ===== verification/VAS.thy ===== *)
theory VAS
  imports VAM_Exec
begin

text \<open>
  The two-pass assembler (\<open>csibe/src/compiler/vas.c\<close>). The semantic actions of its grammar are
  modelled by rule number, as the generated parser runs them, over the assembler's globals: the
  pass, the location counter, the label table and the bytes put out. A source program is the list
  of statements the grammar describes; both passes run the actions of its statements in order.
\<close>

section \<open>Globals and output\<close>

definition MAXLAB :: nat where "MAXLAB = 0x1000"

record vas =
  pass :: nat
  loc :: u32
  labtab :: "u32 list"
  image :: "u8 list"

definition putchar :: "u32 \<Rightarrow> vas \<Rightarrow> vas" where
  "putchar n s = s\<lparr>image := image s @ [ucast n]\<rparr>"

definition pbyte :: "u32 \<Rightarrow> vas \<Rightarrow> vas" where
  "pbyte n s =
     (let s = (if pass s = 2 then putchar n s else s)
      in s\<lparr>loc := loc s + 1\<rparr>)"

text \<open>\<open>n\<close> is an \<open>int\<close>: the shifts are arithmetic, which the bytes written do not show.\<close>

definition pword :: "u32 \<Rightarrow> vas \<Rightarrow> vas" where
  "pword n s =
     (let s = (if pass s = 2
               then putchar n (putchar (signed_drop_bit 8 n)
                      (putchar (signed_drop_bit 16 n) (putchar (signed_drop_bit 24 n) s)))
               else s)
      in s\<lparr>loc := loc s + 4\<rparr>)"

text \<open>\<open>labtab\<close> is indexed without a check: outside the table the access is undefined.\<close>

definition set_label :: "u32 \<Rightarrow> vas \<Rightarrow> vas option" where
  "set_label l s =
     (if unat l < MAXLAB then Some (s\<lparr>labtab := (labtab s)[unat l := loc s]\<rparr>) else None)"

definition label_of :: "u32 \<Rightarrow> vas \<Rightarrow> u32 option" where
  "label_of l s = (if unat l < MAXLAB then Some (labtab s ! unat l) else None)"

section \<open>Semantic actions\<close>

definition emit_rr :: "u8 \<Rightarrow> u32 \<Rightarrow> u32 \<Rightarrow> vas \<Rightarrow> vas" where
  "emit_rr op x y s = pbyte (push_bit 4 x OR y) (pbyte (ucast op) s)"

definition emit_rrw :: "u8 \<Rightarrow> u32 \<Rightarrow> u32 \<Rightarrow> u32 \<Rightarrow> vas \<Rightarrow> vas" where
  "emit_rrw op x y d s = pword d (emit_rr op x y s)"

definition emit_label :: "u8 \<Rightarrow> u32 \<Rightarrow> u32 \<Rightarrow> u32 \<Rightarrow> vas \<Rightarrow> vas option" where
  "emit_label op x y l s =
     (let s = pbyte (push_bit 4 x OR y) (pbyte (ucast op) s)
      in do { a \<leftarrow> label_of l s; Some (pword a s) })"

definition emit_branch :: "u8 \<Rightarrow> u32 \<Rightarrow> vas \<Rightarrow> vas" where
  "emit_branch op d s = pword d (pbyte (ucast op) s)"

definition emit_branch_label :: "u8 \<Rightarrow> u32 \<Rightarrow> vas \<Rightarrow> vas option" where
  "emit_branch_label op l s =
     (let s = pbyte (ucast op) s
      in do { a \<leftarrow> label_of l s; Some (pword (a - loc s + 1) s) })"

text \<open>
  The switch of \<open>yyparse\<close> over rule numbers. \<open>v k\<close> is \<open>yyvsp[-k]\<close>; the result is the new \<open>yyval\<close>,
  which is \<open>d\<close>, the default, unless the action assigns it, with the new globals.
\<close>

definition vas_action :: "nat \<Rightarrow> (nat \<Rightarrow> u32) \<Rightarrow> u32 \<Rightarrow> vas \<Rightarrow> (u32 \<times> vas) option" where
  "vas_action rule v d s =
     (let act = map_option (\<lambda>s'. (d, s')); always = (\<lambda>s'. Some (d, s')); yields = (\<lambda>x. Some (x, s)) in
      if rule = 4 then act (set_label (v 3) s)
      else if rule = 5 then act (set_label (v 5) s)
      else if rule = 7 then yields (v 0)
      else if rule = 8 then yields (v 1 * 10 + v 0)
      else if 10 \<le> rule \<and> rule \<le> 19 then yields (of_nat (rule - 10))
      else if rule = 40 then always (pbyte (ucast I_HALT) s)
      else if rule = 41 then always (pbyte (ucast I_NOP) s)
      else if rule = 42 then always (pbyte (ucast I_TRAP) s)
      else if rule = 43 then always (emit_rr I_ADD (v 2) (v 0) s)
      else if rule = 44 then always (emit_rr I_SUB (v 2) (v 0) s)
      else if rule = 45 then always (emit_rr I_MUL (v 2) (v 0) s)
      else if rule = 46 then always (emit_rr I_DIV (v 2) (v 0) s)
      else if rule = 47 then always (emit_rrw I_STI (v 5) (v 1) (v 3) s)
      else if rule = 48 then act (emit_label I_STI (v 2) 0 (v 0) s)
      else if rule = 49 then always (emit_rrw I_LDI (v 3) (v 0) (v 5) s)
      else if rule = 50 then act (emit_label I_LDI 0 (v 0) (v 2) s)
      else if rule = 51 then always (emit_rrw I_LDA (v 3) (v 0) (v 5) s)
      else if rule = 52 then act (emit_label I_LDA 0 (v 0) (v 2) s)
      else if rule = 53 then always (emit_rr I_LDR (v 2) (v 0) s)
      else if rule = 54 then always (emit_branch I_BZE (v 0) s)
      else if rule = 55 then act (emit_branch_label I_BZE (v 0) s)
      else if rule = 56 then always (emit_branch I_BNZ (v 0) s)
      else if rule = 57 then act (emit_branch_label I_BNZ (v 0) s)
      else if rule = 58 then always (emit_branch I_BRA (v 0) s)
      else if rule = 59 then act (emit_branch_label I_BRA (v 0) s)
      else if rule = 60 then always (emit_rr I_BAL (v 2) (v 0) s)
      else if rule = 61 then always (pbyte (v 0) s)
      else if rule = 78 then yields (v 0)
      else Some (d, s))"

section \<open>Statements\<close>

text \<open>The instruction forms of the grammar, rules 40 to 61: numbers and labels as the parser holds them.\<close>

datatype asm =
    AHALT | ANOP | ATRAP
  | AADD u32 u32 | ASUB u32 u32 | AMUL u32 u32 | ADIV u32 u32
  | ASTI u32 u32 u32 | ASTI_L u32 u32
  | ALDI u32 u32 u32 | ALDI_L u32 u32
  | ALDA u32 u32 u32 | ALDA_L u32 u32
  | ALDR u32 u32
  | ABZE u32 | ABZE_L u32 | ABNZ u32 | ABNZ_L u32 | ABRA u32 | ABRA_L u32
  | ABAL u32 u32 | ADB u32

text \<open>
  Each form's rule, and where its operands stand on the value stack; tokens carry no value.
\<close>

fun production :: "asm \<Rightarrow> nat \<times> u32 list" where
  "production AHALT = (40, [0])"
| "production ANOP = (41, [0])"
| "production ATRAP = (42, [0])"
| "production (AADD x y) = (43, [y, 0, x, 0, 0])"
| "production (ASUB x y) = (44, [y, 0, x, 0, 0])"
| "production (AMUL x y) = (45, [y, 0, x, 0, 0])"
| "production (ADIV x y) = (46, [y, 0, x, 0, 0])"
| "production (ASTI x d y) = (47, [0, y, 0, d, 0, x, 0, 0])"
| "production (ASTI_L x l) = (48, [l, 0, x, 0, 0])"
| "production (ALDI d x y) = (49, [y, 0, 0, x, 0, d, 0, 0])"
| "production (ALDI_L l y) = (50, [y, 0, l, 0, 0])"
| "production (ALDA d x y) = (51, [y, 0, 0, x, 0, d, 0, 0])"
| "production (ALDA_L l y) = (52, [y, 0, l, 0, 0])"
| "production (ALDR x y) = (53, [y, 0, x, 0, 0])"
| "production (ABZE d) = (54, [d, 0, 0])"
| "production (ABZE_L l) = (55, [l, 0, 0])"
| "production (ABNZ d) = (56, [d, 0, 0])"
| "production (ABNZ_L l) = (57, [l, 0, 0])"
| "production (ABRA d) = (58, [d, 0, 0])"
| "production (ABRA_L l) = (59, [l, 0, 0])"
| "production (ABAL x y) = (60, [y, 0, x, 0, 0])"
| "production (ADB n) = (61, [n, 0, 0])"

definition assemble :: "asm \<Rightarrow> vas \<Rightarrow> vas option" where
  "assemble a s =
     (case production a of (rule, vsp) \<Rightarrow> map_option snd (vas_action rule (\<lambda>k. vsp ! k) 0 s))"

text \<open>
  The statement forms, rules 3 to 6. On a line with both, the instruction is reduced, and its
  action run, before the statement is.
\<close>

datatype stmt = Comment | Label u32 | LabelInstr u32 asm | Instr asm

fun statement :: "stmt \<Rightarrow> vas \<Rightarrow> vas option" where
  "statement Comment s = Some s"
| "statement (Label l) s = map_option snd (vas_action 4 (\<lambda>k. [0, 0, 0, l] ! k) l s)"
| "statement (LabelInstr l a) s = do {
     s \<leftarrow> assemble a s;
     map_option snd (vas_action 5 (\<lambda>k. [0, 0, 0, 0, 0, l] ! k) l s)
   }"
| "statement (Instr a) s = assemble a s"

fun statements :: "stmt list \<Rightarrow> vas \<Rightarrow> vas option" where
  "statements [] s = Some s"
| "statements (st # sts) s = do { s \<leftarrow> statement st s; statements sts s }"

section \<open>The two passes\<close>

definition start :: vas where
  "start = \<lparr>pass = 1, loc = 0, labtab = replicate MAXLAB 0, image = []\<rparr>"

definition vas_passes :: "stmt list \<Rightarrow> vas option" where
  "vas_passes sts = do {
     s \<leftarrow> statements sts start;
     statements sts (s\<lparr>loc := 0, pass := 2\<rparr>)
   }"

text \<open>
  \<open>decode_args\<close>: the name of the output file, or the message it exits with. \<open>strncpy\<close> copies the
  root and its dot and no terminator, so that \<open>strcat\<close> appends behind the first zero byte of the
  rest of the block \<open>malloc\<close> returned, whose contents \<open>heap\<close> is a parameter.
\<close>

definition decode_args :: "string \<Rightarrow> string list \<Rightarrow> string + string option" where
  "decode_args heap argv =
     (if length argv \<noteq> 2 then Inl (''vas: single argument expected'' @ nl)
      else
        let len = int (length (argv ! 1)) - 4 in
        if len < 1 \<or> drop (nat len) (argv ! 1) \<noteq> ''.vas''
        then Inl (''vas: source file must end in \".vas\".'' @ nl)
        else
          let block = take (nat len + 1) (argv ! 1) @ drop (nat len + 1) (take (nat len + 5) heap);
              str = takeWhile (\<lambda>c. c \<noteq> CHR 0x00) block
          in if length str + 4 \<le> nat len + 5 then Inr (Some (str @ ''vam'')) else Inr None)"

section \<open>What assembling a program means\<close>

text \<open>The machine instruction a form stands for, given the labels' addresses and its own address.\<close>

fun resolve :: "(u32 \<Rightarrow> u32) \<Rightarrow> u32 \<Rightarrow> asm \<Rightarrow> instr option" where
  "resolve lab a AHALT = Some HALT"
| "resolve lab a ANOP = Some NOP"
| "resolve lab a ATRAP = Some TRAP"
| "resolve lab a (AADD x y) = Some (ADD (unat x) (unat y))"
| "resolve lab a (ASUB x y) = Some (SUB (unat x) (unat y))"
| "resolve lab a (AMUL x y) = Some (MUL (unat x) (unat y))"
| "resolve lab a (ADIV x y) = Some (DIV (unat x) (unat y))"
| "resolve lab a (ASTI x d y) = Some (STI (unat x) d (unat y))"
| "resolve lab a (ASTI_L x l) = Some (STI (unat x) (lab l) 0)"
| "resolve lab a (ALDI d x y) = Some (LDI d (unat x) (unat y))"
| "resolve lab a (ALDI_L l y) = Some (LDI (lab l) 0 (unat y))"
| "resolve lab a (ALDA d x y) = Some (LDA d (unat x) (unat y))"
| "resolve lab a (ALDA_L l y) = Some (LDA (lab l) 0 (unat y))"
| "resolve lab a (ALDR x y) = Some (LDR (unat x) (unat y))"
| "resolve lab a (ABZE d) = Some (BZE d)"
| "resolve lab a (ABZE_L l) = Some (BZE (lab l - a))"
| "resolve lab a (ABNZ d) = Some (BNZ d)"
| "resolve lab a (ABNZ_L l) = Some (BNZ (lab l - a))"
| "resolve lab a (ABRA d) = Some (BRA d)"
| "resolve lab a (ABRA_L l) = Some (BRA (lab l - a))"
| "resolve lab a (ABAL x y) = Some (BAL (unat x) (unat y))"
| "resolve lab a (ADB n) = None"

definition code :: "(u32 \<Rightarrow> u32) \<Rightarrow> u32 \<Rightarrow> asm \<Rightarrow> u8 list" where
  "code lab a i = (case i of ADB n \<Rightarrow> [ucast n] | _ \<Rightarrow> encode (the (resolve lab a i)))"

fun asm_wf :: "asm \<Rightarrow> bool" where
  "asm_wf (AADD x y) = (x < 16 \<and> y < 16)"
| "asm_wf (ASUB x y) = (x < 16 \<and> y < 16)"
| "asm_wf (AMUL x y) = (x < 16 \<and> y < 16)"
| "asm_wf (ADIV x y) = (x < 16 \<and> y < 16)"
| "asm_wf (ASTI x d y) = (x < 16 \<and> y < 16)"
| "asm_wf (ASTI_L x l) = (x < 16 \<and> unat l < MAXLAB)"
| "asm_wf (ALDI d x y) = (x < 16 \<and> y < 16)"
| "asm_wf (ALDI_L l y) = (y < 16 \<and> unat l < MAXLAB)"
| "asm_wf (ALDA d x y) = (x < 16 \<and> y < 16)"
| "asm_wf (ALDA_L l y) = (y < 16 \<and> unat l < MAXLAB)"
| "asm_wf (ALDR x y) = (x < 16 \<and> y < 16)"
| "asm_wf (ABZE_L l) = (unat l < MAXLAB)"
| "asm_wf (ABNZ_L l) = (unat l < MAXLAB)"
| "asm_wf (ABRA_L l) = (unat l < MAXLAB)"
| "asm_wf (ABAL x y) = (x < 16 \<and> y < 16)"
| "asm_wf _ = True"

fun asm_len :: "asm \<Rightarrow> nat" where
  "asm_len AHALT = 1"
| "asm_len ANOP = 1"
| "asm_len ATRAP = 1"
| "asm_len (ADB n) = 1"
| "asm_len (ABZE d) = 5"
| "asm_len (ABZE_L l) = 5"
| "asm_len (ABNZ d) = 5"
| "asm_len (ABNZ_L l) = 5"
| "asm_len (ABRA d) = 5"
| "asm_len (ABRA_L l) = 5"
| "asm_len (ASTI x d y) = 6"
| "asm_len (ASTI_L x l) = 6"
| "asm_len (ALDI d x y) = 6"
| "asm_len (ALDI_L l y) = 6"
| "asm_len (ALDA d x y) = 6"
| "asm_len (ALDA_L l y) = 6"
| "asm_len _ = 2"

lemma length_code [simp]: "length (code lab a i) = asm_len i"
  by (cases i) (simp_all add: code_def word_bytes_def)

fun stmt_wf :: "stmt \<Rightarrow> bool" where
  "stmt_wf Comment = True"
| "stmt_wf (Label l) = (unat l < MAXLAB)"
| "stmt_wf (LabelInstr l i) = (unat l < MAXLAB \<and> asm_wf i)"
| "stmt_wf (Instr i) = asm_wf i"

fun stmt_size :: "stmt \<Rightarrow> u32" where
  "stmt_size (Instr i) = of_nat (asm_len i)"
| "stmt_size (LabelInstr l i) = of_nat (asm_len i)"
| "stmt_size _ = 0"

fun stmt_code :: "(u32 \<Rightarrow> u32) \<Rightarrow> u32 \<Rightarrow> stmt \<Rightarrow> u8 list" where
  "stmt_code lab a (Instr i) = code lab a i"
| "stmt_code lab a (LabelInstr l i) = code lab a i"
| "stmt_code lab a _ = []"

text \<open>The labels a program defines: one before an instruction on its line stands for the address behind it.\<close>

fun label_defs :: "u32 \<Rightarrow> stmt list \<Rightarrow> (u32 \<times> u32) list" where
  "label_defs a [] = []"
| "label_defs a (Label l # sts) = (l, a) # label_defs a sts"
| "label_defs a (LabelInstr l i # sts) = (l, a + of_nat (asm_len i)) # label_defs (a + of_nat (asm_len i)) sts"
| "label_defs a (Comment # sts) = label_defs a sts"
| "label_defs a (Instr i # sts) = label_defs (a + of_nat (asm_len i)) sts"

fun program_code :: "(u32 \<Rightarrow> u32) \<Rightarrow> u32 \<Rightarrow> stmt list \<Rightarrow> u8 list" where
  "program_code lab a [] = []"
| "program_code lab a (st # sts) = stmt_code lab a st @ program_code lab (a + stmt_size st) sts"

definition label_addr :: "stmt list \<Rightarrow> u32 \<Rightarrow> u32" where
  "label_addr sts l = (case map_of (label_defs 0 sts) l of Some a \<Rightarrow> a | None \<Rightarrow> 0)"

section \<open>Correctness of the passes\<close>

lemma regs_word:
  assumes "x < 16" and "y < 16"
  shows "ucast (push_bit 4 x OR y :: u32) = regs_byte (unat x) (unat y)"
proof (rule bit_word_eqI)
  fix n assume "n < LENGTH(8)"
  then show "bit (ucast (push_bit 4 x OR y :: u32) :: u8) n = bit (regs_byte (unat x) (unat y)) n"
    using less_8_cases [of n] by (auto simp: regs_byte_def bit_simps)
qed

lemma signed_shift_byte:
  "(ucast (signed_drop_bit 8 (n::u32)) :: u8) = ucast (drop_bit 8 n)"
  "(ucast (signed_drop_bit 16 (n::u32)) :: u8) = ucast (drop_bit 16 n)"
  "(ucast (signed_drop_bit 24 (n::u32)) :: u8) = ucast (drop_bit 24 n)"
  by (auto intro!: bit_word_eqI simp: bit_simps bit_signed_drop_bit_iff)

definition emitted :: "u8 list \<Rightarrow> vas \<Rightarrow> vas" where
  "emitted bs s =
     s\<lparr>loc := loc s + of_nat (length bs), image := (if pass s = 2 then image s @ bs else image s)\<rparr>"

lemma emit_simps:
  "pbyte n s = emitted [ucast n] s"
  "pword n s = emitted (word_bytes n) s"
  "emitted bs (emitted cs s) = emitted (cs @ bs) s"
  by (simp_all add: pbyte_def pword_def putchar_def emitted_def word_bytes_def signed_shift_byte Let_def
      add.assoc add.commute)

lemma emitted_fields [simp]:
  "labtab (emitted bs s) = labtab s" "pass (emitted bs s) = pass s"
  "loc (emitted bs s) = loc s + of_nat (length bs)"
  by (simp_all add: emitted_def)

lemma assemble_code:
  assumes "asm_wf i"
  shows "assemble i s = Some (emitted (code (\<lambda>l. labtab s ! unat l) (loc s) i) s)"
  using assms
  by (cases i)
     (simp_all add: assemble_def vas_action_def emit_rr_def emit_rrw_def emit_label_def
        emit_branch_def emit_branch_label_def label_of_def emit_simps regs_word code_def Let_def
        regs_word [of _ 0, simplified] regs_word [of 0, simplified] opcodes)

definition put_labels :: "(u32 \<times> u32) list \<Rightarrow> u32 list \<Rightarrow> u32 list" where
  "put_labels ds t = fold (\<lambda>(l, a) t. t[unat l := a]) ds t"

definition after :: "stmt list \<Rightarrow> vas \<Rightarrow> vas" where
  "after sts s =
     s\<lparr>loc := loc s + sum_list (map stmt_size sts),
       labtab := put_labels (label_defs (loc s) sts) (labtab s)\<rparr>"

lemma label_actions:
  "vas_action 4 v d s = map_option (Pair d) (set_label (v 3) s)"
  "vas_action 5 v d s = map_option (Pair d) (set_label (v 5) s)"
  by (simp_all add: vas_action_def Let_def)

lemma statement_code:
  assumes "stmt_wf st"
  shows "statement st s =
     (let s' = emitted (stmt_code (\<lambda>l. labtab s ! unat l) (loc s) st) s
      in Some (s'\<lparr>labtab := put_labels (label_defs (loc s) [st]) (labtab s)\<rparr>))"
proof (cases st)
  case (LabelInstr l i)
  with assms have "assemble i s = Some (emitted (code (\<lambda>l. labtab s ! unat l) (loc s) i) s)"
    by (simp add: assemble_code)
  with LabelInstr assms show ?thesis
    by (simp add: label_actions set_label_def put_labels_def del: One_nat_def)
next
  case (Label l)
  with assms show ?thesis
    by (simp add: label_actions set_label_def put_labels_def emitted_def)
qed (use assms in \<open>simp_all add: assemble_code put_labels_def emitted_def\<close>)

lemma update_same: "t ! i = a \<Longrightarrow> t[i := a] = t"
  by auto

lemma emitted_size: "of_nat (length (stmt_code lab a st)) = stmt_size st"
  by (cases st) simp_all

lemma pass_1:
  assumes "pass s = 1" and "\<forall>st \<in> set sts. stmt_wf st"
  shows "statements sts s = Some (after sts s)"
  using assms
proof (induction sts arbitrary: s)
  case Nil
  then show ?case by (simp add: after_def put_labels_def)
next
  case (Cons st sts)
  have "statement st s = Some (after [st] s)"
    using Cons.prems by (simp add: statement_code after_def emitted_def emitted_size Let_def)
  moreover have "pass (after [st] s) = 1" using Cons.prems by (simp add: after_def)
  ultimately have "statements (st # sts) s = Some (after sts (after [st] s))"
    using Cons by simp
  also have "after sts (after [st] s) = after (st # sts) s"
    by (cases st) (simp_all add: after_def put_labels_def add.assoc)
  finally show ?case .
qed

lemma pass_2:
  assumes "pass s = 2" and "\<forall>st \<in> set sts. stmt_wf st"
    and "\<forall>(l, a) \<in> set (label_defs (loc s) sts). labtab s ! unat l = a"
  shows "statements sts s =
     Some (s\<lparr>loc := loc s + sum_list (map stmt_size sts),
             image := image s @ program_code (\<lambda>l. labtab s ! unat l) (loc s) sts\<rparr>)"
  using assms
proof (induction sts arbitrary: s)
  case (Cons st sts)
  let ?s = "s\<lparr>loc := loc s + stmt_size st,
              image := image s @ stmt_code (\<lambda>l. labtab s ! unat l) (loc s) st\<rparr>"
  have "statement st s = Some ?s"
  proof -
    have "put_labels (label_defs (loc s) [st]) (labtab s) = labtab s"
      using Cons.prems(3) by (cases st) (auto simp: put_labels_def update_same)
    with Cons.prems show ?thesis
      by (simp add: statement_code emitted_def emitted_size Let_def)
  qed
  moreover have "\<forall>(l, a) \<in> set (label_defs (loc ?s) sts). labtab ?s ! unat l = a"
    using Cons.prems(3) by (cases st) auto
  ultimately show ?case using Cons by (simp add: add.assoc)
qed simp

lemma label_defs_below:
  assumes "\<forall>st \<in> set sts. stmt_wf st" and "(l, a) \<in> set (label_defs b sts)"
  shows "unat l < MAXLAB"
  using assms by (induction b sts rule: label_defs.induct) auto

lemma put_labels_length [simp]: "length (put_labels ds t) = length t"
  by (induction ds arbitrary: t) (auto simp: put_labels_def)

lemma put_labels_nth:
  assumes "distinct (map fst ds)" and "unat l < length t"
  shows "put_labels ds t ! unat l = (case map_of ds l of Some a \<Rightarrow> a | None \<Rightarrow> t ! unat l)"
  using assms
proof (induction ds arbitrary: t)
  case (Cons d ds)
  obtain k a where "d = (k, a)" by (cases d)
  moreover have "put_labels ds (t[unat k := a]) ! unat l =
      (case map_of ds l of Some b \<Rightarrow> b | None \<Rightarrow> t[unat k := a] ! unat l)"
    using Cons by (intro Cons.IH) auto
  moreover have "map_of ds k = None"
    using Cons.prems(1) calculation(1) by (simp add: map_of_eq_None_iff)
  moreover have "unat k = unat l \<longleftrightarrow> k = l" by (simp add: word_unat_eq_iff)
  ultimately show ?case
    using Cons.prems(2) by (auto simp: put_labels_def nth_list_update split: option.splits)
qed (simp add: put_labels_def)

lemma program_code_cong:
  assumes "\<And>l. unat l < MAXLAB \<Longrightarrow> lab l = lab' l" and "\<forall>st \<in> set sts. stmt_wf st"
  shows "program_code lab a sts = program_code lab' a sts"
proof -
  have "code lab a i = code lab' a i" if "asm_wf i" for a i
    using that assms(1) by (cases i) (auto simp: code_def)
  then have "stmt_code lab a st = stmt_code lab' a st" if "stmt_wf st" for a st
    using that by (cases st) auto
  with assms(2) show ?thesis by (induction sts arbitrary: a) auto
qed

definition good_program :: "stmt list \<Rightarrow> bool" where
  "good_program sts \<longleftrightarrow> (\<forall>st \<in> set sts. stmt_wf st) \<and> distinct (map fst (label_defs 0 sts))"

lemma two_passes:
  assumes "good_program sts"
  shows "\<exists>s. vas_passes sts = Some s \<and> image s = program_code (label_addr sts) 0 sts"
proof -
  let ?ds = "label_defs 0 sts"
  let ?t = "put_labels ?ds (replicate MAXLAB 0)"
  let ?s = "(after sts start)\<lparr>loc := 0, pass := 2\<rparr>"
  have wf: "\<forall>st \<in> set sts. stmt_wf st" and dist: "distinct (map fst ?ds)"
    using assms by (simp_all add: good_program_def)
  have t: "labtab ?s = ?t" "image ?s = []" by (simp_all add: after_def start_def)
  have lab: "?t ! unat l = label_addr sts l" if "unat l < MAXLAB" for l
    using put_labels_nth [OF dist, of l "replicate MAXLAB 0"] that
    by (simp add: label_addr_def split: option.splits)
  have "\<forall>(l, a) \<in> set ?ds. ?t ! unat l = a"
  proof clarify
    fix l a assume d: "(l, a) \<in> set ?ds"
    with dist have "map_of ?ds l = Some a" by simp
    with lab [OF label_defs_below [OF wf d]] show "?t ! unat l = a"
      by (simp add: label_addr_def)
  qed
  then have "statements sts ?s = Some (?s\<lparr>loc := loc ?s + sum_list (map stmt_size sts),
      image := image ?s @ program_code (\<lambda>l. labtab ?s ! unat l) (loc ?s) sts\<rparr>)"
    using t wf by (intro pass_2) simp_all
  moreover have "program_code (\<lambda>l. ?t ! unat l) 0 sts = program_code (label_addr sts) 0 sts"
    using wf lab by (intro program_code_cong) simp_all
  moreover have "statements sts start = Some (after sts start)"
    using wf by (intro pass_1) (simp_all add: start_def)
  ultimately show ?thesis using t by (simp add: vas_passes_def)
qed

lemma labels_known:
  assumes "good_program sts" and "vas_passes sts = Some s" and "unat l < MAXLAB"
  shows "labtab s ! unat l = label_addr sts l"
proof -
  let ?ds = "label_defs 0 sts"
  let ?s = "(after sts start)\<lparr>loc := 0, pass := 2\<rparr>"
  have wf: "\<forall>st \<in> set sts. stmt_wf st" and dist: "distinct (map fst ?ds)"
    using assms(1) by (simp_all add: good_program_def)
  have t: "labtab ?s = put_labels ?ds (replicate MAXLAB 0)" by (simp add: after_def start_def)
  have lab: "labtab ?s ! unat l = label_addr sts l" if "unat l < MAXLAB" for l
    using put_labels_nth [OF dist, of l "replicate MAXLAB 0"] that
    by (simp add: t label_addr_def split: option.splits)
  have "\<forall>(k, a) \<in> set ?ds. labtab ?s ! unat k = a"
  proof clarify
    fix k a assume d: "(k, a) \<in> set ?ds"
    with dist lab [OF label_defs_below [OF wf d]] show "labtab ?s ! unat k = a"
      by (simp add: label_addr_def)
  qed
  then have "statements sts ?s = Some (?s\<lparr>loc := loc ?s + sum_list (map stmt_size sts),
      image := image ?s @ program_code (\<lambda>l. labtab ?s ! unat l) (loc ?s) sts\<rparr>)"
    using wf by (intro pass_2) simp_all
  moreover have "statements sts start = Some (after sts start)"
    using wf by (intro pass_1) (simp_all add: start_def)
  ultimately show ?thesis using assms(2,3) lab by (auto simp: vas_passes_def)
qed

lemma label_defs_append:
  "label_defs a (pre @ post) = label_defs a pre @ label_defs (a + sum_list (map stmt_size pre)) post"
  by (induction a pre rule: label_defs.induct) (simp_all add: add.assoc)

lemma label_addr_defined:
  assumes "good_program sts" and "(l, a) \<in> set (label_defs 0 sts)"
  shows "label_addr sts l = a" and "unat l < MAXLAB"
  using assms label_defs_below [of sts l a 0] by (auto simp: good_program_def label_addr_def)

section \<open>From source to running code\<close>

lemma program_code_append:
  "program_code lab a (pre @ post) =
     program_code lab a pre @ program_code lab (a + sum_list (map stmt_size pre)) post"
  by (induction pre arbitrary: a) (simp_all add: add.assoc)

lemma program_code_length:
  "of_nat (length (program_code lab a sts)) = sum_list (map stmt_size sts)"
  by (induction sts arbitrary: a) (simp_all add: emitted_size)


lemma code_of_instr:
  "program_code lab 0 (pre @ st # post) =
     program_code lab 0 pre @ stmt_code lab (sum_list (map stmt_size pre)) st @
     program_code lab (sum_list (map stmt_size pre) + stmt_size st) post"
  by (simp add: program_code_append)

lemma code_regs_ok:
  assumes "asm_wf i" and "resolve lab a i = Some ins"
  shows "code lab a i = encode ins" and "regs_ok ins"
  using assms by (cases i; auto simp: code_def word_less_nat_alt)+

definition loaded :: "u8 list \<Rightarrow> (nat \<Rightarrow> u8) \<Rightarrow> bool" where
  "loaded img m \<longleftrightarrow> length img \<le> 65536 \<and> (\<forall>k < length img. m k = img ! k)"

lemma loaded_at:
  assumes "loaded (pre @ bs @ post) m"
  shows "bytes_at (length pre) bs m"
  using assms unfolding loaded_def bytes_at_nth
  by (auto simp: nth_append)

lemma load_image_loaded:
  assumes "length img \<le> 65536"
  shows "\<exists>s. init_system (\<lambda>_. Some img) trc (Some f) = Ok () s \<and> loaded img (mem s) \<and> pc s = 0"
proof -
  have load: "\<exists>t. load_image i bs s = Ok () t \<and> pc t = pc s \<and>
      (\<forall>k. mem t k = (if i \<le> k \<and> k < i + length bs then bs ! (k - i) else mem s k))"
    if "i + length bs \<le> 65536" for i bs s
    using that
  proof (induction i bs s rule: load_image.induct)
    case (2 i b bs s)
    then have "i < unat MEMMAX" by (simp add: MEMMAX_def)
    with 2 obtain t where t: "load_image (i + 1) bs (s\<lparr>mem := (mem s)(i := b)\<rparr>) = Ok () t" "pc t = pc s"
      "\<And>k. mem t k = (if i + 1 \<le> k \<and> k < i + 1 + length bs then bs ! (k - (i + 1))
         else ((mem s)(i := b)) k)" by auto
    have "mem t k = (if i \<le> k \<and> k < i + length (b # bs) then (b # bs) ! (k - i) else mem s k)" for k
      unfolding t(3) by (cases "k = i") (auto simp: nth_Cons' Suc_le_eq)
    with t(1,2) \<open>i < unat MEMMAX\<close> show ?case by simp
  qed auto
  from load [of 0 img "reset_vam trc"] assms show ?thesis
    by (auto simp: init_system_def loaded_def reset_vam_def Let_def)
qed

lemma unat_code_length:
  assumes "length (program_code lab a sts) \<le> 65536"
  shows "unat (sum_list (map stmt_size sts)) = length (program_code lab a sts)"
proof -
  have "sum_list (map stmt_size sts) = of_nat (length (program_code lab a sts))"
    using emitted_size by (induction sts arbitrary: a) (simp_all add: emitted_size [symmetric])
  with assms show ?thesis by (simp add: unat_of_nat)
qed

lemma assembled_step:
  assumes "good_program (pre @ Instr i # post)" and "vas_passes (pre @ Instr i # post) = Some v"
    and "loaded (image v) (mem s)" and "pc s = sum_list (map stmt_size pre)"
    and "resolve (label_addr (pre @ Instr i # post)) (pc s) i = Some ins" and "exec ins s = Some s'"
  shows "vam_step s = step_result (pc s) (hd (encode ins)) (locals ins s')"
proof -
  let ?sts = "pre @ Instr i # post"
  let ?lab = "label_addr ?sts"
  have wf: "asm_wf i" using assms(1) by (simp add: good_program_def)
  from two_passes [OF assms(1)] assms(2)
  have img: "image v = program_code ?lab 0 pre @ encode ins @
      program_code ?lab (pc s + stmt_size (Instr i)) post"
    using code_regs_ok(1) [OF wf assms(5)] assms(4) by (auto simp: program_code_append)
  with assms(3) have at: "bytes_at (length (program_code ?lab 0 pre)) (encode ins) (mem s)"
    using loaded_at by simp
  moreover have "length (program_code ?lab 0 pre) \<le> 65536"
    using assms(3) img by (simp add: loaded_def)
  ultimately have "bytes_at (unat (pc s)) (encode ins) (mem s)"
    using unat_code_length assms(4) by simp
  with code_regs_ok(2) [OF wf assms(5)] assms(6) show ?thesis by (intro step_exec)
qed

lemma exec_branch:
  assumes "ins \<in> {BZE d, BNZ d, BRA d}" and "taken ins s" and "d + pc s + 2 < MEMMAX"
  shows "\<exists>s'. exec ins s = Some s' \<and> pc (locals ins s') = pc s + d"
  using assms by (auto simp: jump_def tick_def)

text \<open>Assembling is correct: a program whose registers and labels are in range and whose labels are
  defined once gives exactly the encoding of its instructions, each label operand standing for
  the address its definition has, whether that definition comes before or after its use.\<close>

theorem assembler_two_pass:
  assumes "good_program sts"
  shows "\<exists>s. vas_passes sts = Some s \<and> image s = program_code (label_addr sts) 0 sts"
  using assms by (rule two_passes)

theorem assembler_two_pass_witness:
  "\<exists>s. vas_passes [Instr (ABRA_L 2), Label 1, Instr AHALT, Label 2, Instr (ABRA_L 1)] = Some s \<and>
       image s = [I_BRA, 0, 0, 0, 6, I_HALT, I_BRA, 255, 255, 255, 255]"
proof -
  let ?p = "[Instr (ABRA_L 2), Label 1, Instr AHALT, Label 2, Instr (ABRA_L 1)]"
  have "good_program ?p" by (simp add: good_program_def MAXLAB_def)
  moreover have "program_code (label_addr ?p) 0 ?p =
      [I_BRA, 0, 0, 0, 6, I_HALT, I_BRA, 255, 255, 255, 255]"
    by code_simp
  ultimately show ?thesis using assembler_two_pass [of ?p] by simp
qed

text \<open>C18: The assembler and the machine agree on branches: when an assembled image is in memory and
  the program counter stands at a branch to a label that is taken, the next step of the machine
  puts the program counter at the address of that label.\<close>

theorem branch_reaches_label:
  assumes "good_program (pre @ Instr i # post)" and "vas_passes (pre @ Instr i # post) = Some v"
    and "loaded (image v) (mem s)" and "pc s = sum_list (map stmt_size pre)"
    and "i = ABRA_L l \<or> i = ABZE_L l \<and> z_flag s \<or> i = ABNZ_L l \<and> \<not> z_flag s"
    and "label_addr (pre @ Instr i # post) l + 2 < MEMMAX"
  shows "\<exists>op t. vam_step s = step_result (pc s) op t \<and> pc t = label_addr (pre @ Instr i # post) l"
proof -
  let ?d = "label_addr (pre @ Instr i # post) l - pc s"
  obtain ins where ins: "resolve (label_addr (pre @ Instr i # post)) (pc s) i = Some ins"
    "ins \<in> {BZE ?d, BNZ ?d, BRA ?d}" "taken ins s"
    using assms(5) by (auto simp: taken_def)
  moreover have "?d + pc s + 2 < MEMMAX" using assms(6) by simp
  ultimately obtain s' where "exec ins s = Some s'" "pc (locals ins s') = pc s + ?d"
    using exec_branch by blast
  with assembled_step [OF assms(1-4) ins(1)] show ?thesis by auto
qed

theorem branch_reaches_label_witness:
  "\<exists>s op t. init_system (\<lambda>_. Some [I_BRA, 0, 0, 0, 5, I_HALT]) False (Some ''a.vam'') = Ok () s \<and>
         vam_step s = step_result (pc s) op t \<and> pc t = 5"
proof -
  let ?p = "[Instr (ABRA_L 9), Label 9, Instr AHALT]"
  let ?img = "[I_BRA, 0, 0, 0, 5, I_HALT]"
  have good: "good_program ([] @ Instr (ABRA_L 9) # [Label 9, Instr AHALT])"
    by (simp add: good_program_def MAXLAB_def)
  have lab: "label_addr ?p 9 = 5" by (simp add: label_addr_def)
  have code: "program_code (label_addr ?p) 0 ?p = ?img"
    by (simp add: lab code_def word_bytes_def)
  obtain v where v: "vas_passes ([] @ Instr (ABRA_L 9) # [Label 9, Instr AHALT]) = Some v" "image v = ?img"
    using two_passes [OF good] code by auto
  obtain s where s: "init_system (\<lambda>_. Some ?img) False (Some ''a.vam'') = Ok () s"
    "loaded ?img (mem s)" "pc s = 0"
    using load_image_loaded [of ?img] by auto
  obtain op t where t: "vam_step s = step_result (pc s) op t" "pc t = 5"
    using branch_reaches_label [OF good v(1), of s 9] s(2,3) v(2) lab by (auto simp: MEMMAX_def)
  with s show ?thesis by blast
qed

text \<open>C40: A label written on the line of an instruction stands for the address behind that
  instruction, because its action runs after the instruction's: whatever the instruction, the label
  and the rest of the program, the same program with the label on a line of its own before the
  instruction gives the label the instruction's address, and with the label on its line the address
  of the next one.\<close>

theorem same_line_label_skips:
  assumes "good_program (pre @ LabelInstr l i # post)"
  shows "let one = pre @ LabelInstr l i # post; two = pre @ Label l # Instr i # post;
             a = of_nat (length (program_code (label_addr one) 0 pre)); len = of_nat (asm_len i)
    in 0 < asm_len i \<and>
       (\<exists>g. vas_passes one = Some g \<and> labtab g ! unat l = a + len \<and>
          image g = program_code (label_addr one) 0 pre @ code (label_addr one) a i @
            program_code (label_addr one) (a + len) post) \<and>
       (\<exists>g. vas_passes two = Some g \<and> labtab g ! unat l = a \<and>
          image g = program_code (label_addr two) 0 pre @ code (label_addr two) a i @
            program_code (label_addr two) (a + len) post)"
proof -
  let ?p = "pre @ LabelInstr l i # post" and ?q = "pre @ Label l # Instr i # post"
  let ?a = "sum_list (map stmt_size pre)"
  have good: "good_program ?q"
    using assms by (auto simp: good_program_def label_defs_append)
  obtain g where g: "vas_passes ?p = Some g" "image g = program_code (label_addr ?p) 0 ?p"
    using two_passes [OF assms] by blast
  obtain g' where g': "vas_passes ?q = Some g'" "image g' = program_code (label_addr ?q) 0 ?q"
    using two_passes [OF good] by blast
  have "(l, ?a + of_nat (asm_len i)) \<in> set (label_defs 0 ?p)" and "(l, ?a) \<in> set (label_defs 0 ?q)"
    by (simp_all add: label_defs_append)
  note lab = label_addr_defined [OF assms this(1)] label_addr_defined [OF good this(2)]
  have len: "0 < asm_len i" by (cases i) simp_all
  have "labtab g ! unat l = ?a + of_nat (asm_len i)" and "labtab g' ! unat l = ?a"
    using labels_known [OF assms g(1) lab(2)] labels_known [OF good g'(1) lab(2)] lab(1,3) by simp_all
  with g g' len show ?thesis
    unfolding Let_def by (auto simp: program_code_length code_of_instr)
qed

theorem same_line_label_skips_witness:
  "\<exists>g g'. vas_passes [LabelInstr 7 (ABRA_L 7)] = Some g \<and> labtab g ! 7 = 5 \<and>
     image g = [I_BRA, 0, 0, 0, 5] \<and>
     vas_passes [Label 7, Instr (ABRA_L 7)] = Some g' \<and> labtab g' ! 7 = 0 \<and>
     image g' = [I_BRA, 0, 0, 0, 0]"
proof -
  have "good_program ([] @ LabelInstr 7 (ABRA_L 7) # [])"
    by (simp add: good_program_def MAXLAB_def)
  from same_line_label_skips [OF this] show ?thesis
    by (auto simp: Let_def label_addr_def code_def word_bytes_def)
qed

end
