(* ===== verification/Bison.thy ===== *)
theory Bison
  imports Prelude
begin

text \<open>
  The table-driven parser bison puts into the assembler and the compiler (the skeleton
  \<open>bison.simple\<close>, the same text in \<open>csibe/src/compiler/vas.c\<close> and \<open>parser.c\<close>): its tables, its
  state, one definition per label of \<open>yyparse\<close>, and the loop over them. What holds for every
  table that passes an executable check is proved here once: the parser ends, its accesses are
  in range, and it accepts only sentences of the grammar.
\<close>

section \<open>Tables and program\<close>

definition YYFLAG :: int where "YYFLAG = - 32768"
definition YYEMPTY :: int where "YYEMPTY = - 2"
definition YYEOF :: int where "YYEOF = 0"
definition YYTERROR :: int where "YYTERROR = 1"
definition YYINITDEPTH :: nat where "YYINITDEPTH = 200"
definition YYMAXDEPTH :: nat where "YYMAXDEPTH = 10000"

record tables =
  yytranslate :: "int list"
  yyr1 :: "int list"
  yyr2 :: "nat list"
  yydefact :: "int list"
  yydefgoto :: "int list"
  yypact :: "int list"
  yypgoto :: "int list"
  yytable :: "int list"
  yycheck :: "int list"
  yyprhs :: "int list"
  yyrhs :: "int list"
  YYFINAL :: int
  YYNTBASE :: int
  YYLAST :: int
  YYUNDEF :: int

text \<open>
  The code around the skeleton: the scanner, the value it leaves in \<open>yylval\<close>, the action switch
  (rule number, \<open>yyvsp[-k]\<close>, default for \<open>yyval\<close>), the error routine. \<open>stale\<close> is what lies above
  the top of the value stack, which a rule with an empty right hand side takes as its default.
\<close>

record ('v, 'g) grammar = tables +
  yylex :: "'g \<Rightarrow> (int \<times> 'g) option"
  yylval :: "'g \<Rightarrow> 'v"
  yyaction :: "nat \<Rightarrow> (nat \<Rightarrow> 'v) \<Rightarrow> 'v \<Rightarrow> 'g \<Rightarrow> ('v \<times> 'g) option"
  yyerror :: "string \<Rightarrow> 'g \<Rightarrow> 'g"
  stale :: "int list \<Rightarrow> 'g \<Rightarrow> 'v"

text \<open>
  The stacks have their tops first; \<open>yystate\<close> is pushed at \<open>yynewstate\<close>. \<open>yychar1\<close>, the translation of
  \<open>yychar\<close>, is computed anew whenever the tables are consulted and is the first result of
  \<open>read_token\<close>.
\<close>

record ('v, 'g) yy =
  yystate :: int
  yyssp :: "int list"
  yyvsp :: "'v list"
  yystacksize :: nat
  yyerrstatus :: nat
  yynerrs :: nat
  yychar :: int
  globals :: 'g

text \<open>Indexing an array by an \<open>int\<close>.\<close>

definition at :: "'a list \<Rightarrow> int \<Rightarrow> 'a option" where
  "at xs i = (if 0 \<le> i then rd xs (nat i) else None)"

definition YYTRANSLATE :: "'a tables_scheme \<Rightarrow> int \<Rightarrow> int option" where
  "YYTRANSLATE t x = (if x < int (length (yytranslate t)) then at (yytranslate t) x else Some (YYUNDEF t))"

text \<open>The entry for a symbol in a state's row, if the row has one: \<open>yycheck\<close> guards \<open>yytable\<close>.\<close>

definition table_entry :: "'a tables_scheme \<Rightarrow> int \<Rightarrow> int \<Rightarrow> int option option" where
  "table_entry t i sy =
     (if i < 0 \<or> i > YYLAST t then Some None
      else do {
        c \<leftarrow> at (yycheck t) i;
        if c \<noteq> sy then Some None else map_option Some (at (yytable t) i)
      })"

section \<open>The labels of \<open>yyparse\<close>\<close>

datatype label = Newstate | Backup | Default | Reduce int | Errlab | Errlab1 | Errhandle | Errpop

datatype ('v, 'g) outcome = Goto label "('v, 'g) yy" | Return nat "('v, 'g) yy"

definition newstate :: "('v, 'g) grammar \<Rightarrow> ('v, 'g) yy \<Rightarrow> ('v, 'g) outcome" where
  "newstate G p =
     (let p = p\<lparr>yyssp := yystate p # yyssp p\<rparr> in
      if length (yyssp p) \<ge> yystacksize p
      then if yystacksize p \<ge> YYMAXDEPTH
           then Return 2 (p\<lparr>globals := yyerror G ''parser stack overflow'' (globals p)\<rparr>)
           else
             let size = (if 2 * yystacksize p > YYMAXDEPTH then YYMAXDEPTH else 2 * yystacksize p);
                 p = p\<lparr>yystacksize := size\<rparr>
             in if length (yyssp p) \<ge> yystacksize p then Return 1 p else Goto Backup p
      else Goto Backup p)"

definition read_token :: "('v, 'g) grammar \<Rightarrow> ('v, 'g) yy \<Rightarrow> (int \<times> ('v, 'g) yy) option" where
  "read_token G p = do {
     p \<leftarrow> (if yychar p = YYEMPTY
          then do { (c, g) \<leftarrow> yylex G (globals p); Some (p\<lparr>yychar := c, globals := g\<rparr>) }
          else Some p);
     if yychar p \<le> 0 then Some (0, p\<lparr>yychar := YYEOF\<rparr>)
     else do { c \<leftarrow> YYTRANSLATE G (yychar p); Some (c, p) }
   }"

definition shift :: "('v, 'g) grammar \<Rightarrow> int \<Rightarrow> ('v, 'g) yy \<Rightarrow> ('v, 'g) outcome" where
  "shift G yyn p =
     (let p = (if yychar p \<noteq> YYEOF then p\<lparr>yychar := YYEMPTY\<rparr> else p)
      in Goto Newstate
           (p\<lparr>yyvsp := yylval G (globals p) # yyvsp p,
              yyerrstatus := (if yyerrstatus p \<noteq> 0 then yyerrstatus p - 1 else 0),
              yystate := yyn\<rparr>))"

definition backup :: "('v, 'g) grammar \<Rightarrow> ('v, 'g) yy \<Rightarrow> ('v, 'g) outcome option" where
  "backup G p = do {
     yyn \<leftarrow> at (yypact G) (yystate p);
     if yyn = YYFLAG then Some (Goto Default p)
     else do {
       (yychar1, p) \<leftarrow> read_token G p;
       e \<leftarrow> table_entry G (yyn + yychar1) yychar1;
       Some (case e of
          None \<Rightarrow> Goto Default p
        | Some yyn \<Rightarrow>
            if yyn < 0 then (if yyn = YYFLAG then Goto Errlab p else Goto (Reduce (- yyn)) p)
            else if yyn = 0 then Goto Errlab p
            else if yyn = YYFINAL G then Return 0 p
            else shift G yyn p)
     }
   }"

definition yydefault :: "('v, 'g) grammar \<Rightarrow> ('v, 'g) yy \<Rightarrow> ('v, 'g) outcome option" where
  "yydefault G p = do {
     yyn \<leftarrow> at (yydefact G) (yystate p);
     Some (if yyn = 0 then Goto Errlab p else Goto (Reduce yyn) p)
   }"

text \<open>The state after a reduction to the nonterminal \<open>sy\<close> that uncovers the state \<open>below\<close>.\<close>

definition goto_state :: "'a tables_scheme \<Rightarrow> int \<Rightarrow> int \<Rightarrow> int option" where
  "goto_state t sy below = do {
     base \<leftarrow> at (yypgoto t) (sy - YYNTBASE t);
     e \<leftarrow> table_entry t (base + below) below;
     case e of Some st \<Rightarrow> Some st | None \<Rightarrow> at (yydefgoto t) (sy - YYNTBASE t)
   }"

definition reduce :: "('v, 'g) grammar \<Rightarrow> int \<Rightarrow> ('v, 'g) yy \<Rightarrow> ('v, 'g) outcome option" where
  "reduce G yyn p = do {
     yylen \<leftarrow> at (yyr2 G) yyn;
     d \<leftarrow> (if yylen = 0 then Some (stale G (yyssp p) (globals p)) else rd (yyvsp p) (yylen - 1));
     (yyval, g) \<leftarrow> yyaction G (nat yyn) (\<lambda>k. yyvsp p ! k) d (globals p);
     sy \<leftarrow> at (yyr1 G) yyn;
     (let ss = drop yylen (yyssp p); vs = drop yylen (yyvsp p) in do {
        below \<leftarrow> rd ss 0;
        st \<leftarrow> goto_state G sy below;
        Some (Goto Newstate (p\<lparr>yyssp := ss, yyvsp := yyval # vs, yystate := st, globals := g\<rparr>))
      })
   }"

definition errlab :: "('v, 'g) grammar \<Rightarrow> ('v, 'g) yy \<Rightarrow> ('v, 'g) outcome" where
  "errlab G p =
     Goto Errlab1
       (if yyerrstatus p = 0
        then p\<lparr>yynerrs := yynerrs p + 1, globals := yyerror G ''parse error'' (globals p)\<rparr>
        else p)"

definition errlab1 :: "('v, 'g) yy \<Rightarrow> ('v, 'g) outcome" where
  "errlab1 p =
     (if yyerrstatus p = 3
      then if yychar p = YYEOF then Return 1 p
           else Goto Errhandle (p\<lparr>yychar := YYEMPTY, yyerrstatus := 3\<rparr>)
      else Goto Errhandle (p\<lparr>yyerrstatus := 3\<rparr>))"

definition errhandle :: "('v, 'g) grammar \<Rightarrow> ('v, 'g) yy \<Rightarrow> ('v, 'g) outcome option" where
  "errhandle G p = do {
     yyn \<leftarrow> at (yypact G) (yystate p);
     if yyn = YYFLAG then Some (Goto Errpop p)
     else do {
       e \<leftarrow> table_entry G (yyn + YYTERROR) YYTERROR;
       Some (case e of
          None \<Rightarrow> Goto Errpop p
        | Some yyn \<Rightarrow>
            if yyn < 0 then (if yyn = YYFLAG then Goto Errpop p else Goto (Reduce (- yyn)) p)
            else if yyn = 0 then Goto Errpop p
            else if yyn = YYFINAL G then Return 0 p
            else Goto Newstate
                   (p\<lparr>yyvsp := yylval G (globals p) # yyvsp p, yystate := yyn\<rparr>))
     }
   }"

definition errpop :: "('v, 'g) yy \<Rightarrow> ('v, 'g) outcome option" where
  "errpop p =
     (if length (yyssp p) = 1 then Some (Return 1 p)
      else do {
        st \<leftarrow> rd (yyssp p) 1;
        Some (Goto Errhandle (p\<lparr>yyvsp := tl (yyvsp p), yyssp := tl (yyssp p), yystate := st\<rparr>))
      })"

fun yystep :: "('v, 'g) grammar \<Rightarrow> label \<Rightarrow> ('v, 'g) yy \<Rightarrow> ('v, 'g) outcome option" where
  "yystep G Newstate p = Some (newstate G p)"
| "yystep G Backup p = backup G p"
| "yystep G Default p = yydefault G p"
| "yystep G (Reduce yyn) p = reduce G yyn p"
| "yystep G Errlab p = Some (errlab G p)"
| "yystep G Errlab1 p = Some (errlab1 p)"
| "yystep G Errhandle p = errhandle G p"
| "yystep G Errpop p = errpop p"

text \<open>
  \<open>yyparse\<close> from a label on. \<open>Undefined\<close> tells where an access was out of range, of the parser or of an action,
  and no value at all a parser that does not return.
\<close>

datatype ('v, 'g) result = Undefined label "('v, 'g) yy" | Returned nat "('v, 'g) yy"

partial_function (option) yyrun ::
  "('v, 'g) grammar \<Rightarrow> label \<Rightarrow> ('v, 'g) yy \<Rightarrow> ('v, 'g) result option" where
  "yyrun G l p =
     (case yystep G l p of
        None \<Rightarrow> Some (Undefined l p)
      | Some (Return n p) \<Rightarrow> Some (Returned n p)
      | Some (Goto l p) \<Rightarrow> yyrun G l p)"

declare yyrun.simps [code]

lemma yyrun_steps:
  "yystep G l p = Some (Goto l' p') \<Longrightarrow> yyrun G l p = yyrun G l' p'"
  "yystep G l p = Some (Return n p') \<Longrightarrow> yyrun G l p = Some (Returned n p')"
  "yystep G l p = None \<Longrightarrow> yyrun G l p = Some (Undefined l p)"
  by (subst yyrun.simps, simp)+

text \<open>\<open>v\<close> is the element of the value stack that is wasted below the first state.\<close>

definition yystart :: "'v \<Rightarrow> 'g \<Rightarrow> ('v, 'g) yy" where
  "yystart v g =
     \<lparr>yystate = 0, yyssp = [], yyvsp = [v], yystacksize = YYINITDEPTH, yyerrstatus = 0,
      yynerrs = 0, yychar = YYEMPTY, globals = g\<rparr>"

definition yyparse :: "('v, 'g) grammar \<Rightarrow> 'v \<Rightarrow> 'g \<Rightarrow> ('v, 'g) result option" where
  "yyparse G v g = yyrun G Newstate (yystart v g)"

text \<open>The configurations a call of \<open>yyparse\<close> goes through.\<close>

inductive yyreach :: "('v, 'g) grammar \<Rightarrow> 'v \<Rightarrow> 'g \<Rightarrow> label \<Rightarrow> ('v, 'g) yy \<Rightarrow> bool" for G v g where
  start: "yyreach G v g Newstate (yystart v g)"
| step: "yyreach G v g l p \<Longrightarrow> yystep G l p = Some (Goto l' p') \<Longrightarrow> yyreach G v g l' p'"

section \<open>Checking the tables\<close>

text \<open>
  A certificate gives for every state the states that may lie below it on the stack, the symbol it
  was entered on, and two weights that pay for the reductions before the next shift.
\<close>

type_synonym certificate = "(int list \<times> int \<times> nat \<times> nat) list"

text \<open>The right hand side of a rule.\<close>

definition rhs :: "'a tables_scheme \<Rightarrow> int \<Rightarrow> int list option" where
  "rhs t r = do {
     start \<leftarrow> at (yyprhs t) r;
     len \<leftarrow> at (yyr2 t) r;
     those (map (at (yyrhs t)) [start..start + int len - 1])
   }"

text \<open>A reduction to \<open>lhs\<close> in a state \<open>q\<close>, with the symbols still to be taken off, last first.\<close>

fun unwind_ok :: "'a tables_scheme \<Rightarrow> certificate \<Rightarrow> int \<Rightarrow> int list \<Rightarrow> nat \<Rightarrow> int \<Rightarrow> bool" where
  "unwind_ok t C lhs [] pot q =
     (case goto_state t lhs q of
        None \<Rightarrow> False
      | Some g \<Rightarrow>
          (case at C g of
             None \<Rightarrow> False
           | Some (ps, x, w, u) \<Rightarrow> q \<in> set ps \<and> x = lhs \<and> w + u < pot))"
| "unwind_ok t C lhs (x # xs) pot q =
     (q \<noteq> 0 \<and>
      (case at C q of
         None \<Rightarrow> False
       | Some (ps, y, w, u) \<Rightarrow> y = x \<and> list_all (unwind_ok t C lhs xs (pot + w)) ps))"

text \<open>A state in which the end of the input is accepted.\<close>

definition accepting :: "'a tables_scheme \<Rightarrow> int \<Rightarrow> bool" where
  "accepting t q \<longleftrightarrow>
     (case at (yypact t) q of
        None \<Rightarrow> False
      | Some b \<Rightarrow> b \<noteq> YYFLAG \<and> table_entry t b 0 = Some (Some (YYFINAL t)))"

definition reduce_ok :: "'a tables_scheme \<Rightarrow> certificate \<Rightarrow> int \<Rightarrow> nat \<Rightarrow> int \<Rightarrow> bool" where
  "reduce_ok t C q u r =
     (case (at (yyr1 t) r, rhs t r) of
        (Some lhs, Some xs) \<Rightarrow> unwind_ok t C lhs (rev xs) u q
      | _ \<Rightarrow> False)"

definition move_ok :: "'a tables_scheme \<Rightarrow> certificate \<Rightarrow> int \<Rightarrow> nat \<Rightarrow> int \<Rightarrow> int \<Rightarrow> bool" where
  "move_ok t C q u c yyn =
     (if yyn = YYFLAG \<or> yyn = 0 \<or> yyn = YYFINAL t then True
      else if yyn < 0 then reduce_ok t C q u (- yyn)
      else (case at C yyn of
              None \<Rightarrow> False
            | Some (ps, x, w, u') \<Rightarrow> q \<in> set ps \<and> x = c \<and> (c = 0 \<longrightarrow> w + u' < u \<and> accepting t yyn)))"

definition symbol_ok :: "'a tables_scheme \<Rightarrow> certificate \<Rightarrow> int \<Rightarrow> nat \<Rightarrow> int \<Rightarrow> int \<Rightarrow> bool" where
  "symbol_ok t C q u b c =
     (case table_entry t (b + c) c of
        None \<Rightarrow> False
      | Some None \<Rightarrow> True
      | Some (Some yyn) \<Rightarrow> move_ok t C q u c yyn)"

definition state_ok :: "'a tables_scheme \<Rightarrow> certificate \<Rightarrow> int \<Rightarrow> bool" where
  "state_ok t C q =
     (case (at (yypact t) q, at (yydefact t) q, at C q) of
        (Some b, Some d, Some (ps, x, w, u)) \<Rightarrow>
          (d \<noteq> 0 \<longrightarrow> reduce_ok t C q u d) \<and>
          (if b = YYFLAG then d \<noteq> 0 else list_all (symbol_ok t C q u b) [0..YYNTBASE t - 1])
      | _ \<Rightarrow> False)"

definition tables_ok :: "'a tables_scheme \<Rightarrow> certificate \<Rightarrow> bool" where
  "tables_ok t C \<longleftrightarrow>
     C \<noteq> [] \<and> yytranslate t \<noteq> [] \<and> 0 < YYFINAL t \<and> YYTERROR < YYNTBASE t \<and>
     list_all (\<lambda>c. 0 < c \<and> c < YYNTBASE t) (tl (yytranslate t)) \<and>
     list_all (state_ok t C) [0..int (length C) - 1]"

text \<open>Indexing a constant table, as one rewrite rule for each index.\<close>

lemmas upto_simps [simp] =
  upto.simps [of 0 "numeral n" for n] upto.simps [of 1 "numeral n" for n]
  upto.simps [of "numeral m" "numeral n" for m n]

lemma map_at:
  assumes "xs = ys"
  shows "map (at xs) [0..int (length ys) - 1] = map Some ys"
proof (rule nth_equalityI)
  fix i assume "i < length (map (at xs) [0..int (length ys) - 1])"
  then show "map (at xs) [0..int (length ys) - 1] ! i = map Some ys ! i"
    using assms by (simp add: at_def rd_def)
qed simp

section \<open>Stacks as paths\<close>

definition weight :: "certificate \<Rightarrow> int \<Rightarrow> nat" where
  "weight C q = (case at C q of Some (ps, x, w, u) \<Rightarrow> w | None \<Rightarrow> 0)"

definition credit :: "certificate \<Rightarrow> int \<Rightarrow> nat" where
  "credit C q = (case at C q of Some (ps, x, w, u) \<Rightarrow> u | None \<Rightarrow> 0)"

definition symbol :: "certificate \<Rightarrow> int \<Rightarrow> int" where
  "symbol C q = (case at C q of Some (ps, x, w, u) \<Rightarrow> x | None \<Rightarrow> 0)"

fun path :: "certificate \<Rightarrow> int list \<Rightarrow> bool" where
  "path C [] = False"
| "path C [q] = (q = 0 \<and> at C q \<noteq> None)"
| "path C (q # p # ss) = ((\<exists>ps x w u. at C q = Some (ps, x, w, u) \<and> p \<in> set ps) \<and> path C (p # ss))"

definition potential :: "certificate \<Rightarrow> int list \<Rightarrow> nat" where
  "potential C ss = sum_list (map (weight C) ss)"

lemma path_state: "path C (q # ss) \<Longrightarrow> at C q \<noteq> None"
  by (cases ss) auto

lemma path_pop: "path C (q # p # ss) \<Longrightarrow> path C (p # ss)"
  by simp

lemma unwind_path:
  assumes "path C ss" and "unwind_ok t C lhs xs pot (hd ss)"
  shows "\<exists>p rest g. drop (length xs) ss = p # rest \<and> goto_state t lhs p = Some g \<and>
     path C (g # p # rest) \<and> symbol C g = lhs \<and> map (symbol C) (take (length xs) ss) = xs \<and>
     weight C g + credit C g < pot + potential C (take (length xs) ss)"
  using assms
proof (induction xs arbitrary: ss pot)
  case Nil
  then obtain q rest where ss: "ss = q # rest" by (cases ss) auto
  with Nil.prems(2) obtain g ps w u where
    "goto_state t lhs q = Some g" "at C g = Some (ps, lhs, w, u)" "q \<in> set ps" "w + u < pot"
    by (auto split: option.splits)
  with Nil.prems(1) ss show ?case
    by (intro exI [of _ q] exI [of _ rest] exI [of _ g])
       (simp add: weight_def credit_def symbol_def potential_def)
next
  case (Cons x xs)
  then obtain q ss' where ss: "ss = q # ss'" by (cases ss) auto
  from Cons.prems(2) ss obtain ps w u where q: "q \<noteq> 0" "at C q = Some (ps, x, w, u)"
    "list_all (unwind_ok t C lhs xs (pot + w)) ps"
    by (auto split: option.splits)
  from Cons.prems(1) ss q obtain p rest where p: "ss' = p # rest" "p \<in> set ps" "path C ss'"
    by (cases ss') auto
  with q(3) have "unwind_ok t C lhs xs (pot + w) (hd ss')" by (simp add: list_all_iff)
  from Cons.IH [OF p(3) this] q(2) ss show ?case
    by (simp add: weight_def symbol_def potential_def add.assoc)
qed

text \<open>A grammar without nesting has bounded stacks: its states can be put on levels.\<close>

definition levels_ok :: "certificate \<Rightarrow> nat list \<Rightarrow> nat \<Rightarrow> int \<Rightarrow> bool" where
  "levels_ok C D n q =
     (case (at C q, at D q) of
        (Some (ps, x, w, u), Some d) \<Rightarrow>
          d \<le> n \<and> list_all (\<lambda>p. case at D p of None \<Rightarrow> False | Some e \<Rightarrow> e < d) ps
      | _ \<Rightarrow> False)"

lemma path_length:
  assumes "path C ss" and "\<And>q. at C q \<noteq> None \<Longrightarrow> levels_ok C D n q"
  shows "length ss \<le> Suc n"
proof -
  have "\<exists>d. at D (hd ss) = Some d \<and> length ss \<le> Suc d \<and> d \<le> n"
    using assms(1)
  proof (induction ss rule: induct_list012)
    case (3 q p ss)
    from 3(3) obtain ps x w u where q: "at C q = Some (ps, x, w, u)" "p \<in> set ps" "path C (p # ss)"
      by auto
    from 3(2) [OF q(3)] obtain e where e: "at D p = Some e" "length (p # ss) \<le> Suc e" by auto
    from q(1) assms(2) [of q] obtain d where "at D q = Some d" "d \<le> n"
      "list_all (\<lambda>p. case at D p of None \<Rightarrow> False | Some e \<Rightarrow> e < d) ps"
      by (auto simp: levels_ok_def split: option.splits)
    with q(2) e show ?case by (auto simp: list_all_iff)
  next
    case (2 q)
    with assms(2) [of q] show ?case by (auto simp: levels_ok_def split: option.splits)
  qed simp
  then show ?thesis by auto
qed

lemma those_length: "those xs = Some ys \<Longrightarrow> length ys = length xs"
  by (induction xs arbitrary: ys) (auto split: option.splits)

section \<open>The parser ends and stays inside its arrays\<close>

definition stack :: "label \<Rightarrow> ('v, 'g) yy \<Rightarrow> int list" where
  "stack l p = (if l = Newstate then yystate p # yyssp p else yyssp p)"

text \<open>What holds whenever control is at a label.\<close>

definition good :: "('v, 'g) grammar \<Rightarrow> certificate \<Rightarrow> label \<Rightarrow> ('v, 'g) yy \<Rightarrow> bool" where
  "good G C l p \<longleftrightarrow>
     path C (stack l p) \<and> length (yyvsp p) = length (stack l p) \<and> yystate p = hd (stack l p) \<and>
     (yychar p = YYEMPTY \<or> 0 \<le> yychar p \<and> yychar p < int (length (yytranslate G))) \<and>
     (l = Default \<and> yychar p = YYEMPTY \<longrightarrow> at (yypact G) (yystate p) = Some YYFLAG) \<and>
     (l = Errlab \<or> l = Errlab1 \<longrightarrow> yychar p \<noteq> YYEMPTY) \<and>
     (\<forall>r. l = Reduce r \<longrightarrow> reduce_ok G C (yystate p) (credit C (yystate p)) r)"

text \<open>
  What decreases: the tokens to come, then the error status, then the way from error recovery to
  shifting to the next error, then the height of the stack or the reductions it can still pay for.
\<close>

definition tokens :: "('g \<Rightarrow> nat) \<Rightarrow> ('v, 'g) yy \<Rightarrow> nat" where
  "tokens fuel p = fuel (globals p) + (if yychar p > 0 then 1 else 0)"

definition recovery :: "('v, 'g) grammar \<Rightarrow> label \<Rightarrow> ('v, 'g) yy \<Rightarrow> nat" where
  "recovery G l p =
     (if (l = Newstate \<or> l = Backup) \<and> yychar p = YYEOF \<and> accepting G (yystate p) then 0
      else if yyerrstatus p = 3 then 0 else 1)"

fun phase :: "certificate \<Rightarrow> label \<Rightarrow> ('v, 'g) yy \<Rightarrow> nat \<times> nat" where
  "phase C Errlab p = (0, 1)"
| "phase C Errlab1 p = (0, 0)"
| "phase C Errhandle p = (2, 2 * length (yyssp p) + 1)"
| "phase C Errpop p = (2, 2 * length (yyssp p))"
| "phase C l p =
     (1, 4 * (potential C (stack l p) + credit C (yystate p)) +
         (case l of Newstate \<Rightarrow> 3 | Backup \<Rightarrow> 2 | Default \<Rightarrow> 1 | _ \<Rightarrow> 0))"

definition yyorder ::
  "('v, 'g) grammar \<Rightarrow> certificate \<Rightarrow> ('g \<Rightarrow> nat) \<Rightarrow> ((label \<times> ('v, 'g) yy) \<times> (label \<times> ('v, 'g) yy)) set" where
  "yyorder G C fuel =
     inv_image (less_than <*lex*> less_than <*lex*> less_than <*lex*> less_than)
       (\<lambda>(l, p). (tokens fuel p, recovery G l p, phase C l p))"

lemma wf_yyorder: "wf (yyorder G C fuel)"
  unfolding yyorder_def by (intro wf_inv_image wf_lex_prod wf_less_than)

text \<open>A step that is not one of the tables: the scanner or an action is undefined.\<close>

definition stuck :: "('v, 'g) grammar \<Rightarrow> label \<Rightarrow> ('v, 'g) yy \<Rightarrow> bool" where
  "stuck G l p \<longleftrightarrow>
     (l = Backup \<and> yychar p = YYEMPTY \<and> yylex G (globals p) = None) \<or>
     (\<exists>r d. l = Reduce r \<and> yyaction G (nat r) (\<lambda>k. yyvsp p ! k) d (globals p) = None)"

definition progress ::
  "('v, 'g) grammar \<Rightarrow> certificate \<Rightarrow> ('g \<Rightarrow> nat) \<Rightarrow> label \<Rightarrow> ('v, 'g) yy \<Rightarrow> bool" where
  "progress G C fuel l p =
     (case yystep G l p of
        None \<Rightarrow> stuck G l p
      | Some (Return n p') \<Rightarrow> n \<le> 2 \<and> (n = 2 \<longrightarrow> YYMAXDEPTH \<le> length (stack l p))
      | Some (Goto l' p') \<Rightarrow> good G C l' p' \<and> ((l', p'), (l, p)) \<in> yyorder G C fuel)"

lemmas progress_simps = progress_def good_def stack_def yyorder_def tokens_def recovery_def Let_def

lemma yyorder_iff:
  "((l', p'), (l, p)) \<in> yyorder G C fuel \<longleftrightarrow>
     tokens fuel p' < tokens fuel p \<or> tokens fuel p' = tokens fuel p \<and>
       (recovery G l' p' < recovery G l p \<or> recovery G l' p' = recovery G l p \<and>
          (fst (phase C l' p') < fst (phase C l p) \<or> fst (phase C l' p') = fst (phase C l p) \<and>
             snd (phase C l' p') < snd (phase C l p)))"
  by (cases "phase C l' p'"; cases "phase C l p") (simp add: yyorder_def)

locale lalr =
  fixes G :: "('v, 'g) grammar" and C :: certificate and fuel :: "'g \<Rightarrow> nat"
  assumes ok: "tables_ok G C"
    and lex_range: "yylex G g = Some (c, g') \<Longrightarrow> c < int (length (yytranslate G))"
    and lex_fuel: "yylex G g = Some (c, g') \<Longrightarrow> fuel g' \<le> fuel g \<and> (0 < c \<longrightarrow> fuel g' < fuel g)"
    and act_fuel: "yyaction G r v d g = Some (x, g') \<Longrightarrow> fuel g' = fuel g"
    and err_fuel: "fuel (yyerror G m g) = fuel g"
begin

lemma state_in_tables:
  assumes "at C q \<noteq> None"
  obtains b d where "at (yypact G) q = Some b" "at (yydefact G) q = Some d"
    "d \<noteq> 0 \<Longrightarrow> reduce_ok G C q (credit C q) d" "b = YYFLAG \<Longrightarrow> d \<noteq> 0"
    "\<And>c. b \<noteq> YYFLAG \<Longrightarrow> 0 \<le> c \<Longrightarrow> c < YYNTBASE G \<Longrightarrow> symbol_ok G C q (credit C q) b c"
proof -
  from assms have "q \<in> set [0..int (length C) - 1]"
    by (auto simp: at_def rd_def split: if_splits)
  with ok have "state_ok G C q" by (simp add: tables_ok_def list_all_iff)
  then show thesis
    by (auto simp: state_ok_def credit_def list_all_iff intro!: that split: option.splits if_splits)
qed

lemma translated:
  assumes "0 < c" and "c < int (length (yytranslate G))"
  shows "\<exists>d. YYTRANSLATE G c = Some d \<and> 0 < d \<and> d < YYNTBASE G"
proof -
  from assms obtain i where "nat c = Suc i" "i < length (tl (yytranslate G))"
    by (cases "nat c") (auto simp: nat_eq_iff)
  then have "yytranslate G ! nat c \<in> set (tl (yytranslate G))"
    by (metis nth_mem nth_tl)
  with ok assms show ?thesis
    by (auto simp: YYTRANSLATE_def at_def rd_def tables_ok_def list_all_iff)
qed

lemma newstate_progress: "good G C Newstate p \<Longrightarrow> progress G C fuel Newstate p"
  by (auto simp: progress_simps newstate_def YYMAXDEPTH_def)

lemma default_progress:
  assumes "good G C Default p"
  shows "progress G C fuel Default p"
proof -
  from assms have "at C (yystate p) \<noteq> None"
    using path_state [of C "hd (yyssp p)" "tl (yyssp p)"] by (cases "yyssp p") (auto simp: good_def stack_def)
  then obtain b d where "at (yypact G) (yystate p) = Some b" "at (yydefact G) (yystate p) = Some d"
    "d \<noteq> 0 \<Longrightarrow> reduce_ok G C (yystate p) (credit C (yystate p)) d" "b = YYFLAG \<Longrightarrow> d \<noteq> 0"
    by (rule state_in_tables) blast
  with assms show ?thesis by (auto simp: progress_simps yydefault_def)
qed

lemma read_token_none:
  assumes "read_token G p = None"
    and "yychar p = YYEMPTY \<or> 0 \<le> yychar p \<and> yychar p < int (length (yytranslate G))"
  shows "yychar p = YYEMPTY \<and> yylex G (globals p) = None"
proof -
  have tr: "\<exists>d. YYTRANSLATE G c = Some d" if "\<not> c \<le> 0" "c < int (length (yytranslate G))" for c
    using translated [of c] that by auto
  show ?thesis
  proof (rule ccontr)
    assume some: "\<not> (yychar p = YYEMPTY \<and> yylex G (globals p) = None)"
    show False
    proof (cases "yychar p = YYEMPTY")
      case True
      with some obtain c g where "yylex G (globals p) = Some (c, g)" by auto
      with True assms(1) tr [of c] lex_range show False
        by (auto simp: read_token_def split: if_splits)
    next
      case False
      with assms tr [of "yychar p"] show False
        by (auto simp: read_token_def split: if_splits)
    qed
  qed
qed

lemma read_token_some:
  assumes "read_token G p = Some (d, p')"
    and "yychar p = YYEMPTY \<or> 0 \<le> yychar p \<and> yychar p < int (length (yytranslate G))"
  obtains c g where "p' = p\<lparr>yychar := c, globals := g\<rparr>"
    "0 \<le> c" "c < int (length (yytranslate G))" "0 \<le> d" "d < YYNTBASE G" "c = 0 \<longleftrightarrow> d = 0"
    "tokens fuel p' \<le> tokens fuel p" "yychar p \<noteq> YYEMPTY \<Longrightarrow> c = yychar p \<and> g = globals p"
proof -
  obtain c g where q: "c < int (length (yytranslate G))"
      "yychar p \<noteq> YYEMPTY \<Longrightarrow> c = yychar p \<and> 0 \<le> c \<and> g = globals p"
      "fuel g + (if 0 < c then 1 else 0) \<le> tokens fuel p"
    and p': "(if c \<le> 0 then Some (0, p\<lparr>yychar := c, globals := g, yychar := YYEOF\<rparr>)
       else do { d \<leftarrow> YYTRANSLATE G c; Some (d, p\<lparr>yychar := c, globals := g\<rparr>) }) = Some (d, p')"
  proof (cases "yychar p = YYEMPTY")
    case True
    with assms(1) obtain c g where "yylex G (globals p) = Some (c, g)"
      by (auto simp: read_token_def split: bind_splits)
    with True assms(1) lex_range lex_fuel [of "globals p" c g] show thesis
      by (intro that [of c g]) (auto simp: read_token_def tokens_def YYEMPTY_def)
  next
    case False
    with assms show thesis
      by (intro that [of "yychar p" "globals p"]) (auto simp: read_token_def tokens_def)
  qed
  show thesis
  proof (cases "c \<le> 0")
    case True
    with p' q ok show thesis
      by (intro that [of g 0]) (auto simp: YYEOF_def tables_ok_def YYTERROR_def tokens_def)
  next
    case False
    then obtain d' where "YYTRANSLATE G c = Some d'" "0 < d'" "d' < YYNTBASE G"
      using translated [of c] q(1) by auto
    with False p' q show thesis
      by (intro that [of g c]) (auto simp: tokens_def)
  qed
qed

lemma good_state:
  assumes "good G C l p" and "l \<noteq> Newstate"
  obtains q ss where "yyssp p = q # ss" "yystate p = q" "at C q \<noteq> None"
  using assms path_state by (cases "yyssp p") (auto simp: good_def stack_def)

lemma backup_progress:
  assumes "good G C Backup p"
  shows "progress G C fuel Backup p"
proof -
  from assms obtain q ss where ss: "yyssp p = q # ss" "yystate p = q" "at C q \<noteq> None"
    by (rule good_state) simp
  from ss(3) obtain b d where b: "at (yypact G) q = Some b"
    and sy: "\<And>c. b \<noteq> YYFLAG \<Longrightarrow> 0 \<le> c \<Longrightarrow> c < YYNTBASE G \<Longrightarrow> symbol_ok G C q (credit C q) b c"
    by (rule state_in_tables) blast
  have range: "yychar p = YYEMPTY \<or> 0 \<le> yychar p \<and> yychar p < int (length (yytranslate G))"
    using assms by (simp add: good_def)
  show ?thesis
  proof (cases "b = YYFLAG \<or> read_token G p = None")
    case True
    then show ?thesis
    proof
      assume "b = YYFLAG"
      with b ss assms have "yychar p = YYEOF \<Longrightarrow> \<not> accepting G q" by (simp add: accepting_def)
      with \<open>b = YYFLAG\<close> b ss assms show ?thesis by (auto simp: progress_simps backup_def)
    next
      assume none: "read_token G p = None"
      show ?thesis
      proof (cases "b = YYFLAG")
        case True
        with b ss assms have "yychar p = YYEOF \<Longrightarrow> \<not> accepting G q" by (simp add: accepting_def)
        with True b ss assms show ?thesis by (auto simp: progress_simps backup_def)
      next
        case False
        with none b ss read_token_none [OF none range] show ?thesis
          by (simp add: progress_def backup_def stuck_def)
      qed
    qed
  next
    case False
    then obtain d p1 where read: "read_token G p = Some (d, p1)" by auto
    from read_token_some [OF this range] obtain c g where
      p1: "p1 = p\<lparr>yychar := c, globals := g\<rparr>" "read_token G p = Some (d, p1)"
      "0 \<le> c" "c < int (length (yytranslate G))" "0 \<le> d" "d < YYNTBASE G" "c = 0 \<longleftrightarrow> d = 0"
      "tokens fuel p1 \<le> tokens fuel p" "yychar p \<noteq> YYEMPTY \<Longrightarrow> c = yychar p \<and> g = globals p"
      using read by metis
    with sy [of d] False obtain e where e: "table_entry G (b + d) d = Some e"
      by (auto simp: symbol_ok_def split: option.splits)
    have final: "0 < YYFINAL G" "YYFLAG < 0" using ok by (simp_all add: tables_ok_def YYFLAG_def)
    show ?thesis
    proof (cases "e = Some (YYFINAL G)")
      case True
      with final p1(2) b e False ss show ?thesis by (auto simp: progress_simps backup_def p1(1))
    next
      case not_final: False
      then have "\<not> (yychar p = YYEOF \<and> accepting G q)"
        using b e p1 by (auto simp: accepting_def YYEOF_def YYEMPTY_def)
      then have le: "recovery G Backup p = (if yyerrstatus p = 3 then 0 else 1)"
        using ss by (auto simp: recovery_def)
      have step: "backup G p = Some (case e of
          None \<Rightarrow> Goto Default p1
        | Some yyn \<Rightarrow>
            if yyn < 0 then (if yyn = YYFLAG then Goto Errlab p1 else Goto (Reduce (- yyn)) p1)
            else if yyn = 0 then Goto Errlab p1
            else shift G yyn p1)"
        using b e False p1(1,2) not_final ss by (auto simp: backup_def split: option.splits)
      have mv: "move_ok G C q (credit C q) d yyn" if "e = Some yyn" for yyn
        using sy [of d] e that False p1 by (simp add: symbol_ok_def)
      have p1': "yyssp p1 = q # ss" "yyvsp p1 = yyvsp p" "yystate p1 = q" "yychar p1 = c"
        "yyerrstatus p1 = yyerrstatus p" "c \<noteq> YYEMPTY"
        using p1 ss by (simp_all add: YYEMPTY_def)
      then have good: "good G C l p1" if "l = Default \<or> l = Errlab \<or> (\<exists>r. l = Reduce r \<and> reduce_ok G C q (credit C q) r)" for l
        using that assms ss p1(3,4) by (auto simp: good_def stack_def)
      have less: "((l, p1), (Backup, p)) \<in> yyorder G C fuel" if "l = Default \<or> l = Errlab \<or> (\<exists>r. l = Reduce r)" for l
        using that le p1' p1(8) ss unfolding yyorder_iff by (auto simp: recovery_def stack_def)
      show ?thesis
      proof (cases "\<exists>yyn. e = Some yyn \<and> 0 < yyn")
        case True
        then obtain yyn where yyn: "e = Some yyn" "0 < yyn" by auto
        with mv not_final final obtain ps w u where g: "at C yyn = Some (ps, d, w, u)" "q \<in> set ps"
          "d = 0 \<Longrightarrow> w + u < credit C q \<and> accepting G yyn"
          by (auto simp: move_ok_def split: option.splits if_splits)
        have "backup G p = Some (shift G yyn p1)" using step yyn by simp
        moreover have "path C (yyn # q # ss)" using g assms ss by (simp add: good_def stack_def)
        moreover have "((Newstate, p2), (Backup, p)) \<in> yyorder G C fuel"
          if "yychar p2 = (if c = 0 then 0 else YYEMPTY)" "globals p2 = globals p1" "yystate p2 = yyn"
            "yyssp p2 = q # ss" for p2 :: "('v, 'g) yy"
        proof (cases "c = 0")
          case True
          with that g p1' p1(7,8) ss show ?thesis
            unfolding yyorder_iff
            by (auto simp: recovery_def stack_def YYEOF_def tokens_def potential_def weight_def credit_def)
        next
          case False
          with that p1' p1(3,8) show ?thesis
            unfolding yyorder_iff by (auto simp: tokens_def YYEMPTY_def)
        qed
        ultimately show ?thesis
          using assms p1' ss p1(4)
          by (auto simp: progress_def shift_def good_def stack_def YYEOF_def YYEMPTY_def Let_def)
      next
        case False
        with step good less mv final show ?thesis
          by (auto simp: progress_def move_ok_def split: option.splits if_splits)
      qed
    qed
  qed
qed

lemma reduce_progress:
  assumes "good G C (Reduce r) p"
  shows "progress G C fuel (Reduce r) p"
proof -
  from assms obtain q ss where ss: "yyssp p = q # ss" "yystate p = q" "at C q \<noteq> None"
    by (rule good_state) simp
  from assms ss obtain lhs xs where r: "at (yyr1 G) r = Some lhs" "rhs G r = Some xs"
    "unwind_ok G C lhs (rev xs) (credit C q) q"
    by (auto simp: good_def reduce_ok_def split: option.splits)
  have len: "at (yyr2 G) r = Some (length xs)" "0 \<le> r"
    using r(2) by (auto simp: rhs_def at_def split: bind_splits if_splits dest!: those_length)
  have path: "path C (yyssp p)" "length (yyvsp p) = length (yyssp p)"
    using assms by (simp_all add: good_def stack_def)
  from unwind_path [OF path(1), of G lhs "rev xs" "credit C q"] r(3) ss obtain p0 rest g where
    p0: "drop (length xs) (yyssp p) = p0 # rest" "goto_state G lhs p0 = Some g" "path C (g # p0 # rest)"
    "weight C g + credit C g < credit C q + potential C (take (length xs) (yyssp p))"
    by auto
  then have bound: "length xs < length (yyssp p)"
    by (metis drop_eq_Nil2 linorder_not_less list.distinct(1))
  have pot: "potential C (yyssp p) =
      potential C (take (length xs) (yyssp p)) + potential C (p0 # rest)"
    unfolding potential_def p0(1) [symmetric] sum_list_append [symmetric] map_append [symmetric]
    by simp
  obtain d where d: "(if length xs = 0 then Some (stale G (yyssp p) (globals p))
      else rd (yyvsp p) (length xs - 1)) = Some d"
    using bound path(2) by (cases xs) (auto simp: rd_def)
  show ?thesis
  proof (cases "yyaction G (nat r) (\<lambda>k. yyvsp p ! k) d (globals p)")
    case None
    with len d show ?thesis by (auto simp: progress_def reduce_def stuck_def)
  next
    case (Some y)
    then obtain v g' where v: "yyaction G (nat r) (\<lambda>k. yyvsp p ! k) d (globals p) = Some (v, g')"
      by (cases y) auto
    let ?p = "p\<lparr>yyssp := p0 # rest, yyvsp := v # drop (length xs) (yyvsp p), yystate := g, globals := g'\<rparr>"
    have "reduce G r p = Some (Goto Newstate ?p)"
      using len d v r(1) p0 bound by (simp add: reduce_def rd_def Let_def)
    moreover have "((Newstate, ?p), (Reduce r, p)) \<in> yyorder G C fuel"
      using act_fuel [OF v] p0(4) pot ss unfolding yyorder_iff
      by (auto simp: tokens_def recovery_def stack_def potential_def)
    moreover have "length (drop (length xs) (yyvsp p)) = length (p0 # rest)"
      using path(2) unfolding p0(1) [symmetric] by simp
    ultimately show ?thesis
      using assms p0(3) by (simp add: progress_def good_def stack_def)
  qed
qed

lemma errlab_progress: "good G C Errlab p \<Longrightarrow> progress G C fuel Errlab p"
  by (auto simp: progress_simps errlab_def err_fuel)

lemma errlab1_progress: "good G C Errlab1 p \<Longrightarrow> progress G C fuel Errlab1 p"
  by (auto simp: progress_simps errlab1_def YYEMPTY_def YYEOF_def)

lemma errpop_progress:
  assumes "good G C Errpop p"
  shows "progress G C fuel Errpop p"
proof -
  from assms obtain q ss where "yyssp p = q # ss" "yystate p = q" "at C q \<noteq> None"
    by (rule good_state) simp
  moreover obtain v vs where "yyvsp p = v # vs"
    using assms calculation(1) by (cases "yyvsp p") (auto simp: good_def stack_def)
  ultimately show ?thesis
    using assms by (cases ss) (auto simp: progress_simps errpop_def rd_def)
qed

lemma errhandle_progress:
  assumes "good G C Errhandle p"
  shows "progress G C fuel Errhandle p"
proof -
  from assms obtain q ss where ss: "yyssp p = q # ss" "yystate p = q" "at C q \<noteq> None"
    by (rule good_state) simp
  from ss(3) obtain b where b: "at (yypact G) q = Some b"
    and sy: "\<And>c. b \<noteq> YYFLAG \<Longrightarrow> 0 \<le> c \<Longrightarrow> c < YYNTBASE G \<Longrightarrow> symbol_ok G C q (credit C q) b c"
    by (rule state_in_tables) blast
  have "0 \<le> YYTERROR" "YYTERROR < YYNTBASE G" "YYTERROR \<noteq> 0" "0 < YYFINAL G" "YYFLAG < 0"
    using ok by (simp_all add: tables_ok_def YYTERROR_def YYFLAG_def)
  with b sy [of YYTERROR] assms ss show ?thesis
    by (auto simp: progress_simps errhandle_def symbol_ok_def move_ok_def split: option.splits if_splits)
qed

lemma progress: "good G C l p \<Longrightarrow> progress G C fuel l p"
  by (cases l)
     (auto intro: newstate_progress backup_progress default_progress reduce_progress errlab_progress
        errlab1_progress errhandle_progress errpop_progress)

lemma good_start: "good G C Newstate (yystart v g)"
proof -
  have "at C 0 \<noteq> None" using ok by (auto simp: tables_ok_def at_def rd_def)
  then show ?thesis by (simp add: good_def stack_def yystart_def)
qed

lemma reach_good: "yyreach G v g l p \<Longrightarrow> good G C l p"
proof (induction rule: yyreach.induct)
  case (step l p l' p')
  with progress [of l p] show ?case by (simp add: progress_def)
qed (rule good_start)

text \<open>The parser returns, unless the scanner or an action is undefined; its own accesses are in range.\<close>

lemma yyrun_ends:
  assumes "yyreach G v g l p"
  shows "\<exists>r. yyrun G l p = Some r \<and>
    (case r of
       Undefined l' p' \<Rightarrow> yyreach G v g l' p' \<and> stuck G l' p'
     | Returned n p' \<Rightarrow> \<exists>l' q. yyreach G v g l' q \<and> yystep G l' q = Some (Return n p'))"
proof -
  define P where "P = (\<lambda>(l, p). yyreach G v g l p \<longrightarrow> (\<exists>r. yyrun G l p = Some r \<and>
    (case r of
       Undefined l' p' \<Rightarrow> yyreach G v g l' p' \<and> stuck G l' p'
     | Returned n p' \<Rightarrow> \<exists>l' q. yyreach G v g l' q \<and> yystep G l' q = Some (Return n p'))))"
  have "P (l, p)"
  proof (rule wf_induct_rule [OF wf_yyorder [of G C fuel]])
    fix x assume IH: "\<And>y. (y, x) \<in> yyorder G C fuel \<Longrightarrow> P y"
    obtain l p where x: "x = (l, p)" by (cases x)
    have "\<exists>r. yyrun G l p = Some r \<and>
      (case r of
         Undefined l' p' \<Rightarrow> yyreach G v g l' p' \<and> stuck G l' p'
       | Returned n p' \<Rightarrow> \<exists>l' q. yyreach G v g l' q \<and> yystep G l' q = Some (Return n p'))"
      if reach: "yyreach G v g l p"
    proof (cases "yystep G l p")
      case None
      with progress [OF reach_good [OF reach]] reach show ?thesis
        by (subst yyrun.simps) (simp add: progress_def)
    next
      case (Some out)
      show ?thesis
      proof (cases out)
        case (Goto l' p')
        with Some progress [OF reach_good [OF reach]] have "P (l', p')"
          by (intro IH) (simp add: x progress_def)
        with Some Goto yyreach.step [OF reach] show ?thesis
          by (subst yyrun.simps) (simp add: P_def)
      next
        case (Return n p')
        with Some reach show ?thesis by (subst yyrun.simps) auto
      qed
    qed
    then show "P x" by (simp add: x P_def)
  qed
  with assms show ?thesis by (simp add: P_def)
qed

lemma yyparse_ends:
  "\<exists>r. yyparse G v g = Some r \<and>
    (case r of
       Undefined l p \<Rightarrow> yyreach G v g l p \<and> stuck G l p
     | Returned n p \<Rightarrow> \<exists>l q. yyreach G v g l q \<and> yystep G l q = Some (Return n p))"
  unfolding yyparse_def by (rule yyrun_ends [OF yyreach.start])

lemma return_code:
  assumes "yyreach G v g l q" and "yystep G l q = Some (Return n p)"
  shows "n \<le> 2" and "n = 2 \<Longrightarrow> YYMAXDEPTH \<le> length (stack l q)"
  using progress [OF reach_good [OF assms(1)]] assms(2) by (simp_all add: progress_def)

lemma reach_bounded:
  assumes "yyreach G v g l p" and "\<And>q. at C q \<noteq> None \<Longrightarrow> levels_ok C D n q"
  shows "length (stack l p) \<le> Suc n"
  using path_length [OF _ assms(2)] reach_good [OF assms(1)] by (auto simp: good_def)

lemma reach_stacksize:
  assumes "yyreach G v g l p" and "\<And>q. at C q \<noteq> None \<Longrightarrow> levels_ok C D n q" and "Suc n < YYINITDEPTH"
  shows "yystacksize p = YYINITDEPTH"
  using assms(1)
proof (induction rule: yyreach.induct)
  case (step l p l' p')
  have "length (stack l p) \<le> Suc n" using step.hyps(1) assms(2) by (rule reach_bounded)
  with step assms(3) show ?case
    by (cases l)
       (auto simp: newstate_def backup_def read_token_def shift_def yydefault_def reduce_def errlab_def
          errlab1_def errhandle_def errpop_def stack_def Let_def
          split: if_splits bind_splits option.splits)
qed (simp add: yystart_def)

end

end
