(* ===== verification/VAS_Tables.thy ===== *)
theory VAS_Tables
  imports Bison
begin

text \<open>
  The tables bison generated into the assembler (\<open>csibe/src/compiler/vas.c\<close>), as they stand there.
\<close>

definition vas_yytranslate :: "int list" where
  "vas_yytranslate =
    [0, 2, 2, 2, 2, 2, 2, 2, 2, 16, 99, 2, 2, 2, 2, 2, 2, 2, 2, 2, 2, 2, 2, 2, 2, 2, 2, 2, 2, 2, 2,
     2, 15, 72, 73, 74, 75, 76, 77, 78, 18, 19, 91, 89, 17, 80, 96, 98, 5, 6, 7, 8, 9, 10, 11, 12,
     13, 14, 3, 90, 94, 79, 95, 97, 84, 21, 30, 63, 27, 35, 64, 65, 20, 32, 66, 67, 4, 31, 23, 24,
     25, 68, 26, 28, 22, 29, 33, 69, 70, 71, 34, 86, 36, 93, 82, 88, 87, 37, 38, 39, 40, 41, 42, 43,
     44, 45, 46, 47, 48, 49, 50, 51, 52, 53, 54, 55, 56, 57, 58, 59, 60, 61, 62, 85, 83, 92, 81, 2,
     2, 2, 2, 2, 2, 2, 2, 2, 2, 2, 2, 2, 2, 2, 2, 2, 2, 2, 2, 2, 2, 2, 2, 2, 2, 2, 2, 2, 2, 2, 2, 2,
     2, 2, 2, 2, 2, 2, 2, 2, 2, 2, 2, 2, 2, 2, 2, 2, 2, 2, 2, 2, 2, 2, 2, 2, 2, 2, 2, 2, 2, 2, 2, 2,
     2, 2, 2, 2, 2, 2, 2, 2, 2, 2, 2, 2, 2, 2, 2, 2, 2, 2, 2, 2, 2, 2, 2, 2, 2, 2, 2, 2, 2, 2, 2, 2,
     2, 2, 2, 2, 2, 2, 2, 2, 2, 2, 2, 2, 2, 2, 2, 2, 2, 2, 2, 2, 2, 2, 2, 2, 2, 2, 2, 2, 2, 2, 2, 2,
     1, 2]"

definition vas_yyr1 :: "int list" where
  "vas_yyr1 =
    [0, 100, 100, 101, 101, 101, 101, 102, 103, 103, 104, 104, 104, 104, 104, 104, 104, 104, 104,
     104, 105, 105, 106, 106, 107, 107, 107, 107, 107, 107, 107, 107, 107, 107, 107, 107, 107, 107,
     107, 107, 108, 109, 110, 111, 112, 113, 114, 115, 115, 116, 116, 117, 117, 118, 119, 119, 120,
     120, 121, 121, 122, 123, 124, 125, 126, 127, 128, 129, 130, 131, 132, 133, 134, 135, 136, 137,
     138, 139, 140, 141, 142, 142, 142, 143, 143, 144, 144, 144, 144, 144, 144, 144, 144, 144, 144,
     144, 144, 144, 144, 144, 144, 144, 144, 144, 144, 144, 144, 144, 144, 144, 144, 144, 144, 144,
     144, 144, 144, 144, 144, 144, 144, 144, 144, 144, 144, 144, 144, 144, 144, 144, 144, 144, 144,
     144, 144, 144, 144, 144, 144, 144, 144, 144, 144, 144, 144, 144, 144, 144, 144, 144, 144, 144,
     144, 144, 144, 144, 144, 144, 144, 144, 144, 144, 144, 144, 144, 144, 144, 144, 144, 144, 144,
     144, 144, 144, 144, 144, 144, 144, 144, 144, 145]"

definition vas_yyr2 :: "nat list" where
  "vas_yyr2 =
    [0, 1, 2, 2, 4, 6, 4, 2, 2, 1, 1, 1, 1, 1, 1, 1, 1, 1, 1, 1, 1, 2, 1, 1, 1, 1, 1, 1, 1, 1, 1, 1,
     1, 1, 1, 1, 1, 1, 1, 1, 1, 1, 1, 5, 5, 5, 5, 8, 5, 8, 5, 8, 5, 5, 3, 3, 3, 3, 3, 3, 5, 3, 4, 3,
     4, 3, 3, 3, 3, 3, 3, 3, 3, 3, 3, 3, 3, 2, 2, 1, 1, 2, 0, 2, 1, 1, 1, 1, 1, 1, 1, 1, 1, 1, 1, 1,
     1, 1, 1, 1, 1, 1, 1, 1, 1, 1, 1, 1, 1, 1, 1, 1, 1, 1, 1, 1, 1, 1, 1, 1, 1, 1, 1, 1, 1, 1, 1, 1,
     1, 1, 1, 1, 1, 1, 1, 1, 1, 1, 1, 1, 1, 1, 1, 1, 1, 1, 1, 1, 1, 1, 1, 1, 1, 1, 1, 1, 1, 1, 1, 1,
     1, 1, 1, 1, 1, 1, 1, 1, 1, 1, 1, 1, 1, 1, 1, 1, 1, 1, 1, 1, 1]"

definition vas_yydefact :: "int list" where
  "vas_yydefact =
    [82, 0, 22, 23, 84, 82, 1, 0, 0, 20, 0, 80, 10, 11, 12, 13, 14, 15, 16, 17, 18, 19, 7, 9, 2, 82,
     0, 0, 0, 0, 0, 0, 0, 0, 0, 21, 82, 24, 25, 26, 27, 28, 29, 30, 31, 32, 33, 34, 35, 36, 37, 38,
     39, 40, 41, 42, 0, 0, 0, 0, 0, 0, 0, 0, 0, 0, 0, 0, 0, 81, 180, 3, 170, 123, 138, 139, 140,
     141, 142, 143, 144, 145, 146, 147, 175, 155, 156, 119, 112, 131, 125, 126, 127, 129, 115, 130,
     132, 113, 124, 120, 133, 137, 116, 161, 86, 87, 88, 89, 90, 91, 92, 93, 94, 95, 96, 97, 98, 99,
     100, 101, 102, 103, 104, 105, 106, 107, 108, 109, 110, 111, 114, 117, 118, 121, 122, 128, 134,
     135, 136, 148, 149, 150, 151, 152, 153, 154, 157, 158, 159, 160, 162, 163, 164, 165, 166, 167,
     168, 169, 171, 172, 173, 174, 176, 177, 178, 179, 85, 83, 8, 0, 0, 0, 0, 0, 0, 0, 77, 0, 0, 0,
     0, 0, 0, 0, 0, 0, 0, 0, 0, 0, 0, 0, 0, 0, 0, 0, 0, 0, 0, 0, 82, 4, 71, 72, 70, 0, 65, 0, 63,
     68, 69, 66, 76, 74, 75, 73, 67, 6, 0, 0, 0, 0, 0, 0, 0, 79, 0, 0, 0, 0, 55, 54, 57, 56, 59, 58,
     0, 61, 0, 62, 64, 78, 0, 0, 0, 0, 0, 0, 0, 0, 0, 0, 0, 5, 43, 44, 45, 46, 48, 0, 50, 0, 52, 0,
     53, 60, 0, 0, 0, 0, 0, 0, 47, 49, 51, 0, 0]"

definition vas_yydefgoto :: "int list" where
  "vas_yydefgoto =
    [5, 6, 7, 225, 23, 8, 9, 36, 37, 38, 39, 40, 41, 42, 43, 44, 45, 46, 47, 48, 49, 50, 51, 52, 53,
     54, 55, 56, 57, 58, 59, 60, 61, 62, 63, 64, 65, 66, 67, 68, 219, 226, 10, 11, 167, 71]"

definition vas_yypact :: "int list" where
  "vas_yypact =
    [13, 160, - 32768, - 32768, - 32768, 4, - 32768, 28, 89, - 32768, - 47, 217, - 32768, - 32768,
     - 32768, - 32768, - 32768, - 32768, - 32768, - 32768, - 32768, - 32768, 160, - 32768, - 32768,
     - 1, 27, 32, 29, 33, 37, - 14, 26, 24, 48, - 32768, - 1, - 32768, - 32768, - 32768, - 32768,
     - 32768, - 32768, - 32768, - 32768, - 32768, - 32768, - 32768, - 32768, - 32768, - 32768,
     - 32768, - 32768, - 32768, - 32768, - 32768, 21, 21, 21, 21, 21, 21, 21, 21, 21, 21, 21, 21,
     21, 217, - 32768, - 32768, - 32768, - 32768, - 32768, - 32768, - 32768, - 32768, - 32768,
     - 32768, - 32768, - 32768, - 32768, - 32768, - 32768, - 32768, - 32768, - 32768, - 32768,
     - 32768, - 32768, - 32768, - 32768, - 32768, - 32768, - 32768, - 32768, - 32768, - 32768,
     - 32768, - 32768, - 32768, - 32768, - 32768, - 32768, - 32768, - 32768, - 32768, - 32768,
     - 32768, - 32768, - 32768, - 32768, - 32768, - 32768, - 32768, - 32768, - 32768, - 32768,
     - 32768, - 32768, - 32768, - 32768, - 32768, - 32768, - 32768, - 32768, - 32768, - 32768,
     - 32768, - 32768, - 32768, - 32768, - 32768, - 32768, - 32768, - 32768, - 32768, - 32768,
     - 32768, - 32768, - 32768, - 32768, - 32768, - 32768, - 32768, - 32768, - 32768, - 32768,
     - 32768, - 32768, - 32768, - 32768, - 32768, - 32768, - 32768, - 32768, - 32768, - 32768,
     - 32768, - 32768, - 32768, - 32768, - 32768, - 32768, - 32768, - 32768, - 32768, - 32768, 89,
     - 47, 25, 58, 55, 68, 66, - 32768, 61, 63, 67, 92, 64, 78, 65, 97, - 1, - 47, - 3, - 3, - 3,
     - 3, - 3, 122, 122, - 3, 122, 122, 122, - 3, 134, - 1, - 32768, - 32768, - 32768, - 32768, 81,
     - 32768, 83, - 32768, - 32768, - 32768, - 32768, - 32768, - 32768, - 32768, - 32768, - 32768,
     - 32768, 160, 96, 98, 101, 104, 105, 106, 160, 144, 107, 157, 159, - 32768, - 32768, - 32768,
     - 32768, - 32768, - 32768, 161, 160, - 47, - 32768, - 32768, 160, 88, 88, 88, 88, 147, 88, 88,
     88, 88, 88, 88, - 32768, - 32768, - 32768, - 32768, - 32768, - 32768, 176, - 32768, 158,
     - 32768, 178, - 32768, - 32768, 88, 181, 183, 182, 88, 88, - 32768, - 32768, - 32768, 195,
     - 32768]"

definition vas_yypgoto :: "int list" where
  "vas_yypgoto =
    [- 32768, 197, - 186, 0, - 22, 8, - 6, 35, - 32768, - 32768, - 32768, - 32768, - 32768, - 32768,
     - 32768, - 32768, - 32768, - 32768, - 32768, - 32768, - 32768, - 32768, - 32768, - 32768,
     - 32768, - 32768, - 32768, - 32768, - 32768, - 32768, - 32768, - 32768, - 32768, - 32768,
     - 32768, - 32768, - 32768, - 32768, - 32768, - 32768, - 164, - 154, - 4, - 5, - 32768, - 148]"

definition vas_yytable :: "int list" where
  "vas_yytable =
    [168, 22, 35, 69, 275, 166, 224, 227, 1, 230, 232, 234, 2, 3, 2, 3, 176, 1, 177, 2, 3, 170, 201,
     218, 220, 221, 222, 223, 2, 3, 229, 25, 186, 169, 236, 4, 2, 3, 217, 228, 4, 231, 233, 235,
     185, 180, 202, 181, 178, 4, 182, 203, 70, 172, 171, 179, 173, 204, 183, 174, 258, 175, 205,
     166, 187, 188, 189, 190, 191, 192, 193, 194, 195, 196, 197, 198, 199, 184, 254, 255, 256, 257,
     206, 260, 261, 262, 263, 264, 265, 207, 253, 208, 259, 26, 209, 210, 212, 211, 213, 214, 215,
     216, 269, 239, 2, 3, 273, 274, 240, 27, 28, 29, 30, 242, 218, 243, 31, 32, 244, 33, 34, 245,
     246, 247, 249, 4, 1, 12, 13, 14, 15, 16, 17, 18, 19, 20, 21, 2, 3, 12, 13, 14, 15, 16, 17, 18,
     19, 20, 21, 2, 3, 1, 12, 13, 14, 15, 16, 17, 18, 19, 20, 21, 248, 35, 69, 12, 13, 14, 15, 16,
     17, 18, 19, 20, 21, 250, 251, 267, 252, 35, 69, 35, 35, 35, 35, 35, 35, 35, 35, 35, 35, 35, 35,
     35, 266, 276, 238, 268, 270, 237, 271, 272, 24, 168, 200, 0, 0, 0, 185, 0, 0, 0, 0, 0, 0, 168,
     0, 0, 241, 168, 72, 73, 74, 75, 76, 77, 78, 79, 80, 81, 82, 83, 2, 3, 84, 85, 86, 87, 88, 89,
     90, 91, 92, 93, 94, 95, 96, 97, 98, 99, 100, 101, 102, 103, 104, 105, 106, 107, 108, 109, 110,
     111, 112, 113, 114, 115, 116, 117, 118, 119, 120, 121, 122, 123, 124, 125, 126, 127, 128, 129,
     130, 131, 132, 133, 134, 135, 136, 137, 138, 139, 140, 141, 142, 143, 144, 145, 146, 147, 148,
     149, 150, 151, 152, 153, 154, 155, 156, 157, 158, 159, 160, 161, 162, 163, 164, 165]"

definition vas_yycheck :: "int list" where
  "vas_yycheck =
    [22, 1, 8, 8, 0, 11, 192, 193, 4, 195, 196, 197, 15, 16, 15, 16, 30, 4, 32, 15, 16, 25, 170, 26,
     188, 189, 190, 191, 15, 16, 194, 3, 36, 25, 198, 36, 15, 16, 186, 193, 36, 195, 196, 197, 36,
     21, 21, 23, 22, 36, 26, 26, 99, 21, 27, 29, 27, 32, 34, 26, 246, 24, 4, 69, 56, 57, 58, 59, 60,
     61, 62, 63, 64, 65, 66, 67, 68, 29, 242, 243, 244, 245, 27, 247, 248, 249, 250, 251, 252, 21,
     238, 25, 246, 4, 33, 32, 4, 30, 34, 21, 35, 4, 266, 22, 15, 16, 270, 271, 25, 20, 21, 22, 23,
     17, 26, 17, 27, 28, 17, 30, 31, 17, 17, 17, 17, 36, 4, 5, 6, 7, 8, 9, 10, 11, 12, 13, 14, 15,
     16, 5, 6, 7, 8, 9, 10, 11, 12, 13, 14, 15, 16, 4, 5, 6, 7, 8, 9, 10, 11, 12, 13, 14, 18, 169,
     169, 5, 6, 7, 8, 9, 10, 11, 12, 13, 14, 18, 17, 19, 17, 185, 185, 187, 188, 189, 190, 191, 192,
     193, 194, 195, 196, 197, 198, 199, 18, 0, 200, 19, 17, 199, 17, 19, 5, 225, 169, - 1, - 1, - 1,
     200, - 1, - 1, - 1, - 1, - 1, - 1, 237, - 1, - 1, 218, 241, 3, 4, 5, 6, 7, 8, 9, 10, 11, 12,
     13, 14, 15, 16, 17, 18, 19, 20, 21, 22, 23, 24, 25, 26, 27, 28, 29, 30, 31, 32, 33, 34, 35, 36,
     37, 38, 39, 40, 41, 42, 43, 44, 45, 46, 47, 48, 49, 50, 51, 52, 53, 54, 55, 56, 57, 58, 59, 60,
     61, 62, 63, 64, 65, 66, 67, 68, 69, 70, 71, 72, 73, 74, 75, 76, 77, 78, 79, 80, 81, 82, 83, 84,
     85, 86, 87, 88, 89, 90, 91, 92, 93, 94, 95, 96, 97, 98]"

definition vas_yyprhs :: "int list" where
  "vas_yyprhs =
    [0, 0, 2, 5, 8, 13, 20, 25, 28, 31, 33, 35, 37, 39, 41, 43, 45, 47, 49, 51, 53, 55, 58, 60, 62,
     64, 66, 68, 70, 72, 74, 76, 78, 80, 82, 84, 86, 88, 90, 92, 94, 96, 98, 100, 106, 112, 118,
     124, 133, 139, 148, 154, 163, 169, 175, 179, 183, 187, 191, 195, 199, 205, 209, 214, 218, 223,
     227, 231, 235, 239, 243, 247, 251, 255, 259, 263, 267, 271, 274, 277, 279, 281, 284, 285, 288,
     290, 292, 294, 296, 298, 300, 302, 304, 306, 308, 310, 312, 314, 316, 318, 320, 322, 324, 326,
     328, 330, 332, 334, 336, 338, 340, 342, 344, 346, 348, 350, 352, 354, 356, 358, 360, 362, 364,
     366, 368, 370, 372, 374, 376, 378, 380, 382, 384, 386, 388, 390, 392, 394, 396, 398, 400, 402,
     404, 406, 408, 410, 412, 414, 416, 418, 420, 422, 424, 426, 428, 430, 432, 434, 436, 438, 440,
     442, 444, 446, 448, 450, 452, 454, 456, 458, 460, 462, 464, 466, 468, 470, 472, 474, 476, 478,
     480]"

definition vas_yyrhs :: "int list" where
  "vas_yyrhs =
    [101, 0, 100, 101, 0, 142, 145, 0, 102, 3, 142, 145, 0, 102, 3, 105, 107, 142, 145, 0, 105, 107,
     142, 145, 0, 4, 103, 0, 103, 104, 0, 104, 0, 5, 0, 6, 0, 7, 0, 8, 0, 9, 0, 10, 0, 11, 0, 12, 0,
     13, 0, 14, 0, 106, 0, 105, 106, 0, 15, 0, 16, 0, 108, 0, 109, 0, 110, 0, 111, 0, 112, 0, 113,
     0, 114, 0, 115, 0, 116, 0, 117, 0, 118, 0, 119, 0, 120, 0, 121, 0, 122, 0, 123, 0, 124, 0, 125,
     0, 126, 0, 127, 105, 140, 17, 140, 0, 128, 105, 140, 17, 140, 0, 129, 105, 140, 17, 140, 0,
     130, 105, 140, 17, 140, 0, 131, 105, 140, 17, 141, 18, 140, 19, 0, 131, 105, 140, 17, 102, 0,
     132, 105, 141, 18, 140, 19, 17, 140, 0, 132, 105, 102, 17, 140, 0, 133, 105, 141, 18, 140, 19,
     17, 140, 0, 133, 105, 102, 17, 140, 0, 134, 105, 140, 17, 140, 0, 135, 105, 141, 0, 135, 105,
     102, 0, 136, 105, 141, 0, 136, 105, 102, 0, 137, 105, 141, 0, 137, 105, 102, 0, 138, 105, 140,
     17, 140, 0, 139, 105, 103, 0, 20, 21, 4, 22, 0, 23, 24, 25, 0, 22, 26, 21, 25, 0, 21, 27, 27,
     0, 28, 29, 30, 0, 31, 29, 4, 0, 27, 32, 33, 0, 28, 22, 32, 0, 4, 27, 32, 0, 4, 27, 21, 0, 4,
     27, 26, 0, 30, 34, 35, 0, 30, 23, 34, 0, 30, 26, 21, 0, 30, 21, 4, 0, 27, 30, 0, 26, 103, 0,
     103, 0, 143, 0, 105, 143, 0, 0, 143, 144, 0, 36, 0, 106, 0, 37, 0, 38, 0, 39, 0, 40, 0, 41, 0,
     42, 0, 43, 0, 44, 0, 45, 0, 46, 0, 47, 0, 48, 0, 49, 0, 50, 0, 51, 0, 52, 0, 53, 0, 54, 0, 55,
     0, 56, 0, 57, 0, 58, 0, 59, 0, 60, 0, 61, 0, 62, 0, 21, 0, 30, 0, 63, 0, 27, 0, 35, 0, 64, 0,
     65, 0, 20, 0, 32, 0, 66, 0, 67, 0, 4, 0, 31, 0, 23, 0, 24, 0, 25, 0, 68, 0, 26, 0, 28, 0, 22,
     0, 29, 0, 33, 0, 69, 0, 70, 0, 71, 0, 34, 0, 5, 0, 6, 0, 7, 0, 8, 0, 9, 0, 10, 0, 11, 0, 12, 0,
     13, 0, 14, 0, 72, 0, 73, 0, 74, 0, 75, 0, 76, 0, 77, 0, 78, 0, 18, 0, 19, 0, 79, 0, 80, 0, 81,
     0, 82, 0, 36, 0, 83, 0, 84, 0, 85, 0, 86, 0, 87, 0, 88, 0, 89, 0, 90, 0, 3, 0, 91, 0, 92, 0,
     93, 0, 94, 0, 17, 0, 95, 0, 96, 0, 97, 0, 98, 0, 99, 0]"

text \<open>
  The certificate of the tables: for every state the states below it, its symbol, the weights.
\<close>

definition vas_certificate :: certificate where
  "vas_certificate =
    [([], 0, 0, 1), ([0, 5, 192, 193, 195, 196, 197, 246], 4, 3, 0),
     ([0, 5, 8, 11, 25, 36, 56, 57, 58, 59, 60, 61, 62, 63, 64, 65, 66, 67, 68, 69, 169, 185, 187, 188, 189, 190, 191, 192, 193, 194, 195, 196, 197, 198, 199, 200], 15, 3, 3),
     ([0, 5, 8, 11, 25, 36, 56, 57, 58, 59, 60, 61, 62, 63, 64, 65, 66, 67, 68, 69, 169, 185, 187, 188, 189, 190, 191, 192, 193, 194, 195, 196, 197, 198, 199, 200], 16, 3, 3),
     ([0, 5, 8, 25, 36, 169, 185, 200], 36, 2, 2), ([0], 100, 0, 1), ([0], 101, 1, 1),
     ([0, 5], 102, 1, 0), ([0, 5], 105, 2, 0),
     ([0, 5, 25, 36, 56, 57, 58, 59, 60, 61, 62, 63, 64, 65, 66, 67, 68, 200], 106, 2, 2),
     ([0, 5], 142, 0, 0), ([0, 5, 25, 36, 200], 143, 2, 0),
     ([1, 22, 192, 193, 195, 196, 197, 199, 218, 225, 237, 241, 246], 5, 2, 2),
     ([1, 22, 192, 193, 195, 196, 197, 199, 218, 225, 237, 241, 246], 6, 3, 3),
     ([1, 22, 192, 193, 195, 196, 197, 199, 218, 225, 237, 241, 246], 7, 2, 2),
     ([1, 22, 192, 193, 195, 196, 197, 199, 218, 225, 237, 241, 246], 8, 3, 3),
     ([1, 22, 192, 193, 195, 196, 197, 199, 218, 225, 237, 241, 246], 9, 3, 3),
     ([1, 22, 192, 193, 195, 196, 197, 199, 218, 225, 237, 241, 246], 10, 3, 3),
     ([1, 22, 192, 193, 195, 196, 197, 199, 218, 225, 237, 241, 246], 11, 2, 2),
     ([1, 22, 192, 193, 195, 196, 197, 199, 218, 225, 237, 241, 246], 12, 3, 3),
     ([1, 22, 192, 193, 195, 196, 197, 199, 218, 225, 237, 241, 246], 13, 3, 3),
     ([1, 22, 192, 193, 195, 196, 197, 199, 218, 225, 237, 241, 246], 14, 3, 3), ([1], 103, 0, 0),
     ([1, 192, 193, 195, 196, 197, 199, 218, 246], 104, 1, 1), ([5], 101, 1, 1), ([7], 3, 2, 1),
     ([8, 169], 4, 2, 0), ([8, 169], 20, 1, 0), ([8, 169], 21, 1, 0), ([8, 169], 22, 1, 0),
     ([8, 169], 23, 2, 0), ([8, 169], 27, 2, 0), ([8, 169], 28, 2, 0), ([8, 169], 30, 3, 0),
     ([8, 169], 31, 1, 0),
     ([8, 169, 185, 187, 188, 189, 190, 191, 192, 193, 194, 195, 196, 197, 198, 199], 106, 1, 1),
     ([8], 107, 0, 1), ([8, 169], 108, 1, 1), ([8, 169], 109, 1, 1), ([8, 169], 110, 1, 1),
     ([8, 169], 111, 1, 1), ([8, 169], 112, 1, 1), ([8, 169], 113, 1, 1), ([8, 169], 114, 1, 1),
     ([8, 169], 115, 1, 1), ([8, 169], 116, 1, 1), ([8, 169], 117, 1, 1), ([8, 169], 118, 1, 1),
     ([8, 169], 119, 1, 1), ([8, 169], 120, 1, 1), ([8, 169], 121, 1, 1), ([8, 169], 122, 1, 1),
     ([8, 169], 123, 1, 1), ([8, 169], 124, 2, 2), ([8, 169], 125, 2, 2), ([8, 169], 126, 2, 2),
     ([8, 169], 127, 1, 0), ([8, 169], 128, 0, 0), ([8, 169], 129, 0, 0), ([8, 169], 130, 0, 0),
     ([8, 169], 131, 1, 0), ([8, 169], 132, 1, 0), ([8, 169], 133, 1, 0), ([8, 169], 134, 1, 0),
     ([8, 169], 135, 2, 0), ([8, 169], 136, 1, 0), ([8, 169], 137, 2, 0), ([8, 169], 138, 0, 0),
     ([8, 169], 139, 1, 0), ([8, 169, 185], 143, 1, 0), ([10, 170, 186, 238], 99, 3, 3),
     ([10], 145, 2, 2), ([11, 69], 3, 2, 2), ([11, 69], 4, 2, 2), ([11, 69], 5, 2, 2),
     ([11, 69], 6, 2, 2), ([11, 69], 7, 2, 2), ([11, 69], 8, 2, 2), ([11, 69], 9, 2, 2),
     ([11, 69], 10, 2, 2), ([11, 69], 11, 2, 2), ([11, 69], 12, 2, 2), ([11, 69], 13, 2, 2),
     ([11, 69], 14, 2, 2), ([11, 69], 17, 2, 2), ([11, 69], 18, 2, 2), ([11, 69], 19, 2, 2),
     ([11, 69], 20, 2, 2), ([11, 69], 21, 2, 2), ([11, 69], 22, 2, 2), ([11, 69], 23, 2, 2),
     ([11, 69], 24, 2, 2), ([11, 69], 25, 2, 2), ([11, 69], 26, 2, 2), ([11, 69], 27, 2, 2),
     ([11, 69], 28, 2, 2), ([11, 69], 29, 2, 2), ([11, 69], 30, 2, 2), ([11, 69], 31, 2, 2),
     ([11, 69], 32, 2, 2), ([11, 69], 33, 2, 2), ([11, 69], 34, 2, 2), ([11, 69], 35, 2, 2),
     ([11, 69], 36, 2, 2), ([11, 69], 37, 2, 2), ([11, 69], 38, 2, 2), ([11, 69], 39, 2, 2),
     ([11, 69], 40, 2, 2), ([11, 69], 41, 2, 2), ([11, 69], 42, 2, 2), ([11, 69], 43, 2, 2),
     ([11, 69], 44, 2, 2), ([11, 69], 45, 2, 2), ([11, 69], 46, 2, 2), ([11, 69], 47, 2, 2),
     ([11, 69], 48, 2, 2), ([11, 69], 49, 2, 2), ([11, 69], 50, 2, 2), ([11, 69], 51, 2, 2),
     ([11, 69], 52, 2, 2), ([11, 69], 53, 2, 2), ([11, 69], 54, 2, 2), ([11, 69], 55, 2, 2),
     ([11, 69], 56, 2, 2), ([11, 69], 57, 2, 2), ([11, 69], 58, 2, 2), ([11, 69], 59, 2, 2),
     ([11, 69], 60, 2, 2), ([11, 69], 61, 2, 2), ([11, 69], 62, 2, 2), ([11, 69], 63, 2, 2),
     ([11, 69], 64, 2, 2), ([11, 69], 65, 2, 2), ([11, 69], 66, 2, 2), ([11, 69], 67, 2, 2),
     ([11, 69], 68, 2, 2), ([11, 69], 69, 2, 2), ([11, 69], 70, 2, 2), ([11, 69], 71, 2, 2),
     ([11, 69], 72, 2, 2), ([11, 69], 73, 2, 2), ([11, 69], 74, 2, 2), ([11, 69], 75, 2, 2),
     ([11, 69], 76, 2, 2), ([11, 69], 77, 2, 2), ([11, 69], 78, 2, 2), ([11, 69], 79, 2, 2),
     ([11, 69], 80, 2, 2), ([11, 69], 81, 2, 2), ([11, 69], 82, 2, 2), ([11, 69], 83, 2, 2),
     ([11, 69], 84, 2, 2), ([11, 69], 85, 2, 2), ([11, 69], 86, 2, 2), ([11, 69], 87, 2, 2),
     ([11, 69], 88, 2, 2), ([11, 69], 89, 2, 2), ([11, 69], 90, 2, 2), ([11, 69], 91, 2, 2),
     ([11, 69], 92, 2, 2), ([11, 69], 93, 2, 2), ([11, 69], 94, 2, 2), ([11, 69], 95, 2, 2),
     ([11, 69], 96, 2, 2), ([11, 69], 97, 2, 2), ([11, 69], 98, 2, 2), ([11, 69], 106, 2, 2),
     ([11, 69], 144, 1, 1), ([22, 225, 237, 241], 104, 1, 1), ([25], 105, 1, 0), ([25], 142, 0, 0),
     ([26], 27, 2, 0), ([27], 21, 1, 0), ([28], 27, 1, 0), ([29], 26, 1, 0), ([30], 24, 2, 0),
     ([31], 30, 1, 1), ([31], 32, 1, 0), ([32], 22, 1, 0), ([32], 29, 1, 0), ([33], 21, 1, 0),
     ([33], 23, 1, 0), ([33], 26, 0, 0), ([33], 34, 1, 0), ([34], 29, 1, 0), ([36, 200], 105, 1, 0),
     ([36], 142, 0, 0), ([56], 105, 1, 0), ([57], 105, 1, 0), ([58], 105, 1, 0), ([59], 105, 1, 0),
     ([60], 105, 1, 0), ([61], 105, 2, 0), ([62], 105, 2, 0), ([63], 105, 1, 0), ([64], 105, 1, 0),
     ([65], 105, 2, 0), ([66], 105, 1, 0), ([67], 105, 1, 0), ([68], 105, 2, 0), ([169], 107, 0, 1),
     ([170], 145, 1, 1), ([171], 21, 1, 1), ([171], 26, 0, 0), ([171], 32, 1, 1), ([172], 4, 1, 0),
     ([173], 27, 1, 1), ([174], 21, 1, 0), ([175], 25, 2, 2), ([177], 33, 1, 1), ([178], 32, 1, 1),
     ([179], 30, 1, 1), ([180], 4, 1, 1), ([181], 34, 1, 1), ([182], 21, 0, 0), ([183], 35, 1, 1),
     ([184], 4, 1, 1), ([186], 145, 1, 1),
     ([187, 188, 189, 190, 191, 194, 198, 242, 243, 244, 245, 247, 248, 249, 250, 251, 252, 266, 270, 271], 26, 2, 0),
     ([187], 140, 1, 0), ([188], 140, 1, 0), ([189], 140, 1, 0), ([190], 140, 1, 0),
     ([191], 140, 2, 0), ([192], 102, 1, 0), ([192, 193, 195, 196, 197, 246], 103, 1, 0),
     ([192], 141, 0, 0), ([193], 102, 1, 0), ([193], 141, 0, 0), ([194], 140, 1, 0),
     ([195], 102, 1, 1), ([195], 141, 0, 0), ([196], 102, 0, 0), ([196], 141, 0, 0),
     ([197], 102, 1, 1), ([197], 141, 0, 0), ([198], 140, 1, 0), ([199], 103, 0, 0),
     ([200], 142, 0, 0), ([205], 22, 1, 1), ([207], 25, 1, 1), ([218], 103, 1, 0),
     ([219], 17, 1, 0), ([220], 17, 1, 0), ([221], 17, 1, 0), ([222], 17, 1, 0), ([223], 17, 2, 0),
     ([224], 17, 1, 0), ([226], 18, 1, 0), ([227], 17, 1, 0), ([228], 18, 1, 0), ([229], 17, 1, 0),
     ([236], 17, 1, 0), ([238], 145, 1, 1), ([242], 140, 1, 1), ([243], 140, 0, 0),
     ([244], 140, 1, 1), ([245], 140, 1, 1), ([246], 102, 1, 1), ([246], 141, 0, 0),
     ([247], 140, 1, 1), ([248], 140, 1, 0), ([249], 140, 1, 1), ([250], 140, 1, 0),
     ([251], 140, 1, 1), ([252], 140, 1, 1), ([259], 18, 1, 0), ([261], 19, 1, 0),
     ([263], 19, 1, 0), ([266], 140, 1, 0), ([267], 17, 1, 0), ([268], 17, 1, 0), ([269], 19, 1, 1),
     ([270], 140, 1, 1), ([271], 140, 1, 1), ([5], 0, 0, 0)]"

text \<open>One rewrite rule for each entry.\<close>

lemmas vas_yyr1_at = map_at [OF vas_yyr1_def, simplified]
lemmas vas_yyr2_at = map_at [OF vas_yyr2_def, simplified]
lemmas vas_yydefact_at = map_at [OF vas_yydefact_def, simplified]
lemmas vas_yydefgoto_at = map_at [OF vas_yydefgoto_def, simplified]
lemmas vas_yypact_at = map_at [OF vas_yypact_def, simplified]
lemmas vas_yypgoto_at = map_at [OF vas_yypgoto_def, simplified]
lemmas vas_yytable_at = map_at [OF vas_yytable_def, simplified]
lemmas vas_yycheck_at = map_at [OF vas_yycheck_def, simplified]
lemmas vas_yyprhs_at = map_at [OF vas_yyprhs_def, simplified]
lemmas vas_yyrhs_at = map_at [OF vas_yyrhs_def, simplified]
lemmas vas_certificate_at = map_at [OF vas_certificate_def, simplified]

lemmas vas_at =
  vas_yyr1_at
  vas_yyr2_at
  vas_yydefact_at
  vas_yydefgoto_at
  vas_yypact_at
  vas_yypgoto_at
  vas_yytable_at
  vas_yycheck_at
  vas_yyprhs_at
  vas_yyrhs_at
  vas_certificate_at

lemma vas_certificate_length: "length vas_certificate = 276"
  by (simp add: vas_certificate_def)

end
