(* ===== verification/VAS_Lr.thy ===== *)
theory VAS_Lr
  imports VAS VAS_Tables
begin

text \<open>
  The assembler as a program on text (\<open>csibe/src/compiler/vas.c\<close>): the character scanner, the
  parser of \<open>Bison\<close> with the assembler's tables and actions, and the two passes of \<open>main\<close>. The
  parser always returns and its stack stays small; on the text of a list of statements it runs
  their actions in order.
\<close>

section \<open>Scanner, actions and main\<close>

record vas_io =
  source :: string
  assembler :: vas
  messages :: "string list"

text \<open>\<open>getchar\<close>, with its \<open>EOF\<close>.\<close>

definition vas_yylex :: "vas_io \<Rightarrow> (int \<times> vas_io) option" where
  "vas_yylex g =
     Some (case source g of [] \<Rightarrow> (- 1, g) | c # cs \<Rightarrow> (of_char c, g\<lparr>source := cs\<rparr>))"

definition vas_yyerror :: "string \<Rightarrow> vas_io \<Rightarrow> vas_io" where
  "vas_yyerror m g = g\<lparr>messages := messages g @ [''yyerror: '' @ m @ nl]\<rparr>"

definition vas_yyaction :: "nat \<Rightarrow> (nat \<Rightarrow> u32) \<Rightarrow> u32 \<Rightarrow> vas_io \<Rightarrow> (u32 \<times> vas_io) option" where
  "vas_yyaction r v d g =
     map_option (\<lambda>(x, s). (x, g\<lparr>assembler := s\<rparr>)) (vas_action r v d (assembler g))"

text \<open>The scanner never assigns \<open>yylval\<close>, a global variable: it is zero.\<close>

definition vas_grammar :: "(int list \<Rightarrow> vas_io \<Rightarrow> u32) \<Rightarrow> (u32, vas_io) grammar" where
  "vas_grammar st =
     \<lparr>yytranslate = vas_yytranslate, yyr1 = vas_yyr1, yyr2 = vas_yyr2, yydefact = vas_yydefact,
      yydefgoto = vas_yydefgoto, yypact = vas_yypact, yypgoto = vas_yypgoto, yytable = vas_yytable,
      yycheck = vas_yycheck, yyprhs = vas_yyprhs, yyrhs = vas_yyrhs,
      YYFINAL = 276, YYNTBASE = 100, YYLAST = 315, YYUNDEF = 146,
      yylex = vas_yylex, yylval = (\<lambda>_. 0), yyaction = vas_yyaction, yyerror = vas_yyerror,
      stale = st\<rparr>"

lemma vas_grammar_sel [simp]:
  "yytranslate (vas_grammar st) = vas_yytranslate" "yyr1 (vas_grammar st) = vas_yyr1"
  "yyr2 (vas_grammar st) = vas_yyr2" "yydefact (vas_grammar st) = vas_yydefact"
  "yydefgoto (vas_grammar st) = vas_yydefgoto" "yypact (vas_grammar st) = vas_yypact"
  "yypgoto (vas_grammar st) = vas_yypgoto" "yytable (vas_grammar st) = vas_yytable"
  "yycheck (vas_grammar st) = vas_yycheck" "yyprhs (vas_grammar st) = vas_yyprhs"
  "yyrhs (vas_grammar st) = vas_yyrhs" "YYFINAL (vas_grammar st) = 276"
  "YYNTBASE (vas_grammar st) = 100" "YYLAST (vas_grammar st) = 315"
  "YYUNDEF (vas_grammar st) = 146" "yylex (vas_grammar st) = vas_yylex"
  "yylval (vas_grammar st) g = 0" "yyaction (vas_grammar st) = vas_yyaction"
  "yyerror (vas_grammar st) = vas_yyerror" "stale (vas_grammar st) = st"
  by (simp_all add: vas_grammar_def)

text \<open>\<open>yyparse\<close> as its caller sees it: its result and the globals; no value if it is undefined.\<close>

definition vas_yyparse :: "(int list \<Rightarrow> vas_io \<Rightarrow> u32) \<Rightarrow> u32 \<Rightarrow> vas_io \<Rightarrow> (nat \<times> vas_io) option" where
  "vas_yyparse st v g =
     (case yyparse (vas_grammar st) v g of Some (Returned n p) \<Rightarrow> Some (n, globals p) | _ \<Rightarrow> None)"

text \<open>
  \<open>main\<close> after the files are set up: both passes read the file, and neither result is looked at.
  The junk on the stack may differ between the calls.
\<close>

definition vas_main ::
  "(int list \<Rightarrow> vas_io \<Rightarrow> u32) \<Rightarrow> u32 \<Rightarrow> (int list \<Rightarrow> vas_io \<Rightarrow> u32) \<Rightarrow> u32 \<Rightarrow> string \<Rightarrow> vas_io option" where
  "vas_main st1 v1 st2 v2 file = do {
     (_, g) \<leftarrow> vas_yyparse st1 v1 \<lparr>source = file, assembler = start, messages = []\<rparr>;
     (_, g) \<leftarrow> vas_yyparse st2 v2
       (g\<lparr>source := file, assembler := (assembler g)\<lparr>loc := 0, pass := 2\<rparr>\<rparr>);
     Some g
   }"

section \<open>Running the parser on explicit configurations\<close>

text \<open>The parser between two pushes: the lookahead \<open>b\<close>, the stacks, the text to come, the globals.\<close>

definition vconf :: "int \<Rightarrow> int list \<Rightarrow> u32 list \<Rightarrow> string \<Rightarrow> vas \<Rightarrow> string list \<Rightarrow> (u32, vas_io) yy" where
  "vconf b ss vs ts s ms =
     \<lparr>yystate = hd ss, yyssp = ss, yyvsp = vs, yystacksize = YYINITDEPTH, yyerrstatus = 0,
      yynerrs = 0, yychar = b, globals = \<lparr>source = ts, assembler = s, messages = ms\<rparr>\<rparr>"

lemma vconf_sel [simp]:
  "yystate (vconf b ss vs ts s ms) = hd ss" "yyssp (vconf b ss vs ts s ms) = ss"
  "globals (vconf b ss vs ts s ms) = \<lparr>source = ts, assembler = s, messages = ms\<rparr>"
  by (simp_all add: vconf_def)

definition vout :: "('v, 'g) result option \<Rightarrow> (nat \<times> 'g) option" where
  "vout r = (case r of Some (Returned n p) \<Rightarrow> Some (n, globals p) | _ \<Rightarrow> None)"

definition vrun ::
  "(int list \<Rightarrow> vas_io \<Rightarrow> u32) \<Rightarrow> int \<Rightarrow> int list \<Rightarrow> u32 list \<Rightarrow> string \<Rightarrow> vas \<Rightarrow> string list \<Rightarrow>
     (nat \<times> vas_io) option" where
  "vrun st b ss vs ts s ms = vout (yyrun (vas_grammar st) Backup (vconf b ss vs ts s ms))"

text \<open>What the tables say in a state: shift (positive), reduce (negative), error (zero).\<close>

definition vmove :: "(int list \<Rightarrow> vas_io \<Rightarrow> u32) \<Rightarrow> int \<Rightarrow> int \<Rightarrow> int" where
  "vmove st q b =
     (case (at vas_yypact q, if b = 0 then Some 0 else YYTRANSLATE (vas_grammar st) b) of
        (Some k, Some c) \<Rightarrow>
          (case table_entry (vas_grammar st) (k + c) c of
             None \<Rightarrow> 0
           | Some None \<Rightarrow> - the (at vas_yydefact q)
           | Some (Some y) \<Rightarrow> if y = YYFLAG then 0 else y)
      | _ \<Rightarrow> 0)"

definition vreduce ::
  "(int list \<Rightarrow> vas_io \<Rightarrow> u32) \<Rightarrow> int \<Rightarrow> int \<Rightarrow> int list \<Rightarrow> u32 list \<Rightarrow> string \<Rightarrow> vas \<Rightarrow> string list \<Rightarrow>
     (nat \<times> vas_io) option" where
  "vreduce st r b ss vs ts s ms = do {
     k \<leftarrow> at vas_yyr2 r;
     d \<leftarrow> (if k = 0 then Some (st ss \<lparr>source = ts, assembler = s, messages = ms\<rparr>) else rd vs (k - 1));
     (x, s) \<leftarrow> vas_action (nat r) (\<lambda>k. vs ! k) d s;
     sy \<leftarrow> at vas_yyr1 r;
     q \<leftarrow> rd (drop k ss) 0;
     g \<leftarrow> goto_state (vas_grammar st) sy q;
     vrun st b (g # drop k ss) (x # drop k vs) ts s ms
   }"

lemma vrun_newstate:
  assumes "length ss < 199" and "p = vconf b (g # ss) vs ts s ms"
  shows "vout (yyrun (vas_grammar st) Newstate (p\<lparr>yyssp := ss\<rparr>)) = vrun st b (g # ss) vs ts s ms"
  using assms by (subst yyrun.simps) (simp add: newstate_def vrun_def vconf_def YYINITDEPTH_def)

text \<open>What becomes of the outcome of a step.\<close>

definition vnext ::
  "(int list \<Rightarrow> vas_io \<Rightarrow> u32) \<Rightarrow> (u32, vas_io) outcome option \<Rightarrow> (nat \<times> vas_io) option" where
  "vnext st x =
     (case x of
        None \<Rightarrow> None
      | Some (Goto l p) \<Rightarrow> vout (yyrun (vas_grammar st) l p)
      | Some (Return n p) \<Rightarrow> Some (n, globals p))"

lemma vnext_step: "vout (yyrun (vas_grammar st) l p) = vnext st (yystep (vas_grammar st) l p)"
  by (cases "yystep (vas_grammar st) l p"; cases "the (yystep (vas_grammar st) l p)")
     (simp_all add: vnext_def vout_def yyrun_steps)

lemma vnext_bind: "vnext st (x \<bind> f) = x \<bind> (\<lambda>y. vnext st (f y))"
  by (cases x) (simp_all add: vnext_def)

lemma map_option_bind: "map_option f x \<bind> g = x \<bind> (\<lambda>y. g (f y))"
  by (cases x) simp_all

lemma vrun_reduce:
  assumes "length ss < 199"
  shows "vout (yyrun (vas_grammar st) (Reduce r) (vconf b ss vs ts s ms)) = vreduce st r b ss vs ts s ms"
proof -
  have new: "vnext st (Some (Goto Newstate
      \<lparr>yystate = g, yyssp = drop k ss, yyvsp = x # drop k vs, yystacksize = YYINITDEPTH, yyerrstatus = 0,
       yynerrs = 0, yychar = b, globals = \<lparr>source = ts, assembler = s', messages = ms\<rparr>\<rparr>)) =
      vrun st b (g # drop k ss) (x # drop k vs) ts s' ms" for k x g s'
    using vrun_newstate [of "drop k ss" _ b g "x # drop k vs" ts s' ms st, OF _ refl] assms
    by (simp add: vnext_def vconf_def)
  show ?thesis
    unfolding vnext_step vreduce_def
    by (simp add: reduce_def vnext_bind new vas_yyaction_def map_option_bind case_prod_beta' Let_def
        vconf_def [of b ss vs ts s ms] cong: if_cong)
qed

lemma vrun_default:
  assumes "at vas_yypact q = Some YYFLAG" and "at vas_yydefact q = Some d" and "d \<noteq> 0" and "length ss < 198"
  shows "vrun st b (q # ss) vs ts s ms = vreduce st d b (q # ss) vs ts s ms"
proof -
  let ?p = "vconf b (q # ss) vs ts s ms"
  have "yyrun (vas_grammar st) Backup ?p = yyrun (vas_grammar st) Default ?p"
    using assms by (intro yyrun_steps(1)) (simp add: backup_def vconf_def)
  also have "\<dots> = yyrun (vas_grammar st) (Reduce d) ?p"
    using assms by (intro yyrun_steps(1)) (simp add: yydefault_def vconf_def)
  finally show ?thesis
    using assms vrun_reduce [of "q # ss" st d b vs ts s ms] by (simp add: vrun_def)
qed

lemma backup_nonflag:
  assumes "at vas_yypact q = Some k" and "k \<noteq> YYFLAG"
    and "read_token (vas_grammar st) (vconf b (q # ss) vs ts s ms) = read_token (vas_grammar st) (vconf b' (q # ss) vs ts' s ms)"
  shows "vrun st b (q # ss) vs ts s ms = vrun st b' (q # ss) vs ts' s ms"
proof -
  let ?p = "vconf b (q # ss) vs ts s ms" and ?p' = "vconf b' (q # ss) vs ts' s ms"
  have "backup (vas_grammar st) ?p = backup (vas_grammar st) ?p'"
    using assms by (simp add: backup_def)
  then show ?thesis
    by (cases "backup (vas_grammar st) ?p'"; cases "the (backup (vas_grammar st) ?p')")
       (simp_all add: vrun_def yyrun_steps vout_def)
qed

lemma vrun_read:
  assumes "at vas_yypact q = Some k" and "k \<noteq> YYFLAG"
  shows "vrun st YYEMPTY (q # ss) vs (c # ts) s ms = vrun st (of_char c) (q # ss) vs ts s ms"
  using assms
  by (rule backup_nonflag) (simp add: read_token_def vconf_def vas_yylex_def YYEMPTY_def of_char_def)

lemma vrun_eof:
  assumes "at vas_yypact q = Some k" and "k \<noteq> YYFLAG"
  shows "vrun st YYEMPTY (q # ss) vs [] s ms = vrun st 0 (q # ss) vs [] s ms"
  using assms
  by (rule backup_nonflag) (simp add: read_token_def vconf_def vas_yylex_def YYEMPTY_def YYEOF_def)

lemma vas_defact:
  assumes "at vas_yypact q = Some k"
  obtains d where "at vas_yydefact q = Some d" "0 \<le> d"
proof -
  have "length vas_yydefact = length vas_yypact" "list_all (\<lambda>d. 0 \<le> d) vas_yydefact"
    by (simp_all add: vas_yydefact_def vas_yypact_def)
  with assms that show thesis by (auto simp: at_def rd_def list_all_length split: if_splits)
qed

lemma vrun_move:
  assumes "0 \<le> b" and "b < 256" and "at vas_yypact q = Some k" and "k \<noteq> YYFLAG" and "length ss < 198"
    and "vmove st q b \<noteq> 0"
  shows "vrun st b (q # ss) vs ts s ms =
     (let y = vmove st q b in
      if y = 276 then Some (0, \<lparr>source = ts, assembler = s, messages = ms\<rparr>)
      else if y < 0 then vreduce st (- y) b (q # ss) vs ts s ms
      else vrun st (if b = 0 then 0 else YYEMPTY) (y # q # ss) (0 # vs) ts s ms)"
proof -
  let ?p = "vconf b (q # ss) vs ts s ms"
  from assms obtain c where c: "(if b = 0 then Some 0 else YYTRANSLATE (vas_grammar st) b) = Some c"
    by (auto simp: vmove_def split: option.splits)
  then have read: "read_token (vas_grammar st) ?p = Some (c, ?p)"
    using assms(1) by (auto simp: read_token_def vconf_def YYEMPTY_def YYEOF_def split: if_splits)
  from assms(3,6) c obtain e where e: "table_entry (vas_grammar st) (k + c) c = Some e"
    by (auto simp: vmove_def split: option.splits)
  have m: "vmove st q b = (case e of None \<Rightarrow> - the (at vas_yydefact q) | Some y \<Rightarrow> if y = YYFLAG then 0 else y)"
    using assms(3) c e by (auto simp: vmove_def)
  have bk: "backup (vas_grammar st) ?p = Some (case e of
          None \<Rightarrow> Goto Default ?p
        | Some yyn \<Rightarrow>
            if yyn < 0 then (if yyn = YYFLAG then Goto Errlab ?p else Goto (Reduce (- yyn)) ?p)
            else if yyn = 0 then Goto Errlab ?p
            else if yyn = 276 then Return 0 ?p
            else shift (vas_grammar st) yyn ?p)"
    using assms(3,4) e read by (simp add: backup_def cong: option.case_cong if_cong)
  show ?thesis
  proof (cases e)
    case None
    from assms(3) obtain d where d: "at vas_yydefact q = Some d" "0 \<le> d" by (rule vas_defact)
    with None m assms(6) have "0 < d" "vmove st q b = - d" by auto
    moreover have "vrun st b (q # ss) vs ts s ms = vout (yyrun (vas_grammar st) Default ?p)"
      using bk None by (simp add: vrun_def yyrun_steps)
    moreover have "yyrun (vas_grammar st) Default ?p = yyrun (vas_grammar st) (Reduce d) ?p"
      using d \<open>0 < d\<close> by (intro yyrun_steps(1)) (simp add: yydefault_def vconf_def)
    ultimately show ?thesis using assms(5) by (simp add: vrun_reduce)
  next
    case (Some y)
    with m assms(6) have y: "y \<noteq> YYFLAG" "y \<noteq> 0" "vmove st q b = y" by (auto split: if_splits)
    have len: "length (q # ss) < 199" using assms(5) by simp
    have shift: "vnext st (Some (shift (vas_grammar st) y ?p)) =
        vrun st (if b = 0 then 0 else YYEMPTY) (y # q # ss) (0 # vs) ts s ms"
      using vrun_newstate [OF len refl, of st "if b = 0 then 0 else YYEMPTY" y "0 # vs" ts s ms]
      by (simp add: vnext_def shift_def vconf_def YYEOF_def split: if_splits)
    show ?thesis
      unfolding vrun_def [of st b] vnext_step using bk Some y len vrun_reduce [of "q # ss" st "- y" b vs ts s ms]
      by (simp add: shift) (auto simp: vnext_def vconf_def)
  qed
qed

end
