(* ===== verification/VAS_Text.thy ===== *)
theory VAS_Text
  imports VAS_Lr
begin

text \<open>
  The concrete syntax the assembler's tables accept, and what its parser does on it: on the text
  of a list of statements \<open>yyparse\<close> returns 0 and has run the actions of the statements in order.
\<close>

section \<open>Texts of numbers, blanks, comments, instructions and lines\<close>

definition blanks :: "string \<Rightarrow> bool" where
  "blanks ws \<longleftrightarrow> ws \<noteq> [] \<and> set ws \<subseteq> {CHR '' '', CHR 0x09}"

definition digits :: "string \<Rightarrow> bool" where
  "digits ds \<longleftrightarrow> ds \<noteq> [] \<and> set ds \<subseteq> set ''0123456789''"

definition number_from :: "u32 \<Rightarrow> string \<Rightarrow> u32" where
  "number_from n ds = foldl (\<lambda>n c. n * 10 + of_nat (of_char c - 48)) n ds"

abbreviation number :: "string \<Rightarrow> u32" where "number \<equiv> number_from 0"

definition comment_text :: "string \<Rightarrow> bool" where
  "comment_text cs \<longleftrightarrow>
     cs = [] \<or> (\<exists>ws ts. cs = ws @ CHR 0x5C # ts \<and> (ws = [] \<or> blanks ws) \<and>
        (\<forall>c \<in> set ts. c = CHR 0x09 \<or> 32 \<le> (of_char c :: nat) \<and> (of_char c :: nat) \<le> 126))"

inductive instr_text :: "asm \<Rightarrow> string \<Rightarrow> bool" where
  "instr_text AHALT ''HALT''"
| "instr_text ANOP ''NOP''"
| "instr_text ATRAP ''TRAP''"
| "blanks ws \<Longrightarrow> digits x \<Longrightarrow> digits y \<Longrightarrow>
     instr_text (AADD (number x) (number y)) (''ADD'' @ ws @ ''R'' @ x @ '',R'' @ y)"
| "blanks ws \<Longrightarrow> digits x \<Longrightarrow> digits y \<Longrightarrow>
     instr_text (ASUB (number x) (number y)) (''SUB'' @ ws @ ''R'' @ x @ '',R'' @ y)"
| "blanks ws \<Longrightarrow> digits x \<Longrightarrow> digits y \<Longrightarrow>
     instr_text (AMUL (number x) (number y)) (''MUL'' @ ws @ ''R'' @ x @ '',R'' @ y)"
| "blanks ws \<Longrightarrow> digits x \<Longrightarrow> digits y \<Longrightarrow>
     instr_text (ADIV (number x) (number y)) (''DIV'' @ ws @ ''R'' @ x @ '',R'' @ y)"
| "blanks ws \<Longrightarrow> digits x \<Longrightarrow> digits d \<Longrightarrow> digits y \<Longrightarrow>
     instr_text (ASTI (number x) (number d) (number y))
       (''STI'' @ ws @ ''R'' @ x @ '','' @ d @ ''(R'' @ y @ '')'')"
| "blanks ws \<Longrightarrow> digits x \<Longrightarrow> digits l \<Longrightarrow>
     instr_text (ASTI_L (number x) (number l)) (''STI'' @ ws @ ''R'' @ x @ '',L'' @ l)"
| "blanks ws \<Longrightarrow> digits d \<Longrightarrow> digits x \<Longrightarrow> digits y \<Longrightarrow>
     instr_text (ALDI (number d) (number x) (number y))
       (''LDI'' @ ws @ d @ ''(R'' @ x @ ''),R'' @ y)"
| "blanks ws \<Longrightarrow> digits l \<Longrightarrow> digits y \<Longrightarrow>
     instr_text (ALDI_L (number l) (number y)) (''LDI'' @ ws @ ''L'' @ l @ '',R'' @ y)"
| "blanks ws \<Longrightarrow> digits d \<Longrightarrow> digits x \<Longrightarrow> digits y \<Longrightarrow>
     instr_text (ALDA (number d) (number x) (number y))
       (''LDA'' @ ws @ d @ ''(R'' @ x @ ''),R'' @ y)"
| "blanks ws \<Longrightarrow> digits l \<Longrightarrow> digits y \<Longrightarrow>
     instr_text (ALDA_L (number l) (number y)) (''LDA'' @ ws @ ''L'' @ l @ '',R'' @ y)"
| "blanks ws \<Longrightarrow> digits x \<Longrightarrow> digits y \<Longrightarrow>
     instr_text (ALDR (number x) (number y)) (''LDR'' @ ws @ ''R'' @ x @ '',R'' @ y)"
| "blanks ws \<Longrightarrow> digits d \<Longrightarrow> instr_text (ABZE (number d)) (''BZE'' @ ws @ d)"
| "blanks ws \<Longrightarrow> digits l \<Longrightarrow> instr_text (ABZE_L (number l)) (''BZE'' @ ws @ ''L'' @ l)"
| "blanks ws \<Longrightarrow> digits d \<Longrightarrow> instr_text (ABNZ (number d)) (''BNZ'' @ ws @ d)"
| "blanks ws \<Longrightarrow> digits l \<Longrightarrow> instr_text (ABNZ_L (number l)) (''BNZ'' @ ws @ ''L'' @ l)"
| "blanks ws \<Longrightarrow> digits d \<Longrightarrow> instr_text (ABRA (number d)) (''BRA'' @ ws @ d)"
| "blanks ws \<Longrightarrow> digits l \<Longrightarrow> instr_text (ABRA_L (number l)) (''BRA'' @ ws @ ''L'' @ l)"
| "blanks ws \<Longrightarrow> digits x \<Longrightarrow> digits y \<Longrightarrow>
     instr_text (ABAL (number x) (number y)) (''BAL'' @ ws @ ''R'' @ x @ '',R'' @ y)"
| "blanks ws \<Longrightarrow> digits n \<Longrightarrow> instr_text (ADB (number n)) (''DB'' @ ws @ n)"

inductive line_text :: "stmt \<Rightarrow> string \<Rightarrow> bool" where
  "comment_text cs \<Longrightarrow> line_text Comment (cs @ nl)"
| "digits l \<Longrightarrow> comment_text cs \<Longrightarrow> line_text (Label (number l)) (''L'' @ l @ '':'' @ cs @ nl)"
| "digits l \<Longrightarrow> blanks ws \<Longrightarrow> instr_text i it \<Longrightarrow> comment_text cs \<Longrightarrow>
     line_text (LabelInstr (number l) i) (''L'' @ l @ '':'' @ ws @ it @ cs @ nl)"
| "blanks ws \<Longrightarrow> instr_text i it \<Longrightarrow> comment_text cs \<Longrightarrow> line_text (Instr i) (ws @ it @ cs @ nl)"

inductive source_text :: "stmt list \<Rightarrow> string \<Rightarrow> bool" where
  "line_text st t \<Longrightarrow> source_text [st] t"
| "line_text st t \<Longrightarrow> source_text sts u \<Longrightarrow> source_text (st # sts) (t @ u)"

section \<open>Executing the tables by rewriting\<close>

lemma v_read:
  assumes "at vas_yypact q \<noteq> None" and "at vas_yypact q \<noteq> Some YYFLAG"
  shows "vrun st YYEMPTY (q # ss) vs (c # ts) s ms = vrun st (of_char c) (q # ss) vs ts s ms"
    and "vrun st YYEMPTY (q # ss) vs [] s ms = vrun st 0 (q # ss) vs [] s ms"
  using assms vrun_read [of q] vrun_eof [of q] by auto

lemma v_default:
  assumes "at vas_yypact q = Some YYFLAG" and "at vas_yydefact q \<noteq> None" and "at vas_yydefact q \<noteq> Some 0"
    and "length ss < 198"
  shows "vrun st b (q # ss) vs ts s ms = vreduce st (the (at vas_yydefact q)) b (q # ss) vs ts s ms"
  using assms vrun_default [of q] by auto

lemma v_move:
  assumes "0 \<le> b" and "b < 256" and "at vas_yypact q \<noteq> None" and "at vas_yypact q \<noteq> Some YYFLAG"
    and "length ss < 198" and "vmove st q b \<noteq> 0"
  shows "vrun st b (q # ss) vs ts s ms =
     (let y = vmove st q b in
      if y = 276 then Some (0, \<lparr>source = ts, assembler = s, messages = ms\<rparr>)
      else if y < 0 then vreduce st (- y) b (q # ss) vs ts s ms
      else vrun st (if b = 0 then 0 else YYEMPTY) (y # q # ss) (0 # vs) ts s ms)"
  using assms vrun_move [of b q] by auto

lemmas vas_yytranslate_at = map_at [OF vas_yytranslate_def, simplified]

lemma vas_yytranslate_length: "length vas_yytranslate = 258"
  by (simp add: vas_yytranslate_def)

lemmas vmove_at = vmove_def [of st q "numeral b" for st q b] vmove_def [of st q 0 for st q]

text \<open>One consultation of the tables, one reduction, and running on as far as the text is known.\<close>

declare vas_at [simp] vas_yytranslate_at [simp] vas_yytranslate_length [simp]

lemmas vlook = v_read v_move vmove_at table_entry_def YYTRANSLATE_def YYFLAG_def

lemmas vpop = vreduce_def goto_state_def table_entry_def rd_def vas_action_def Let_def

lemmas vexec = vlook vpop v_default

lemma digit_first:
  assumes "c \<in> set ''0123456789''" and "(p, n) \<in> {(1, 22), (192, 225), (193, 225), (195, 225), (196, 225),
      (197, 225), (199, 237), (218, 241), (246, 225)}" and "length ss < 150"
  shows "vrun st YYEMPTY (p # ss) vs (c # ts) s ms =
     vrun st YYEMPTY (n # p # ss) (of_nat (of_char c - 48) # vs) ts s ms"
  using assms by (auto simp: vexec)

abbreviation number_states :: "(int \<times> int) set" where
  "number_states \<equiv> {(1, 22), (192, 225), (193, 225), (195, 225), (196, 225), (197, 225), (199, 237),
     (218, 241), (246, 225)}"

lemma digit_more:
  assumes "c \<in> set ''0123456789''" and "(p, n) \<in> number_states" and "length ss < 150"
  shows "vrun st YYEMPTY (n # p # ss) (v # vs) (c # ts) s ms =
     vrun st YYEMPTY (n # p # ss) ((v * 10 + of_nat (of_char c - 48)) # vs) ts s ms"
  using assms by (auto simp: vexec)

lemma digits_run:
  assumes "digits ds" and "(p, n) \<in> number_states" and "length ss < 150"
  shows "vrun st YYEMPTY (p # ss) vs (ds @ ts) s ms =
     vrun st YYEMPTY (n # p # ss) (number ds # vs) ts s ms"
proof -
  have more: "vrun st YYEMPTY (n # p # ss) (v # vs) (ds @ ts) s ms =
      vrun st YYEMPTY (n # p # ss) (number_from v ds # vs) ts s ms"
    if "set ds \<subseteq> set ''0123456789''" for v ds
    using that
  proof (induction ds arbitrary: v)
    case (Cons c ds)
    then show ?case
      using digit_more [OF _ assms(2,3), of c st v vs "ds @ ts" s ms] by (simp add: number_from_def)
  qed (simp add: number_from_def)
  from assms(1) obtain c cs where ds: "ds = c # cs" "c \<in> set ''0123456789''" "set cs \<subseteq> set ''0123456789''"
    by (cases ds) (auto simp: digits_def)
  then show ?thesis
    using digit_first [OF ds(2) assms(2,3), of st vs "cs @ ts" s ms] more [OF ds(3)]
    by (simp add: number_from_def)
qed

lemmas digits_at = digits_run [of _ 1 22] digits_run [of _ 192 225] digits_run [of _ 193 225]
  digits_run [of _ 195 225] digits_run [of _ 196 225] digits_run [of _ 197 225]
  digits_run [of _ 199 237] digits_run [of _ 218 241] digits_run [of _ 246 225]

abbreviation blank_states :: "(int \<times> int) set" where
  "blank_states \<equiv> {(0, 8), (5, 8), (25, 169), (36, 185), (200, 185), (56, 187), (57, 188), (58, 189),
     (59, 190), (60, 191), (61, 192), (62, 193), (63, 194), (64, 195), (65, 196), (66, 197),
     (67, 198), (68, 199)}"

lemma blank_first:
  assumes "c \<in> {CHR '' '', CHR 0x09}" and "(p, w) \<in> blank_states" and "length ss < 150"
  shows "vrun st YYEMPTY (p # ss) vs (c # ts) s ms = vrun st YYEMPTY (w # p # ss) (0 # vs) ts s ms"
  using assms by (auto simp: vexec)

lemma blank_more:
  assumes "c \<in> {CHR '' '', CHR 0x09}" and "(p, w) \<in> blank_states" and "length ss < 150"
  shows "vrun st YYEMPTY (w # p # ss) (0 # vs) (c # ts) s ms = vrun st YYEMPTY (w # p # ss) (0 # vs) ts s ms"
  using assms by (auto simp: vexec)

lemma blanks_run:
  assumes "blanks ws" and "(p, w) \<in> blank_states" and "length ss < 150"
  shows "vrun st YYEMPTY (p # ss) vs (ws @ ts) s ms = vrun st YYEMPTY (w # p # ss) (0 # vs) ts s ms"
proof -
  have more: "vrun st YYEMPTY (w # p # ss) (0 # vs) (ws @ ts) s ms =
      vrun st YYEMPTY (w # p # ss) (0 # vs) ts s ms" if "set ws \<subseteq> {CHR '' '', CHR 0x09}" for ws
    using that by (induction ws) (simp_all add: blank_more [OF _ assms(2,3)])
  from assms(1) obtain c cs where ws: "ws = c # cs" "c \<in> {CHR '' '', CHR 0x09}" "set cs \<subseteq> {CHR '' '', CHR 0x09}"
    by (cases ws) (auto simp: blanks_def)
  then show ?thesis
    using blank_first [OF ws(2) assms(2,3), of st vs "cs @ ts" s ms] more [OF ws(3)] by simp
qed

lemmas blanks_at = blanks_run [of _ 56 187] blanks_run [of _ 57 188] blanks_run [of _ 58 189]
  blanks_run [of _ 59 190] blanks_run [of _ 60 191] blanks_run [of _ 61 192] blanks_run [of _ 62 193]
  blanks_run [of _ 63 194] blanks_run [of _ 64 195] blanks_run [of _ 65 196] blanks_run [of _ 66 197]
  blanks_run [of _ 67 198] blanks_run [of _ 68 199] blanks_run [of _ 0 8] blanks_run [of _ 5 8]
  blanks_run [of _ 25 169] blanks_run [of _ 36 185] blanks_run [of _ 200 185]

text \<open>What may stand behind an instruction.\<close>

definition follows :: "char \<Rightarrow> bool" where
  "follows c \<longleftrightarrow> c = CHR '' '' \<or> c = CHR 0x09 \<or> c = CHR 0x5C \<or> c = CHR 0x0A"

lemma follows_move:
  assumes "follows c"
  shows "vmove st 22 (of_char c) = - 7" "vmove st 225 (of_char c) = - 79"
    "vmove st 237 (of_char c) = - 61" "vmove st 241 (of_char c) = - 78"
  using assms by (auto simp: follows_def vexec)

lemma of_char_range: "0 \<le> (of_char c :: int)" "(of_char c :: int) < 256"
  by (simp_all add: of_char_def)

lemmas iexec = vexec digits_at blanks_at follows_move of_char_range

lemma follows_end:
  assumes "follows c" and "length ss < 150" and "n \<in> {36, 200}"
  shows "vrun st YYEMPTY (n # ss) vs (c # ts) s ms = vrun st (of_char c) (n # ss) vs ts s ms"
  using assms by (auto simp: vexec)

lemma instr_run:
  assumes "instr_text i it" and "follows c" and "length ss < 100" and "w = 8 \<and> n = 36 \<or> w = 169 \<and> n = 200"
  shows "vrun st YYEMPTY (w # ss) vs (it @ c # ts) s ms =
    (case assemble i s of
       None \<Rightarrow> None
     | Some s' \<Rightarrow> vrun st YYEMPTY (n # w # ss) (0 # vs) (c # ts) s' ms)"
proof -
  have "vrun st YYEMPTY (w # ss) vs (it @ c # ts) s ms =
    (case assemble i s of
       None \<Rightarrow> None
     | Some s' \<Rightarrow> vrun st (of_char c) (n # w # ss) (0 # vs) ts s' ms)"
    using assms by cases (auto simp: iexec assemble_def emit_label_def emit_branch_label_def split: option.splits bind_splits)
  with assms show ?thesis by (auto simp: follows_end split: option.splits)
qed

lemma char_move:
  assumes "c = CHR 0x09 \<or> 32 \<le> (of_char c :: nat) \<and> (of_char c :: nat) \<le> 126"
  shows "(of_char c :: int) \<in> insert 9 {32..126}"
proof -
  have "(of_char c :: int) = int (of_char c)" by (simp only: of_nat_of_char)
  with assms show ?thesis by auto
qed

definition comment_move :: "(int list \<Rightarrow> vas_io \<Rightarrow> u32) \<Rightarrow> int \<Rightarrow> int \<Rightarrow> bool" where
  "comment_move st q b =
     (let y = vmove st q b in
      0 < y \<and> y \<noteq> 276 \<and> at vas_yypact y = Some YYFLAG \<and>
      (case at vas_yydefact y of
         None \<Rightarrow> False
       | Some d \<Rightarrow> 84 < d \<and> at vas_yyr2 d = Some 1 \<and> at vas_yyr1 d = Some 144))"

lemma comment_moves:
  "list_all (comment_move st 11) [33..126]" "list_all (comment_move st 69) [33..126]"
  by (simp_all add: comment_move_def vexec)

lemma no_action: "84 < r \<Longrightarrow> vas_action r v d s = Some (d, s)"
  by (simp add: vas_action_def Let_def)

lemma comment_char:
  assumes "c = CHR 0x09 \<or> 32 \<le> (of_char c :: nat) \<and> (of_char c :: nat) \<le> 126" and "q = 11 \<or> q = 69"
    and "length ss < 150"
  shows "vrun st YYEMPTY (q # ss) vs (c # ts) s ms = vrun st YYEMPTY (167 # q # ss) (0 # vs) ts s ms"
proof -
  have read: "vrun st YYEMPTY (q # ss) vs (c # ts) s ms = vrun st (of_char c) (q # ss) vs ts s ms"
    using assms(2) by (auto simp: v_read YYFLAG_def)
  show ?thesis
  proof (cases "of_char c = (9 :: int) \<or> of_char c = (32 :: int)")
    case True
    then show ?thesis unfolding read using assms(2,3) by (auto simp: vexec)
  next
    case False
    with char_move [OF assms(1)] have c: "of_char c \<in> set [33..126::int]" by (auto simp del: upto_simps)
    with comment_moves [of st] assms(2) have "comment_move st q (of_char c)"
      by (auto simp only: list_all_iff)
    then obtain d where d: "at vas_yypact (vmove st q (of_char c)) = Some YYFLAG"
        "at vas_yydefact (vmove st q (of_char c)) = Some d" "84 < d" "at vas_yyr2 d = Some 1"
        "at vas_yyr1 d = Some 144" "0 < vmove st q (of_char c)" "vmove st q (of_char c) \<noteq> 276"
      by (auto simp: comment_move_def Let_def split: option.splits)
    have "of_char c \<noteq> (0 :: int)" using char_move [OF assms(1)] by auto
    moreover have "goto_state (vas_grammar st) 144 q = Some 167"
      using assms(2) by (auto simp: goto_state_def table_entry_def)
    ultimately show ?thesis
      unfolding read using d assms(2,3) v_move [of "of_char c" q ss st vs ts s ms]
        v_default [of "vmove st q (of_char c)" "q # ss" st YYEMPTY "0 # vs" ts s ms]
      by (auto simp: of_char_range YYFLAG_def Let_def vreduce_def rd_def no_action)
  qed
qed

abbreviation comment_states :: "(int \<times> int) set" where
  "comment_states \<equiv> {(0, 10), (5, 10), (25, 170), (36, 186), (200, 238)}"

lemma comment_body:
  assumes "\<forall>c \<in> set cs. c = CHR 0x09 \<or> 32 \<le> (of_char c :: nat) \<and> (of_char c :: nat) \<le> 126"
    and "q = 11 \<and> p \<in> {0, 5, 25, 36, 200} \<or> q = 69 \<and> p \<in> {8, 169, 185}" and "length ss < 100"
  shows "vrun st YYEMPTY (q # p # ss) (0 # vs) (cs @ ts) s ms = vrun st YYEMPTY (q # p # ss) (0 # vs) ts s ms"
  using assms(1)
proof (induction cs)
  case (Cons c cs)
  have "vrun st YYEMPTY (q # p # ss) (0 # vs) ((c # cs) @ ts) s ms =
      vrun st YYEMPTY (167 # q # p # ss) (0 # 0 # vs) (cs @ ts) s ms"
    using Cons.prems assms(2,3) comment_char [of c q "p # ss" st "0 # vs" "cs @ ts" s ms] by auto
  also have "\<dots> = vrun st YYEMPTY (q # p # ss) (0 # vs) (cs @ ts) s ms"
    using assms(2,3) by (auto simp: vexec)
  finally show ?case using Cons by simp
qed simp

text \<open>A comment that is there, and none: either way the parser stands behind it at the end of the line.\<close>

lemma comment_run:
  assumes "comment_text cs" and "cs \<noteq> []" and "(p, g) \<in> comment_states" and "length ss < 90"
  shows "vrun st YYEMPTY (p # ss) vs (cs @ CHR 0x0A # ts) s ms = vrun st 10 (g # p # ss) (0 # vs) ts s ms"
proof -
  from assms(1,2) obtain ws bs where cs: "cs = ws @ CHR 0x5C # bs" "ws = [] \<or> blanks ws"
    and body: "\<forall>c \<in> set bs. c = CHR 0x09 \<or> 32 \<le> (of_char c :: nat) \<and> (of_char c :: nat) \<le> 126"
    by (auto simp: comment_text_def)
  show ?thesis
  proof (cases "ws = []")
    case True
    have "vrun st YYEMPTY (p # ss) vs (cs @ CHR 0x0A # ts) s ms =
        vrun st YYEMPTY (11 # p # ss) (0 # vs) (bs @ CHR 0x0A # ts) s ms"
      using assms(3,4) True cs(1) by (auto simp: vexec)
    also have "\<dots> = vrun st YYEMPTY (11 # p # ss) (0 # vs) (CHR 0x0A # ts) s ms"
      using assms(3,4) by (intro comment_body [OF body]) auto
    also have "\<dots> = vreduce st 80 10 (11 # p # ss) (0 # vs) ts s ms"
      using assms(4) by (simp add: vlook)
    also have "\<dots> = vrun st 10 (g # p # ss) (0 # vs) ts s ms"
      using assms(3) by (auto simp: vpop)
    finally show ?thesis .
  next
    case False
    with cs have ws: "blanks ws" by simp
    obtain w where w: "(p, w) \<in> blank_states" "w \<in> {8, 169, 185}" using assms(3) by auto
    have "vrun st YYEMPTY (p # ss) vs (cs @ CHR 0x0A # ts) s ms =
        vrun st YYEMPTY (w # p # ss) (0 # vs) (CHR 0x5C # bs @ CHR 0x0A # ts) s ms"
      using assms(4) cs(1) blanks_run [OF ws w(1)] by simp
    also have "\<dots> = vrun st YYEMPTY (69 # w # p # ss) (0 # 0 # vs) (bs @ CHR 0x0A # ts) s ms"
      using w(2) assms(4) by (auto simp: vexec)
    also have "\<dots> = vrun st YYEMPTY (69 # w # p # ss) (0 # 0 # vs) (CHR 0x0A # ts) s ms"
      using w(2) assms(4) by (intro comment_body [OF body]) auto
    also have "\<dots> = vreduce st 81 10 (69 # w # p # ss) (0 # 0 # vs) ts s ms"
      using assms(4) by (simp add: vlook)
    also have "\<dots> = vrun st 10 (g # p # ss) (0 # vs) ts s ms"
      using assms(3) by (auto simp: vpop)
    finally show ?thesis .
  qed
qed

lemmas comments_at = comment_run [of _ 0 10] comment_run [of _ 5 10] comment_run [of _ 25 170]
  comment_run [of _ 36 186] comment_run [of _ 200 238]

lemma comment_follows:
  assumes "comment_text cs"
  shows "\<exists>c rest. cs @ nl @ ts = c # rest \<and> follows c"
proof -
  from assms consider "cs = []" | ws bs where "cs = ws @ CHR 0x5C # bs" "ws = [] \<or> blanks ws"
    unfolding comment_text_def by blast
  then show ?thesis
  proof cases
    case 2
    then show ?thesis by (cases ws) (auto simp: follows_def blanks_def)
  qed (simp add: follows_def nl_def)
qed

section \<open>Lines and programs\<close>

text \<open>The stacks between two lines.\<close>

definition between :: "u32 \<Rightarrow> int list \<Rightarrow> u32 list \<Rightarrow> bool" where
  "between v ss vs \<longleftrightarrow> ss = [0] \<and> vs = [v] \<or> (\<exists>x. ss = [5, 0] \<and> vs = [x, v])"

lemma end_of_line:
  assumes "comment_text cs" and "(p, g) \<in> comment_states" and "length ss < 90"
  shows "\<exists>x. vrun st YYEMPTY (p # ss) vs (cs @ nl @ ts) s ms = vrun st 10 (g # p # ss) (x # vs) ts s ms"
proof (cases "cs = []")
  case True
  have "vrun st YYEMPTY (p # ss) vs (cs @ nl @ ts) s ms = vreduce st 82 10 (p # ss) vs ts s ms"
    using assms(2,3) True by (auto simp: nl_def vlook)
  with assms(2) show ?thesis by (auto simp: vpop)
next
  case False
  with comment_run [OF assms(1) False assms(2,3)] show ?thesis by (auto simp: nl_def)
qed

lemma line_run:
  assumes "line_text stm t" and "between v ss vs"
  shows "case statement stm s of
      None \<Rightarrow> vrun st YYEMPTY ss vs (t @ ts) s ms = None
    | Some s' \<Rightarrow> \<exists>x. vrun st YYEMPTY ss vs (t @ ts) s ms = vrun st YYEMPTY [5, 0] [x, v] ts s' ms"
  using assms(1)
proof cases
  case (1 cs)
  from assms(2) obtain p rest where p: "ss = p # rest" "(p, 10) \<in> comment_states" "length rest < 90"
    by (auto simp: between_def)
  from end_of_line [OF 1(3) p(2,3), of st vs ts s ms] obtain x where
    "vrun st YYEMPTY ss vs (t @ ts) s ms = vrun st 10 (10 # p # rest) (x # vs) ts s ms"
    using 1 p(1) by auto
  with 1 assms(2) p show ?thesis by (auto simp: between_def vexec)
next
  case (2 l cs)
  have "vrun st YYEMPTY ss vs (t @ ts) s ms =
      vrun st YYEMPTY (25 # 7 # ss) (0 # number l # vs) (cs @ nl @ ts) s ms"
    using assms(2) 2 by (auto simp: between_def iexec)
  moreover obtain x where "vrun st YYEMPTY (25 # 7 # ss) (0 # number l # vs) (cs @ nl @ ts) s ms =
      vrun st 10 (170 # 25 # 7 # ss) (x # 0 # number l # vs) ts s ms"
    using end_of_line [OF 2(4), of 25 170 "7 # ss" st "0 # number l # vs" ts s ms] assms(2)
    by (auto simp: between_def)
  ultimately show ?thesis
    using 2 assms(2) by (auto simp: between_def vexec split: option.splits bind_splits)
next
  case (3 l ws i it cs)
  from comment_follows [OF 3(6)] obtain c rest where c: "cs @ nl @ ts = c # rest" "follows c" by blast
  have "vrun st YYEMPTY ss vs (t @ ts) s ms =
      vrun st YYEMPTY (169 # 25 # 7 # ss) (0 # 0 # number l # vs) (it @ cs @ nl @ ts) s ms"
    using assms(2) 3 by (auto simp: between_def iexec)
  also have "\<dots> = (case assemble i s of None \<Rightarrow> None | Some s' \<Rightarrow>
      vrun st YYEMPTY (200 # 169 # 25 # 7 # ss) (0 # 0 # 0 # number l # vs) (cs @ nl @ ts) s' ms)"
    unfolding c(1) using assms(2) by (intro instr_run [OF 3(5) c(2)]) (auto simp: between_def)
  finally have run: "vrun st YYEMPTY ss vs (t @ ts) s ms = \<dots>" .
  show ?thesis
  proof (cases "assemble i s")
    case None
    with run 3 show ?thesis by simp
  next
    case (Some s')
    obtain x where "vrun st YYEMPTY (200 # 169 # 25 # 7 # ss) (0 # 0 # 0 # number l # vs) (cs @ nl @ ts) s' ms =
      vrun st 10 (238 # 200 # 169 # 25 # 7 # ss) (x # 0 # 0 # 0 # number l # vs) ts s' ms"
      using end_of_line [OF 3(6), of 200 238 "169 # 25 # 7 # ss" st "0 # 0 # 0 # number l # vs" ts s' ms] assms(2)
      by (auto simp: between_def)
    with run Some 3 assms(2) show ?thesis
      by (auto simp: between_def vexec split: option.splits bind_splits)
  qed
next
  case (4 ws i it cs)
  from comment_follows [OF 4(5)] obtain c rest where c: "cs @ nl @ ts = c # rest" "follows c" by blast
  have "vrun st YYEMPTY ss vs (t @ ts) s ms =
      vrun st YYEMPTY (8 # ss) (0 # vs) (it @ cs @ nl @ ts) s ms"
    using assms(2) 4 by (auto simp: between_def iexec)
  also have "\<dots> = (case assemble i s of None \<Rightarrow> None | Some s' \<Rightarrow>
      vrun st YYEMPTY (36 # 8 # ss) (0 # 0 # vs) (cs @ nl @ ts) s' ms)"
    unfolding c(1) using assms(2) by (intro instr_run [OF 4(4) c(2)]) (auto simp: between_def)
  finally have run: "vrun st YYEMPTY ss vs (t @ ts) s ms = \<dots>" .
  show ?thesis
  proof (cases "assemble i s")
    case None
    with run 4 show ?thesis by simp
  next
    case (Some s')
    obtain x where "vrun st YYEMPTY (36 # 8 # ss) (0 # 0 # vs) (cs @ nl @ ts) s' ms =
      vrun st 10 (186 # 36 # 8 # ss) (x # 0 # 0 # vs) ts s' ms"
      using end_of_line [OF 4(5), of 36 186 "8 # ss" st "0 # 0 # vs" ts s' ms] assms(2)
      by (auto simp: between_def)
    with run Some 4 assms(2) show ?thesis by (auto simp: between_def vexec)
  qed
qed

lemma source_run:
  assumes "source_text sts t" and "between v ss vs"
  shows "case statements sts s of
      None \<Rightarrow> vrun st YYEMPTY ss vs (t @ ts) s ms = None
    | Some s' \<Rightarrow> \<exists>x. vrun st YYEMPTY ss vs (t @ ts) s ms = vrun st YYEMPTY [5, 0] [x, v] ts s' ms"
  using assms
proof (induction arbitrary: ss vs s rule: source_text.induct)
  case (1 stm t)
  from line_run [OF this, where s = s and st = st and ts = ts and ms = ms] show ?case by (auto split: option.splits)
next
  case (2 stm t sts u)
  show ?case
  proof (cases "statement stm s")
    case None
    with line_run [OF 2(1,4), where s = s and st = st and ts = "u @ ts" and ms = ms] show ?thesis by simp
  next
    case (Some s')
    with line_run [OF 2(1,4), where s = s and st = st and ts = "u @ ts" and ms = ms] obtain x where
      x: "vrun st YYEMPTY ss vs (t @ u @ ts) s ms = vrun st YYEMPTY [5, 0] [x, v] (u @ ts) s' ms" by auto
    have "between v [5, 0] [x, v]" by (simp add: between_def)
    from 2(3) [OF this, of s'] x Some show ?thesis by (simp split: option.splits)
  qed
qed

lemma yyparse_vrun:
  "vas_yyparse st v \<lparr>source = ts, assembler = s, messages = ms\<rparr> = vrun st YYEMPTY [0] [v] ts s ms"
proof -
  have "yyrun (vas_grammar st) Newstate (yystart v \<lparr>source = ts, assembler = s, messages = ms\<rparr>) =
      yyrun (vas_grammar st) Backup (vconf YYEMPTY [0] [v] ts s ms)"
    by (intro yyrun_steps(1)) (simp add: newstate_def yystart_def vconf_def YYINITDEPTH_def)
  then show ?thesis by (simp add: vas_yyparse_def yyparse_def vrun_def vout_def)
qed

lemma parse_source:
  assumes "source_text sts t"
  shows "vas_yyparse st v \<lparr>source = t, assembler = s, messages = ms\<rparr> =
    (case statements sts s of
       None \<Rightarrow> None
     | Some s' \<Rightarrow> Some (0, \<lparr>source = [], assembler = s', messages = ms\<rparr>))"
proof -
  have base: "between v [0] [v]" by (simp add: between_def)
  have fin: "vrun st YYEMPTY [5, 0] [x, v] [] s' ms = Some (0, \<lparr>source = [], assembler = s', messages = ms\<rparr>)" for x s'
    by (simp add: vexec)
  from source_run [OF assms base, where st = st and s = s and ts = "[]" and ms = ms] show ?thesis
    by (auto simp: yyparse_vrun fin split: option.splits)
qed

section \<open>Syntax errors\<close>

text \<open>
  No rule of the assembler's grammar mentions the error token: the parser reports the error, empties
  its stack and returns 1.
\<close>

lemma no_error_entry:
  assumes "at vas_yypact q = Some k"
  shows "k = YYFLAG \<or> table_entry (vas_grammar st) (k + YYTERROR) YYTERROR = Some None"
proof -
  have "length vas_yypact = 277" by (simp add: vas_yypact_def)
  with assms have "q \<in> set [0..276]" by (auto simp: at_def rd_def simp del: upto_simps split: if_splits)
  moreover have "list_all (\<lambda>q. case at vas_yypact q of None \<Rightarrow> True | Some k \<Rightarrow> k = - 32768 \<or>
      table_entry (vas_grammar st) (k + 1) 1 = Some None) [0..276]"
    by (simp add: table_entry_def)
  ultimately show ?thesis using assms by (auto simp only: list_all_iff YYTERROR_def YYFLAG_def option.case)
qed

lemma errhandle_pops:
  assumes "\<forall>q \<in> set (yyssp p). at vas_yypact q \<noteq> None" and "yyssp p \<noteq> []" and "yystate p = hd (yyssp p)"
  shows "\<exists>p'. yyrun (vas_grammar st) Errhandle p = Some (Returned 1 p') \<and> globals p' = globals p"
  using assms
proof (induction "yyssp p" arbitrary: p)
  case (Cons q ss)
  from Cons(2) [symmetric] Cons.prems obtain k where k: "yystate p = q" "at vas_yypact q = Some k" by auto
  from no_error_entry [OF k(2), of st] k have handle: "yyrun (vas_grammar st) Errhandle p = yyrun (vas_grammar st) Errpop p"
    by (intro yyrun_steps(1)) (auto simp: errhandle_def)
  show ?case
  proof (cases ss)
    case Nil
    with Cons(2) [symmetric] handle show ?thesis by (simp add: yyrun_steps errpop_def)
  next
    case (Cons q' ss')
    let ?p = "p\<lparr>yyvsp := tl (yyvsp p), yyssp := tl (yyssp p), yystate := q'\<rparr>"
    have "yyrun (vas_grammar st) Errpop p = yyrun (vas_grammar st) Errhandle ?p"
      using Cons \<open>q # ss = yyssp p\<close> [symmetric] by (intro yyrun_steps(1)) (simp add: errpop_def rd_def)
    moreover have "\<exists>p'. yyrun (vas_grammar st) Errhandle ?p = Some (Returned 1 p') \<and> globals p' = globals ?p"
      using Cons \<open>q # ss = yyssp p\<close> [symmetric] Cons.prems by (intro Cons.hyps) auto
    ultimately show ?thesis using handle by simp
  qed
qed simp

lemma entry_total: "table_entry (vas_grammar st) i c \<noteq> None"
proof -
  have "length vas_yycheck = 316" "length vas_yytable = 316"
    by (simp_all add: vas_yycheck_def vas_yytable_def)
  then show ?thesis by (auto simp: table_entry_def at_def rd_def split: bind_splits)
qed

lemma v_error:
  assumes "0 \<le> b" and "b < 256" and "at vas_yypact q \<noteq> None" and "at vas_yypact q \<noteq> Some YYFLAG"
    and "vmove st q b = 0" and "\<forall>q' \<in> set ss. at vas_yypact q' \<noteq> None"
  shows "vrun st b (q # ss) vs ts s ms =
     Some (1, \<lparr>source = ts, assembler = s, messages = ms @ [''yyerror: '' @ ''parse error'' @ nl]\<rparr>)"
proof -
  let ?p = "vconf b (q # ss) vs ts s ms"
  let ?p1 = "?p\<lparr>yynerrs := 1, globals := vas_yyerror ''parse error'' (globals ?p)\<rparr>"
  let ?p2 = "?p1\<lparr>yyerrstatus := 3\<rparr>"
  from assms(3) obtain k where k: "at vas_yypact q = Some k" by auto
  then obtain d where d: "at vas_yydefact q = Some d" "0 \<le> d" by (rule vas_defact)
  obtain c where c: "(if b = 0 then Some 0 else YYTRANSLATE (vas_grammar st) b) = Some c"
    using assms(1,2) by (cases "b = 0") (auto simp: YYTRANSLATE_def at_def rd_def nat_less_iff)
  then have read: "read_token (vas_grammar st) ?p = Some (c, ?p)"
    using assms(1) by (auto simp: read_token_def vconf_def YYEMPTY_def YYEOF_def split: if_splits)
  obtain e where e: "table_entry (vas_grammar st) (k + c) c = Some e"
    using entry_total by fastforce
  have "yyrun (vas_grammar st) Backup ?p = yyrun (vas_grammar st) Errlab ?p"
  proof (cases e)
    case None
    with assms(5) k c d e have "d = 0" by (simp add: vmove_def)
    have "yyrun (vas_grammar st) Backup ?p = yyrun (vas_grammar st) Default ?p"
      using None k assms(4) read e by (intro yyrun_steps(1)) (simp add: backup_def)
    also have "\<dots> = yyrun (vas_grammar st) Errlab ?p"
      using d \<open>d = 0\<close> by (intro yyrun_steps(1)) (simp add: yydefault_def)
    finally show ?thesis .
  next
    case (Some y)
    with assms(5) k c e have "y = YYFLAG \<or> y = 0" by (simp add: vmove_def split: if_splits)
    with Some k assms(4) read e show ?thesis
      by (intro yyrun_steps(1)) (auto simp: backup_def YYFLAG_def)
  qed
  also have "\<dots> = yyrun (vas_grammar st) Errlab1 ?p1"
    by (intro yyrun_steps(1)) (simp add: errlab_def vconf_def)
  also have "\<dots> = yyrun (vas_grammar st) Errhandle ?p2"
    by (intro yyrun_steps(1)) (simp add: errlab1_def vconf_def)
  finally have run: "yyrun (vas_grammar st) Backup ?p = \<dots>" .
  have "\<exists>p'. yyrun (vas_grammar st) Errhandle ?p2 = Some (Returned 1 p') \<and> globals p' = globals ?p2"
    using assms(3,6) by (intro errhandle_pops) (auto simp: vconf_def)
  with run show ?thesis by (auto simp: vrun_def vout_def vas_yyerror_def)
qed

lemma bad_start:
  assumes "c \<notin> {CHR '' '', CHR 0x09, CHR 0x5C, CHR ''L'', CHR 0x0A, CHR 0x00}" and "between v ss vs"
  shows "vrun st YYEMPTY ss vs (c # ts) s ms =
     Some (1, \<lparr>source = ts, assembler = s, messages = ms @ [''yyerror: '' @ ''parse error'' @ nl]\<rparr>)"
proof -
  have moves: "list_all (\<lambda>b. b \<in> {9, 10, 32, 76, 92} \<or>
      vmove st 0 b = - 82 \<and> vmove st 5 b = - 82 \<and> vmove st 10 b = 0) [1..255]"
    by (simp add: vlook vmove_def [of st q 1 for st q])
  have "c = d" if "(of_char c :: int) = of_char d" for d
    using that by (simp only: of_char_eq_iff)
  from this [of "CHR 0x00"] this [of "CHR 0x09"] this [of "CHR 0x0A"] this [of "CHR '' ''"]
    this [of "CHR ''L''"] this [of "CHR 0x5C"] assms(1)
  have bad: "of_char c \<notin> {0, 9, 10, 32, 76, 92::int}" by auto
  with of_char_range [of c] have "of_char c \<in> set [1..255::int]" by (auto simp del: upto_simps)
  with moves bad have mv: "vmove st 0 (of_char c) = - 82" "vmove st 5 (of_char c) = - 82"
    "vmove st 10 (of_char c) = 0" by (auto simp only: list_all_iff)
  from assms(2) obtain p rest where p: "ss = p # rest" "p = 0 \<or> p = 5" "length rest < 100"
    "\<forall>q \<in> set ss. at vas_yypact q \<noteq> None" by (auto simp: between_def)
  have "vrun st YYEMPTY ss vs (c # ts) s ms = vreduce st 82 (of_char c) ss vs ts s ms"
    using p mv of_char_range [of c] by (auto simp: v_read v_move YYFLAG_def)
  also have "\<dots> = vrun st (of_char c) (10 # ss) (st ss \<lparr>source = ts, assembler = s, messages = ms\<rparr> # vs) ts s ms"
    using p by (auto simp: vpop)
  also have "\<dots> = Some (1, \<lparr>source = ts, assembler = s, messages = ms @ [''yyerror: '' @ ''parse error'' @ nl]\<rparr>)"
    using p(4) mv(3) of_char_range [of c] by (intro v_error) (auto simp: YYFLAG_def)
  finally show ?thesis .
qed

text \<open>
  A line that cannot go on at its next character: no line begins with it, or it stands behind an
  instruction, with or without a label before it, and blanks. The list holds the instruction whose
  action has run by then; the label has not been set. (Blanks at the end of such a line are an error
  of this kind, the character being the newline.)
\<close>

inductive broken_line :: "stmt list \<Rightarrow> string \<Rightarrow> char \<Rightarrow> bool" where
  "c \<notin> {CHR '' '', CHR 0x09, CHR 0x5C, CHR ''L'', CHR 0x0A, CHR 0x00} \<Longrightarrow> broken_line [] [] c"
| "blanks ws \<Longrightarrow> instr_text i it \<Longrightarrow> blanks us \<Longrightarrow> c \<notin> {CHR '' '', CHR 0x09, CHR 0x5C} \<Longrightarrow>
     broken_line [Instr i] (ws @ it @ us) c"
| "digits l \<Longrightarrow> blanks ws \<Longrightarrow> instr_text i it \<Longrightarrow> blanks us \<Longrightarrow> c \<notin> {CHR '' '', CHR 0x09, CHR 0x5C} \<Longrightarrow>
     broken_line [Instr i] (''L'' @ l @ '':'' @ ws @ it @ us) c"

lemma bad_behind_moves:
  "list_all (\<lambda>b. b \<in> {9, 32, 92} \<or> vmove st 185 b = 0) [0..255]"
  by (simp add: vlook vmove_def [of st q 1 for st q])


lemma bad_behind:
  assumes "c \<notin> {CHR '' '', CHR 0x09, CHR 0x5C}" and "length ss < 100"
    and "\<forall>q \<in> set ss. at vas_yypact q \<noteq> None"
  shows "vrun st YYEMPTY (185 # ss) vs (c # ts) s ms =
     Some (1, \<lparr>source = ts, assembler = s, messages = ms @ [''yyerror: '' @ ''parse error'' @ nl]\<rparr>)"
proof -
  have "c = d" if "(of_char c :: int) = of_char d" for d
    using that by (simp only: of_char_eq_iff)
  from this [of "CHR 0x09"] this [of "CHR '' ''"] this [of "CHR 0x5C"] assms(1)
  have bad: "of_char c \<notin> {9, 32, 92::int}" by auto
  from of_char_range [of c] have "of_char c \<in> set [0..255::int]" by (auto simp del: upto_simps)
  with bad_behind_moves [of st] bad have "vmove st 185 (of_char c) = 0"
    by (auto simp only: list_all_iff)
  moreover have "vrun st YYEMPTY (185 # ss) vs (c # ts) s ms = vrun st (of_char c) (185 # ss) vs ts s ms"
    by (simp add: v_read YYFLAG_def)
  ultimately show ?thesis
    using assms(3) of_char_range [of c] v_error [of "of_char c" 185 st ss vs ts s ms]
    by (simp add: YYFLAG_def)
qed

lemma blanks_follow:
  assumes "blanks us"
  obtains d rest where "us @ ts = d # rest" and "follows d"
  using assms by (cases us) (auto simp: blanks_def follows_def)

lemma broken_run:
  assumes "broken_line ks b c" and "between v ss vs"
  shows "vrun st YYEMPTY ss vs (b @ c # ts) s ms =
    (case statements ks s of
       None \<Rightarrow> None
     | Some s' \<Rightarrow> Some (1, \<lparr>source = ts, assembler = s',
         messages = ms @ [''yyerror: '' @ ''parse error'' @ nl]\<rparr>))"
  using assms(1)
proof cases
  case 1
  with bad_start [OF 1(3) assms(2)] show ?thesis by simp
next
  case (2 ws i it us)
  from blanks_follow [OF 2(5)] obtain d rest where d: "us @ c # ts = d # rest" "follows d" by blast
  have "vrun st YYEMPTY ss vs (b @ c # ts) s ms = vrun st YYEMPTY (8 # ss) (0 # vs) (it @ us @ c # ts) s ms"
    using assms(2) 2 by (auto simp: between_def iexec)
  also have "\<dots> = (case assemble i s of None \<Rightarrow> None | Some s' \<Rightarrow>
      vrun st YYEMPTY (36 # 8 # ss) (0 # 0 # vs) (us @ c # ts) s' ms)"
    unfolding d(1) using assms(2) by (intro instr_run [OF 2(4) d(2)]) (auto simp: between_def)
  finally have run: "vrun st YYEMPTY ss vs (b @ c # ts) s ms = \<dots>" .
  have "vrun st YYEMPTY (36 # 8 # ss) (0 # 0 # vs) (us @ c # ts) s' ms =
      vrun st YYEMPTY (185 # 36 # 8 # ss) (0 # 0 # 0 # vs) (c # ts) s' ms" for s'
    using assms(2) 2(5) by (intro blanks_at) (auto simp: between_def)
  moreover have "vrun st YYEMPTY (185 # 36 # 8 # ss) (0 # 0 # 0 # vs) (c # ts) s' ms =
      Some (1, \<lparr>source = ts, assembler = s', messages = ms @ [''yyerror: '' @ ''parse error'' @ nl]\<rparr>)" for s'
    using assms(2) 2(6) by (intro bad_behind) (auto simp: between_def)
  ultimately show ?thesis using run 2(1) by (auto split: option.splits)
next
  case (3 l ws i it us)
  from blanks_follow [OF 3(6)] obtain d rest where d: "us @ c # ts = d # rest" "follows d" by blast
  have "vrun st YYEMPTY ss vs (b @ c # ts) s ms =
      vrun st YYEMPTY (169 # 25 # 7 # ss) (0 # 0 # number l # vs) (it @ us @ c # ts) s ms"
    using assms(2) 3 by (auto simp: between_def iexec)
  also have "\<dots> = (case assemble i s of None \<Rightarrow> None | Some s' \<Rightarrow>
      vrun st YYEMPTY (200 # 169 # 25 # 7 # ss) (0 # 0 # 0 # number l # vs) (us @ c # ts) s' ms)"
    unfolding d(1) using assms(2) by (intro instr_run [OF 3(5) d(2)]) (auto simp: between_def)
  finally have run: "vrun st YYEMPTY ss vs (b @ c # ts) s ms = \<dots>" .
  have "vrun st YYEMPTY (200 # 169 # 25 # 7 # ss) (0 # 0 # 0 # number l # vs) (us @ c # ts) s' ms =
      vrun st YYEMPTY (185 # 200 # 169 # 25 # 7 # ss) (0 # 0 # 0 # 0 # number l # vs) (c # ts) s' ms" for s'
    using assms(2) 3(6) by (intro blanks_at) (auto simp: between_def)
  moreover have "vrun st YYEMPTY (185 # 200 # 169 # 25 # 7 # ss) (0 # 0 # 0 # 0 # number l # vs) (c # ts) s' ms =
      Some (1, \<lparr>source = ts, assembler = s', messages = ms @ [''yyerror: '' @ ''parse error'' @ nl]\<rparr>)" for s'
    using assms(2) 3(7) by (intro bad_behind) (auto simp: between_def)
  ultimately show ?thesis using run 3(1) by (auto split: option.splits)
qed

lemma statements_append:
  "statements (xs @ ys) s = (case statements xs s of None \<Rightarrow> None | Some s' \<Rightarrow> statements ys s')"
  by (induction xs arbitrary: s) (auto split: option.splits bind_splits)

lemma parse_stops:
  assumes "source_text sts t" and "broken_line ks b c"
  shows "vas_yyparse st v \<lparr>source = t @ b @ c # ts, assembler = s, messages = ms\<rparr> =
    (case statements (sts @ ks) s of
       None \<Rightarrow> None
     | Some s' \<Rightarrow> Some (1, \<lparr>source = ts, assembler = s',
         messages = ms @ [''yyerror: '' @ ''parse error'' @ nl]\<rparr>))"
proof -
  have base: "between v [0] [v]" "between v [5, 0] [x, v]" for x by (simp_all add: between_def)
  from source_run [OF assms(1) base(1), where st = st and s = s and ts = "b @ c # ts" and ms = ms]
    broken_run [OF assms(2) base(2)]
  show ?thesis by (auto simp: yyparse_vrun statements_append split: option.splits)
qed

section \<open>The whole assembler on text\<close>

lemma main_passes:
  assumes "source_text sts t"
  shows "vas_main st1 v1 st2 v2 t =
     map_option (\<lambda>s. \<lparr>source = [], assembler = s, messages = []\<rparr>) (vas_passes sts)"
  by (cases "statements sts start")
     (auto simp: vas_main_def vas_passes_def parse_source [OF assms] split: option.splits)

lemma main_stops:
  assumes "source_text sts t" and "broken_line ks b c"
  shows "vas_main st1 v1 st2 v2 (t @ b @ c # ts) =
     map_option (\<lambda>s. \<lparr>source = ts, assembler = s,
        messages = replicate 2 (''yyerror: '' @ ''parse error'' @ nl)\<rparr>) (vas_passes (sts @ ks))"
  by (cases "statements (sts @ ks) start")
     (auto simp: vas_main_def vas_passes_def parse_stops [OF assms] numeral_2_eq_2 split: option.splits)

text \<open>C3: On the text of a list of statements, with any blanks and comments the grammar allows, the
  generated parser returns 0 with the whole text read, and has run exactly the actions of the
  statements, in order; it is undefined just where one of them is.\<close>

theorem parser_runs_statements:
  assumes "source_text sts t"
  shows "vas_yyparse st v \<lparr>source = t, assembler = s, messages = ms\<rparr> =
    (case statements sts s of
       None \<Rightarrow> None
     | Some s' \<Rightarrow> Some (0, \<lparr>source = [], assembler = s', messages = ms\<rparr>))"
  using assms by (rule parse_source)

text \<open>A loop with a label on a line of its own, a comment and two kinds of blank.\<close>

abbreviation loop_text :: string where
  "loop_text \<equiv> ''L7:'' @ nl @ '' BRA'' @ [CHR 0x09] @ ''L7 '' @ [CHR 0x5C] @ '' again'' @ nl"

lemma loop_source: "source_text [Label 7, Instr (ABRA_L 7)] loop_text"
proof -
  have n: "number ''7'' = 7" "digits ''7''" by (simp_all add: number_from_def digits_def)
  have "line_text (Label (number ''7'')) (''L'' @ ''7'' @ '':'' @ [] @ nl)"
    using n by (intro line_text.intros) (simp_all add: comment_text_def)
  moreover have "comment_text ('' '' @ [CHR 0x5C] @ '' again'')"
    unfolding comment_text_def
    by (intro disjI2 exI [of _ "'' ''"] exI [of _ "'' again''"]) (simp add: blanks_def)
  then have "line_text (Instr (ABRA_L (number ''7'')))
      ('' '' @ (''BRA'' @ [CHR 0x09] @ ''L'' @ ''7'') @ ('' '' @ [CHR 0x5C] @ '' again'') @ nl)"
    using n by (intro line_text.intros(4) instr_text.intros(20)) (simp_all add: blanks_def)
  ultimately show ?thesis
    using source_text.intros(2) [OF _ source_text.intros(1)] by (fastforce simp: n)
qed

lemma parser_runs_statements_witness:
  "vas_yyparse (\<lambda>_ _. 5) 3 \<lparr>source = loop_text, assembler = start, messages = []\<rparr> =
    (case statements [Label 7, Instr (ABRA_L 7)] start of
       None \<Rightarrow> None
     | Some s' \<Rightarrow> Some (0, \<lparr>source = [], assembler = s', messages = []\<rparr>))"
  by (rule parser_runs_statements [OF loop_source])

text \<open>C2: From text to bytes: the assembler, given the text of a program whose registers and labels
  are in range and whose labels are defined once, writes exactly the encodings of the program's
  instructions with every label resolved, and no message.\<close>

theorem main_assembles:
  assumes "source_text sts t" and "good_program sts"
  shows "\<exists>g. vas_main st1 v1 st2 v2 t = Some g \<and> messages g = [] \<and>
     image (assembler g) = program_code (label_addr sts) 0 sts"
  using two_passes [OF assms(2)] by (auto simp: main_passes [OF assms(1)])

lemma loop_good: "good_program [Label 7, Instr (ABRA_L 7)]"
  by (simp add: good_program_def MAXLAB_def)

lemma main_assembles_witness:
  "\<exists>g. vas_main (\<lambda>_ _. 5) 3 (\<lambda>_ _. 1) 2 loop_text = Some g \<and> messages g = [] \<and>
     image (assembler g) = [I_BRA, 0, 0, 0, 0]"
proof -
  have "program_code (label_addr [Label 7, Instr (ABRA_L 7)]) 0 [Label 7, Instr (ABRA_L 7)] = [I_BRA, 0, 0, 0, 0]"
    by (simp add: label_addr_def code_def word_bytes_def)
  with main_assembles [OF loop_source loop_good] show ?thesis by metis
qed

text \<open>C6: A syntax error truncates the output silently. When a line after a correct program cannot go
  on at its first character, or behind its instruction and blanks, both passes report the error and
  stop there, \<open>main\<close> goes on regardless, and what is written is the complete code of the lines before
  together with that of the offending line's own instruction, whose action had run, and nothing of
  what follows.\<close>

theorem syntax_error_truncates:
  assumes "source_text sts t" and "broken_line ks b c" and "good_program (sts @ ks)"
  shows "\<exists>g. vas_main st1 v1 st2 v2 (t @ b @ c # ts) = Some g \<and> source g = ts \<and>
     messages g = replicate 2 (''yyerror: parse error'' @ nl) \<and>
     image (assembler g) = program_code (label_addr (sts @ ks)) 0 (sts @ ks)"
  using two_passes [OF assms(3)] by (auto simp: main_stops [OF assms(1,2)])

text \<open>Behind the loop, an instruction with one blank too many at the end of its line.\<close>

lemma halt_blank: "broken_line [Instr AHALT] '' HALT '' (CHR 0x0A)"
proof -
  have "broken_line [Instr AHALT] ('' '' @ ''HALT'' @ '' '') (CHR 0x0A)"
    by (intro broken_line.intros(2) instr_text.intros) (simp_all add: blanks_def)
  then show ?thesis by simp
qed

lemma syntax_error_truncates_witness:
  "\<exists>g. vas_main (\<lambda>_ _. 5) 3 (\<lambda>_ _. 1) 2 (loop_text @ '' HALT '' @ CHR 0x0A # '' NOP'' @ nl) = Some g \<and>
     source g = '' NOP'' @ nl \<and> messages g = replicate 2 (''yyerror: parse error'' @ nl) \<and>
     image (assembler g) = [I_BRA, 0, 0, 0, 0, I_HALT]"
proof -
  have good: "good_program ([Label 7, Instr (ABRA_L 7)] @ [Instr AHALT])"
    by (simp add: good_program_def MAXLAB_def)
  have "program_code (label_addr ([Label 7, Instr (ABRA_L 7)] @ [Instr AHALT])) 0
      ([Label 7, Instr (ABRA_L 7)] @ [Instr AHALT]) = [I_BRA, 0, 0, 0, 0, I_HALT]"
    by (simp add: label_addr_def code_def word_bytes_def)
  with syntax_error_truncates [OF loop_source halt_blank good] show ?thesis by metis
qed

end
