(* ===== verification/VAS_Safe.thy ===== *)
theory VAS_Safe
  imports VAS_Lr
begin

text \<open>
  The assembler's parser on arbitrary input: the tables pass the check of \<open>Bison\<close>, so that the
  parser always returns and its own accesses stay inside its arrays, and because the grammar does
  not nest, its stacks keep their initial size.
\<close>

section \<open>The tables pass the check\<close>

declare vas_at [simp]

lemmas vas_eval =
  YYFLAG_def YYTERROR_def state_ok_def symbol_ok_def move_ok_def reduce_ok_def rhs_def
  table_entry_def goto_state_def accepting_def

lemma vas_states_ok: "list_all (state_ok (vas_grammar st) vas_certificate) [0..275]"
  by (simp add: vas_eval)

lemma vas_tables_ok: "tables_ok (vas_grammar st) vas_certificate"
  using vas_states_ok [of st] vas_certificate_length
  by (simp add: tables_ok_def vas_yytranslate_def YYTERROR_def del: upto_simps) auto

interpretation vas: lalr "vas_grammar st" vas_certificate "length \<circ> source"
proof
  show "tables_ok (vas_grammar st) vas_certificate" by (rule vas_tables_ok)
qed (auto simp: vas_yylex_def vas_yyaction_def vas_yyerror_def vas_yytranslate_def of_char_def
       split: list.splits)

text \<open>The level of every state: states lower on a stack have lower levels.\<close>

definition vas_levels :: "nat list" where
  "vas_levels =
    [0, 9, 8, 8, 7, 1, 1, 2, 2, 6, 2, 6, 14, 14, 14, 14, 14, 14, 14, 14, 14, 14, 10, 13, 2, 3, 5, 5,
     5, 5, 5, 5, 5, 5, 5, 7, 3, 5, 5, 5, 5, 5, 5, 5, 5, 5, 5, 5, 5, 5, 5, 5, 5, 5, 5, 5, 5, 5, 5, 5,
     5, 5, 5, 5, 5, 5, 5, 5, 5, 7, 7, 3, 8, 8, 8, 8, 8, 8, 8, 8, 8, 8, 8, 8, 8, 8, 8, 8, 8, 8, 8, 8,
     8, 8, 8, 8, 8, 8, 8, 8, 8, 8, 8, 8, 8, 8, 8, 8, 8, 8, 8, 8, 8, 8, 8, 8, 8, 8, 8, 8, 8, 8, 8, 8,
     8, 8, 8, 8, 8, 8, 8, 8, 8, 8, 8, 8, 8, 8, 8, 8, 8, 8, 8, 8, 8, 8, 8, 8, 8, 8, 8, 8, 8, 8, 8, 8,
     8, 8, 8, 8, 8, 8, 8, 8, 8, 8, 8, 8, 14, 4, 4, 6, 6, 6, 6, 6, 6, 6, 6, 6, 6, 6, 6, 6, 6, 6, 4,
     6, 6, 6, 6, 6, 6, 6, 6, 6, 6, 6, 6, 6, 5, 5, 7, 7, 7, 7, 7, 7, 7, 7, 7, 7, 7, 7, 7, 7, 7, 5,
     12, 7, 7, 7, 7, 7, 7, 9, 7, 7, 7, 7, 7, 7, 7, 7, 7, 7, 7, 7, 6, 8, 8, 13, 8, 8, 8, 8, 8, 8, 8,
     8, 8, 8, 8, 7, 9, 9, 9, 9, 9, 9, 9, 9, 9, 9, 9, 9, 10, 10, 10, 11, 11, 11, 12, 12, 12, 2]"

lemmas vas_levels_at [simp] = map_at [OF vas_levels_def, simplified]

lemma vas_levels_ok:
  assumes "at vas_certificate q \<noteq> None"
  shows "levels_ok vas_certificate vas_levels 14 q"
proof -
  have "q \<in> set [0..275]"
    using assms by (auto simp: at_def rd_def vas_certificate_length simp del: upto_simps split: if_splits)
  moreover have "list_all (levels_ok vas_certificate vas_levels 14) [0..275]"
    by (simp add: levels_ok_def)
  ultimately show ?thesis by (simp only: list_all_iff)
qed

section \<open>Every input\<close>

lemma action_undefined:
  assumes "vas_action r v d s = None"
  shows "\<exists>k. MAXLAB \<le> unat (v k)"
proof (rule ccontr)
  assume "\<nexists>k. MAXLAB \<le> unat (v k)"
  then have "unat (v k) < MAXLAB" for k by (simp add: not_le)
  then have "vas_action r v d s \<noteq> None"
    by (simp add: vas_action_def set_label_def emit_label_def emit_branch_label_def label_of_def Let_def)
  with assms show False by simp
qed

text \<open>C4: For every input the assembler's parser returns, with 0 or 1: it always ends, never leaves
  its tables or stacks, and never runs out of stack. The only undefined behaviour is the one of the
  actions: a label number beyond the label table.\<close>

theorem assembler_parser_returns:
  "\<exists>r. yyparse (vas_grammar st) v g = Some r \<and>
    (case r of
       Returned n p \<Rightarrow> n = 0 \<or> n = 1
     | Undefined l p \<Rightarrow> \<exists>rule k. l = Reduce rule \<and> MAXLAB \<le> unat (yyvsp p ! k))"
proof -
  obtain r where r: "yyparse (vas_grammar st) v g = Some r"
    "case r of
       Undefined l p \<Rightarrow> yyreach (vas_grammar st) v g l p \<and> stuck (vas_grammar st) l p
     | Returned n p \<Rightarrow> \<exists>l q. yyreach (vas_grammar st) v g l q \<and> yystep (vas_grammar st) l q = Some (Return n p)"
    using vas.yyparse_ends [of st v g] by blast
  show ?thesis
  proof (cases r)
    case (Undefined l p)
    with r(2) have "stuck (vas_grammar st) l p" by simp
    then obtain rule d where "l = Reduce rule"
      "vas_action (nat rule) (\<lambda>k. yyvsp p ! k) d (assembler (globals p)) = None"
      by (auto simp: stuck_def vas_yylex_def vas_yyaction_def)
    with r(1) Undefined action_undefined show ?thesis by fastforce
  next
    case (Returned n p)
    with r(2) obtain l q where q: "yyreach (vas_grammar st) v g l q"
      "yystep (vas_grammar st) l q = Some (Return n p)" by auto
    have "length (stack l q) \<le> Suc 14" using q(1) vas_levels_ok by (rule vas.reach_bounded)
    with vas.return_code [OF q] have "n < 2" by (cases "n = 2") (auto simp: YYMAXDEPTH_def)
    with r(1) Returned show ?thesis by auto
  qed
qed

text \<open>C5: Whatever the input, the assembler's parser never holds more than fifteen states, so its
  stacks are never moved from the 200 entries they start with.\<close>

theorem assembler_stack_bound:
  assumes "yyreach (vas_grammar st) v g l p"
  shows "length (stack l p) \<le> 15 \<and> yystacksize p = 200"
  using vas.reach_bounded [OF assms vas_levels_ok] vas.reach_stacksize [OF assms vas_levels_ok]
  by (simp add: YYINITDEPTH_def)

lemma assembler_stack_bound_witness:
  "\<exists>p. yyreach (vas_grammar (\<lambda>_ _. 7)) 3 \<lparr>source = '' HALT'', assembler = start, messages = []\<rparr> Backup p \<and>
     yyssp p = [0] \<and> length (stack Backup p) \<le> 15 \<and> yystacksize p = 200"
proof -
  let ?G = "vas_grammar (\<lambda>_ _. 7)"
  let ?g = "\<lparr>source = '' HALT'', assembler = start, messages = []\<rparr>"
  let ?p = "(yystart 3 ?g)\<lparr>yyssp := [0]\<rparr>"
  have "yyreach ?G 3 ?g Backup ?p"
    by (rule yyreach.step [OF yyreach.start])
       (simp add: newstate_def yystart_def YYINITDEPTH_def)
  from this assembler_stack_bound [OF this] show ?thesis by (intro exI [of _ ?p]) simp
qed

end
