(* ===== verification/VC_Tables.thy ===== *)
theory VC_Tables
  imports Bison
begin

text \<open>
  The tables bison generated into the compiler (\<open>csibe/src/compiler/parser.c\<close>), as they stand there.
\<close>

definition vc_yytranslate :: "int list" where
  "vc_yytranslate =
    [0, 2, 2, 2, 2, 2, 2, 2, 2, 2, 2, 2, 2, 2, 2, 2, 2, 2, 2, 2, 2, 2, 2, 2, 2, 2, 2, 2, 2, 2, 2, 2,
     2, 2, 2, 2, 2, 2, 2, 2, 24, 25, 22, 20, 26, 21, 2, 23, 2, 2, 2, 2, 2, 2, 2, 2, 2, 2, 2, 2, 2,
     2, 2, 2, 2, 2, 2, 2, 2, 2, 2, 2, 2, 2, 2, 2, 2, 2, 2, 2, 2, 2, 2, 2, 2, 2, 2, 2, 2, 2, 2, 2, 2,
     2, 2, 2, 2, 2, 2, 2, 2, 2, 2, 2, 2, 2, 2, 2, 2, 2, 2, 2, 2, 2, 2, 2, 2, 2, 2, 2, 2, 2, 2, 27,
     2, 28, 2, 2, 2, 2, 2, 2, 2, 2, 2, 2, 2, 2, 2, 2, 2, 2, 2, 2, 2, 2, 2, 2, 2, 2, 2, 2, 2, 2, 2,
     2, 2, 2, 2, 2, 2, 2, 2, 2, 2, 2, 2, 2, 2, 2, 2, 2, 2, 2, 2, 2, 2, 2, 2, 2, 2, 2, 2, 2, 2, 2, 2,
     2, 2, 2, 2, 2, 2, 2, 2, 2, 2, 2, 2, 2, 2, 2, 2, 2, 2, 2, 2, 2, 2, 2, 2, 2, 2, 2, 2, 2, 2, 2, 2,
     2, 2, 2, 2, 2, 2, 2, 2, 2, 2, 2, 2, 2, 2, 2, 2, 2, 2, 2, 2, 2, 2, 2, 2, 2, 2, 2, 2, 2, 2, 2, 2,
     2, 2, 2, 2, 2, 1, 2, 3, 4, 5, 6, 7, 8, 9, 10, 11, 12, 13, 14, 15, 16, 17, 18, 19]"

definition vc_yyr1 :: "int list" where
  "vc_yyr1 =
    [0, 29, 30, 30, 31, 31, 32, 32, 33, 33, 34, 34, 34, 34, 34, 34, 34, 34, 35, 36, 36, 36, 36, 36,
     36, 36, 36, 36, 36, 37, 37, 38, 38, 39, 40, 40, 41, 41, 42, 43, 44, 44, 45, 46, 47, 47, 48, 49,
     49]"

definition vc_yyr2 :: "nat list" where
  "vc_yyr2 =
    [0, 1, 1, 2, 6, 1, 1, 0, 1, 3, 1, 1, 1, 1, 1, 1, 1, 1, 3, 3, 3, 3, 3, 2, 3, 1, 1, 4, 1, 0, 1, 1,
     3, 2, 1, 3, 1, 1, 2, 1, 5, 7, 5, 4, 0, 2, 2, 1, 2]"

definition vc_yydefact :: "int list" where
  "vc_yydefact =
    [0, 5, 0, 0, 2, 0, 3, 7, 8, 0, 6, 0, 0, 17, 0, 0, 0, 39, 0, 0, 44, 4, 10, 12, 11, 13, 14, 15,
     16, 9, 0, 28, 26, 25, 37, 0, 0, 36, 33, 34, 38, 0, 0, 0, 18, 0, 23, 0, 0, 0, 0, 0, 0, 0, 0, 0,
     47, 45, 0, 31, 0, 30, 24, 19, 20, 21, 22, 35, 0, 0, 46, 43, 48, 0, 27, 0, 40, 42, 32, 0, 41, 0,
     0, 0]"

definition vc_yydefgoto :: "int list" where
  "vc_yydefgoto =
    [81, 3, 4, 9, 10, 21, 22, 37, 60, 61, 23, 38, 39, 24, 25, 26, 27, 28, 43, 57, 58]"

definition vc_yypact :: "int list" where
  "vc_yypact =
    [46, - 32768, 1, 40, - 32768, 13, - 32768, 4, - 32768, 23, 26, 54, 22, - 32768, 55, 72, 66,
     - 32768, 66, 66, - 32768, - 32768, - 32768, - 32768, - 32768, - 32768, - 32768, - 32768,
     - 32768, - 32768, 66, - 32768, 42, - 32768, - 32768, 66, 66, 87, 33, - 32768, 87, 77, 2, 35,
     87, 50, - 32768, 81, 66, 66, 66, 66, 72, 54, 54, 4, - 32768, - 32768, 0, 62, 43, - 32768,
     - 32768, - 10, - 10, - 32768, - 32768, - 32768, 17, 60, 26, - 32768, - 32768, 66, - 32768, 54,
     - 32768, - 32768, - 32768, 65, - 32768, 86, 91, - 32768]"

definition vc_yypgoto :: "int list" where
  "vc_yypgoto =
    [- 32768, - 32768, 89, - 32768, 39, - 37, - 32768, - 16, - 32768, 32, - 32768, - 32768, 59,
     - 32768, - 32768, - 32768, - 32768, - 32768, - 32768, - 32768, - 32768]"

definition vc_yytable :: "int list" where
  "vc_yytable =
    [40, 13, 41, 42, 14, 5, 56, 15, 8, 16, 17, 18, 50, 51, 44, 19, 68, 69, 54, 46, 47, 72, 48, 49,
     50, 51, 29, 20, 71, 59, 75, 76, 63, 64, 65, 66, 13, 7, 79, 14, - 1, 1, 15, 2, 16, 17, 18, 1,
     11, 2, 19, 31, 12, 55, 32, 13, 33, 59, 14, 52, 30, 15, 20, 16, 17, 18, 45, 31, 74, 19, 32, 35,
     33, 31, 36, - 29, 32, 77, 33, 80, 34, 20, 48, 49, 50, 51, 82, 35, 73, 53, 36, 83, 6, 35, 70, 0,
     36, 48, 49, 50, 51, 48, 49, 50, 51, 78, 62, 48, 49, 50, 51, 67]"

definition vc_yycheck :: "int list" where
  "vc_yycheck =
    [16, 1, 18, 19, 4, 4, 43, 7, 4, 9, 10, 11, 22, 23, 30, 15, 53, 54, 16, 35, 36, 58, 20, 21, 22,
     23, 4, 27, 28, 45, 13, 14, 48, 49, 50, 51, 1, 24, 75, 4, 0, 1, 7, 3, 9, 10, 11, 1, 25, 3, 15,
     1, 26, 18, 4, 1, 6, 73, 4, 26, 5, 7, 27, 9, 10, 11, 24, 1, 25, 15, 4, 21, 6, 1, 24, 25, 4, 17,
     6, 14, 8, 27, 20, 21, 22, 23, 0, 21, 26, 12, 24, 0, 3, 21, 55, - 1, 24, 20, 21, 22, 23, 20, 21,
     22, 23, 73, 25, 20, 21, 22, 23, 52]"

definition vc_yyprhs :: "int list" where
  "vc_yyprhs =
    [0, 0, 2, 4, 7, 14, 16, 18, 19, 21, 25, 27, 29, 31, 33, 35, 37, 39, 41, 45, 49, 53, 57, 61, 64,
     68, 70, 72, 77, 79, 80, 82, 84, 88, 91, 93, 97, 99, 101, 104, 106, 112, 120, 126, 131, 132,
     135, 138, 140]"

definition vc_yyrhs :: "int list" where
  "vc_yyrhs =
    [30, 0, 31, 0, 30, 31, 0, 3, 4, 24, 32, 25, 34, 0, 1, 0, 33, 0, 0, 4, 0, 33, 26, 4, 0, 35, 0,
     42, 0, 39, 0, 43, 0, 44, 0, 45, 0, 46, 0, 1, 0, 4, 5, 36, 0, 36, 20, 36, 0, 36, 21, 36, 0, 36,
     22, 36, 0, 36, 23, 36, 0, 21, 36, 0, 24, 36, 25, 0, 6, 0, 4, 0, 4, 24, 37, 25, 0, 1, 0, 0, 38,
     0, 36, 0, 36, 26, 38, 0, 7, 40, 0, 41, 0, 40, 26, 41, 0, 36, 0, 8, 0, 9, 36, 0, 10, 0, 11, 36,
     12, 34, 14, 0, 11, 36, 12, 34, 13, 34, 14, 0, 15, 36, 16, 34, 17, 0, 27, 47, 49, 28, 0, 0, 47,
     48, 0, 18, 33, 0, 34, 0, 49, 34, 0]"

text \<open>
  The certificate of the tables: for every state the states below it, its symbol, the weights.
\<close>

definition vc_certificate :: certificate where
  "vc_certificate =
    [([], 0, 0, 0), ([0, 3], 1, 3, 3), ([0, 3], 3, 2, 0), ([0], 30, 1, 1), ([0], 31, 2, 2),
     ([2], 4, 2, 0), ([3], 31, 1, 1), ([5], 24, 2, 2), ([7, 55], 4, 2, 2), ([7], 32, 0, 0),
     ([7], 33, 1, 1), ([9], 25, 2, 0), ([10, 70], 26, 1, 0), ([11, 43, 53, 54, 58, 75], 1, 2, 2),
     ([11, 43, 53, 54, 58, 75], 4, 2, 0), ([11, 43, 53, 54, 58, 75], 7, 5, 0),
     ([11, 43, 53, 54, 58, 75], 9, 2, 0), ([11, 43, 53, 54, 58, 75], 10, 3, 3),
     ([11, 43, 53, 54, 58, 75], 11, 2, 0), ([11, 43, 53, 54, 58, 75], 15, 1, 0),
     ([11, 43, 53, 54, 58, 75], 27, 2, 2), ([11], 34, 0, 0), ([11, 43, 53, 54, 58, 75], 35, 2, 2),
     ([11, 43, 53, 54, 58, 75], 39, 2, 2), ([11, 43, 53, 54, 58, 75], 42, 2, 2),
     ([11, 43, 53, 54, 58, 75], 43, 2, 2), ([11, 43, 53, 54, 58, 75], 44, 2, 2),
     ([11, 43, 53, 54, 58, 75], 45, 2, 2), ([11, 43, 53, 54, 58, 75], 46, 2, 2), ([12], 4, 1, 1),
     ([14], 5, 2, 0), ([15, 16, 18, 19, 30, 35, 36, 45, 48, 49, 50, 51, 52, 73], 1, 3, 3),
     ([15, 16, 18, 19, 30, 35, 36, 45, 48, 49, 50, 51, 52, 73], 4, 3, 2),
     ([15, 16, 18, 19, 30, 35, 36, 45, 48, 49, 50, 51, 52, 73], 6, 3, 3), ([15, 52], 8, 3, 3),
     ([15, 16, 18, 19, 30, 35, 36, 45, 48, 49, 50, 51, 52, 73], 21, 3, 0),
     ([15, 16, 18, 19, 30, 35, 36, 45, 48, 49, 50, 51, 52, 73], 24, 2, 0), ([15, 52], 36, 3, 1),
     ([15], 40, 0, 0), ([15], 41, 1, 1), ([16], 36, 2, 1), ([18], 36, 2, 0), ([19], 36, 1, 0),
     ([20], 47, 1, 0), ([30], 36, 2, 1), ([32], 24, 1, 1), ([35], 36, 1, 1), ([36], 36, 2, 0),
     ([37, 40, 41, 42, 44, 47, 59], 20, 2, 0), ([37, 40, 41, 42, 44, 47, 59], 21, 3, 0),
     ([37, 40, 41, 42, 44, 47, 59, 63, 64], 22, 2, 0),
     ([37, 40, 41, 42, 44, 47, 59, 63, 64], 23, 2, 0), ([38], 26, 2, 0), ([41], 12, 2, 0),
     ([42], 16, 1, 0), ([43], 18, 2, 0), ([43], 34, 1, 1), ([43], 48, 1, 1), ([43], 49, 0, 0),
     ([45, 73], 36, 2, 1), ([45], 37, 0, 0), ([45], 38, 1, 1), ([47], 25, 2, 2), ([48], 36, 2, 1),
     ([49], 36, 1, 1), ([50], 36, 1, 1), ([51], 36, 1, 1), ([52], 41, 0, 0), ([53], 34, 1, 0),
     ([54], 34, 0, 0), ([55], 33, 2, 1), ([58], 28, 2, 2), ([58], 34, 1, 1), ([59], 26, 1, 0),
     ([60], 25, 1, 1), ([68], 13, 1, 0), ([68], 14, 1, 1), ([69], 17, 1, 1), ([73], 38, 0, 0),
     ([75], 34, 0, 0), ([79], 14, 1, 1), ([0], 29, 0, 1), ([81], 0, 0, 0)]"

text \<open>One rewrite rule for each entry.\<close>

lemmas vc_yyr1_at = map_at [OF vc_yyr1_def, simplified]
lemmas vc_yyr2_at = map_at [OF vc_yyr2_def, simplified]
lemmas vc_yydefact_at = map_at [OF vc_yydefact_def, simplified]
lemmas vc_yydefgoto_at = map_at [OF vc_yydefgoto_def, simplified]
lemmas vc_yypact_at = map_at [OF vc_yypact_def, simplified]
lemmas vc_yypgoto_at = map_at [OF vc_yypgoto_def, simplified]
lemmas vc_yytable_at = map_at [OF vc_yytable_def, simplified]
lemmas vc_yycheck_at = map_at [OF vc_yycheck_def, simplified]
lemmas vc_yyprhs_at = map_at [OF vc_yyprhs_def, simplified]
lemmas vc_yyrhs_at = map_at [OF vc_yyrhs_def, simplified]
lemmas vc_certificate_at = map_at [OF vc_certificate_def, simplified]

lemmas vc_at =
  vc_yyr1_at
  vc_yyr2_at
  vc_yydefact_at
  vc_yydefgoto_at
  vc_yypact_at
  vc_yypgoto_at
  vc_yytable_at
  vc_yycheck_at
  vc_yyprhs_at
  vc_yyrhs_at
  vc_certificate_at

lemma vc_certificate_length: "length vc_certificate = 83"
  by (simp add: vc_certificate_def)

end
