(* ===== verification/VC_Data.thy ===== *)
theory VC_Data
  imports Prelude
begin

text \<open>
  The data of the VSL compiler and the routines of \<open>main.c\<close> and of the scanner's support code that
  keep it (\<open>csibe/src/compiler/vc.h\<close>, \<open>main.c\<close>, \<open>scanner.c\<close>): symbols, three address code and
  expression nodes live in stores that grow as \<open>malloc\<close> hands out nodes, a pointer being an index,
  and the symbol table is a hash table of chains through the symbols. A routine that would follow
  a bad pointer, or read the wrong member of a union, has no result.
\<close>

section \<open>Data\<close>

definition HASHSIZE :: nat where "HASHSIZE = 997"
definition CONST_MAX :: nat where "CONST_MAX = 5"
definition LAB_MIN :: u32 where "LAB_MIN = 10"
definition LIB_PRINTN :: nat where "LIB_PRINTN = 0"
definition LIB_PRINTS :: nat where "LIB_PRINTS = 1"

datatype symtype = T_UNDEF | T_VAR | T_FUNC | T_TEXT | T_INT | T_LABEL

datatype tacop =
    TAC_UNDEF | TAC_ADD | TAC_SUB | TAC_MUL | TAC_DIV | TAC_NEG | TAC_COPY
  | TAC_GOTO | TAC_IFZ | TAC_IFNZ | TAC_ARG | TAC_CALL | TAC_RETURN
  | TAC_LABEL | TAC_VAR | TAC_BEGINFUNC | TAC_ENDFUNC

text \<open>The two unions of a symbol: the member last written is the one that may be read.\<close>

datatype union1 = IntV u32 | TextV string
datatype union2 = ValV u32 | LabV "nat option"

record symb =
  s_next :: "nat option"
  s_type :: symtype
  s_val1 :: union1
  s_val2 :: union2

text \<open>An operand of three address code: the null pointer, a symbol or another instruction.\<close>

datatype arg = Null | Var nat | Lab nat

record tac =
  t_next :: "nat option"
  t_prev :: "nat option"
  t_op :: tacop
  t_a :: arg
  t_b :: arg
  t_c :: arg

record enode =
  e_next :: "nat option"
  e_tac :: "nat option"
  e_res :: "nat option"

text \<open>
  The globals of the compiler and its two output streams. \<open>malloc_symb\<close> is what a fresh symbol
  contains before any field is set.
\<close>

record vc =
  symbs :: "symb list"
  tacs :: "tac list"
  enodes :: "enode list"
  symbtab :: "nat option list"
  library :: "nat list"
  next_tmp :: u32
  next_label :: u32
  const_tab :: "nat list"
  errors_found :: bool
  symb_list :: "nat option"
  enode_list :: "nat option"
  yylval :: "nat option"
  malloc_symb :: symb
  program_tac :: "nat option"
  err_text :: string

definition eol :: string where "eol = [CHR 0x0A]"

definition symb_at :: "nat \<Rightarrow> 'a vc_scheme \<Rightarrow> symb option" where
  "symb_at p s = (if p < length (symbs s) then Some (symbs s ! p) else None)"

definition set_symb :: "nat \<Rightarrow> symb \<Rightarrow> 'a vc_scheme \<Rightarrow> 'a vc_scheme" where
  "set_symb p x s = s\<lparr>symbs := (symbs s)[p := x]\<rparr>"

definition tac_at :: "nat \<Rightarrow> 'a vc_scheme \<Rightarrow> tac option" where
  "tac_at p s = (if p < length (tacs s) then Some (tacs s ! p) else None)"

definition set_tac :: "nat \<Rightarrow> tac \<Rightarrow> 'a vc_scheme \<Rightarrow> 'a vc_scheme" where
  "set_tac p x s = s\<lparr>tacs := (tacs s)[p := x]\<rparr>"

definition enode_at :: "nat \<Rightarrow> 'a vc_scheme \<Rightarrow> enode option" where
  "enode_at p s = (if p < length (enodes s) then Some (enodes s ! p) else None)"

definition set_enode :: "nat \<Rightarrow> enode \<Rightarrow> 'a vc_scheme \<Rightarrow> 'a vc_scheme" where
  "set_enode p x s = s\<lparr>enodes := (enodes s)[p := x]\<rparr>"

text \<open>The selectors \<open>VAL1\<close>, \<open>TEXT1\<close>, \<open>ADDR2\<close> (also \<open>VAL2\<close>) and \<open>LABEL2\<close>.\<close>

fun VAL1 :: "symb \<Rightarrow> u32 option" where
  "VAL1 x = (case s_val1 x of IntV n \<Rightarrow> Some n | _ \<Rightarrow> None)"

fun TEXT1 :: "symb \<Rightarrow> string option" where
  "TEXT1 x = (case s_val1 x of TextV t \<Rightarrow> Some t | _ \<Rightarrow> None)"

fun ADDR2 :: "symb \<Rightarrow> u32 option" where
  "ADDR2 x = (case s_val2 x of ValV n \<Rightarrow> Some n | _ \<Rightarrow> None)"

fun LABEL2 :: "symb \<Rightarrow> nat option option" where
  "LABEL2 x = (case s_val2 x of LabV l \<Rightarrow> Some l | _ \<Rightarrow> None)"

definition error :: "string \<Rightarrow> 'a vc_scheme \<Rightarrow> 'a vc_scheme" where
  "error str s = s\<lparr>err_text := err_text s @ ''vc: '' @ str @ eol, errors_found := True\<rparr>"

section \<open>Allocation\<close>

definition get_symb :: "'a vc_scheme \<Rightarrow> (nat \<times> 'a vc_scheme) option" where
  "get_symb s =
     (case symb_list s of
        Some t \<Rightarrow> do { x \<leftarrow> symb_at t s; Some (t, s\<lparr>symb_list := s_next x\<rparr>) }
      | None \<Rightarrow> Some (length (symbs s), s\<lparr>symbs := symbs s @ [malloc_symb s]\<rparr>))"

definition free_symb :: "nat \<Rightarrow> 'a vc_scheme \<Rightarrow> 'a vc_scheme option" where
  "free_symb p s = do {
     x \<leftarrow> symb_at p s;
     Some ((set_symb p (x\<lparr>s_next := symb_list s\<rparr>) s)\<lparr>symb_list := Some p\<rparr>)
   }"

definition get_enode :: "'a vc_scheme \<Rightarrow> (nat \<times> 'a vc_scheme) option" where
  "get_enode s =
     (case enode_list s of
        Some e \<Rightarrow> do { x \<leftarrow> enode_at e s; Some (e, s\<lparr>enode_list := e_next x\<rparr>) }
      | None \<Rightarrow> Some (length (enodes s),
                 s\<lparr>enodes := enodes s @ [\<lparr>e_next = None, e_tac = None, e_res = None\<rparr>]\<rparr>))"

definition free_enode :: "nat \<Rightarrow> 'a vc_scheme \<Rightarrow> 'a vc_scheme option" where
  "free_enode p s = do {
     x \<leftarrow> enode_at p s;
     Some ((set_enode p (x\<lparr>e_next := enode_list s\<rparr>) s)\<lparr>enode_list := Some p\<rparr>)
   }"

definition mkconst :: "u32 \<Rightarrow> 'a vc_scheme \<Rightarrow> (nat \<times> 'a vc_scheme) option" where
  "mkconst n s =
     (if 0 \<le> sint n \<and> sint n < int CONST_MAX then Some (const_tab s ! unat n, s)
      else do {
        (c, s) \<leftarrow> get_symb s;
        x \<leftarrow> symb_at c s;
        Some (c, set_symb c (x\<lparr>s_type := T_INT, s_val1 := IntV n\<rparr>) s)
      })"

definition mklabel :: "u32 \<Rightarrow> 'a vc_scheme \<Rightarrow> (nat \<times> 'a vc_scheme) option" where
  "mklabel l s = do {
     (t, s) \<leftarrow> get_symb s;
     x \<leftarrow> symb_at t s;
     Some (t, set_symb t (x\<lparr>s_type := T_LABEL, s_val1 := IntV l\<rparr>) s)
   }"

definition mktac :: "tacop \<Rightarrow> arg \<Rightarrow> arg \<Rightarrow> arg \<Rightarrow> 'a vc_scheme \<Rightarrow> nat \<times> 'a vc_scheme" where
  "mktac op a b c s =
     (length (tacs s),
      s\<lparr>tacs := tacs s @ [\<lparr>t_next = None, t_prev = None, t_op = op, t_a = a, t_b = b, t_c = c\<rparr>]\<rparr>)"

text \<open>Running down a list of instructions to its first; the result is that one's address.\<close>

partial_function (option) first_tac :: "nat \<Rightarrow> tac list \<Rightarrow> nat option" where
  "first_tac t h =
     (if t < length h
      then (case t_prev (h ! t) of None \<Rightarrow> Some t | Some p \<Rightarrow> first_tac p h)
      else None)"

definition join_tac :: "nat option \<Rightarrow> nat option \<Rightarrow> 'a vc_scheme \<Rightarrow> (nat option \<times> 'a vc_scheme) option" where
  "join_tac c1 c2 s =
     (case c1 of
        None \<Rightarrow> Some (c2, s)
      | Some p1 \<Rightarrow>
          (case c2 of
             None \<Rightarrow> Some (c1, s)
           | Some p2 \<Rightarrow> do {
               t \<leftarrow> first_tac p2 (tacs s);
               x \<leftarrow> tac_at t s;
               Some (c2, set_tac t (x\<lparr>t_prev := c1\<rparr>) s)
             }))"

section \<open>The symbol table\<close>

text \<open>\<open>hv >> 28\<close> shifts a signed number; the low four bits of the character come in at the bottom.\<close>

definition hash_step :: "u32 \<Rightarrow> char \<Rightarrow> u32" where
  "hash_step hv c =
     (let v = signed_drop_bit 28 hv XOR (of_char c AND 0xf)
      in push_bit 4 hv OR v)"

definition hash :: "string \<Rightarrow> nat" where
  "hash str = unat ((foldl hash_step 0 str AND 0x7fffffff) mod of_nat HASHSIZE)"

definition insert_symb :: "nat \<Rightarrow> 'a vc_scheme \<Rightarrow> 'a vc_scheme option" where
  "insert_symb p s = do {
     x \<leftarrow> symb_at p s;
     t \<leftarrow> TEXT1 x;
     (let hv = hash t;
          s = set_symb p (x\<lparr>s_next := symbtab s ! hv\<rparr>) s
      in Some (s\<lparr>symbtab := (symbtab s)[hv := Some p]\<rparr>))
   }"

partial_function (option) find_name :: "string \<Rightarrow> nat option \<Rightarrow> symb list \<Rightarrow> nat option option" where
  "find_name str t h =
     (case t of
        None \<Rightarrow> Some None
      | Some p \<Rightarrow>
          if p < length h
          then (case TEXT1 (h ! p) of
                  None \<Rightarrow> None
                | Some txt \<Rightarrow> if txt = str then Some (Some p) else find_name str (s_next (h ! p)) h)
          else None)"

definition lookup_symb :: "string \<Rightarrow> 'a vc_scheme \<Rightarrow> nat option option" where
  "lookup_symb str s = find_name str (symbtab s ! hash str) (symbs s)"

declare first_tac.simps [code] find_name.simps [code]

section \<open>Names, numbers and texts\<close>

definition mkname :: "string \<Rightarrow> 'a vc_scheme \<Rightarrow> 'a vc_scheme option" where
  "mkname name s = do {
     found \<leftarrow> lookup_symb name s;
     (case found of
        Some t \<Rightarrow> Some (s\<lparr>yylval := Some t\<rparr>)
      | None \<Rightarrow> do {
          (t, s) \<leftarrow> get_symb s;
          x \<leftarrow> symb_at t s;
          s \<leftarrow> insert_symb t (set_symb t (x\<lparr>s_type := T_UNDEF, s_val1 := TextV name\<rparr>) s);
          Some (s\<lparr>yylval := Some t\<rparr>)
        })
   }"

definition mktmp :: "'a vc_scheme \<Rightarrow> (nat \<times> 'a vc_scheme) option" where
  "mktmp s = do {
     let old_yylval = yylval s;
     s' \<leftarrow> mkname (CHR ''T'' # show_d (next_tmp s)) (s\<lparr>next_tmp := next_tmp s + 1\<rparr>);
     t \<leftarrow> yylval s';
     x \<leftarrow> symb_at t s';
     Some (t, (set_symb t (x\<lparr>s_type := T_VAR\<rparr>) s')\<lparr>yylval := old_yylval\<rparr>)
   }"

text \<open>\<open>atoi\<close> of a digit string.\<close>

definition digits_value :: "string \<Rightarrow> u32" where
  "digits_value str = foldl (\<lambda>n c. n * 10 + (of_char c - 48)) 0 str"

definition mkval :: "string \<Rightarrow> 'a vc_scheme \<Rightarrow> 'a vc_scheme option" where
  "mkval yytext s = do {
     (c, s) \<leftarrow> mkconst (digits_value yytext) s;
     Some (s\<lparr>yylval := Some c\<rparr>)
   }"

definition mktext :: "string \<Rightarrow> 'a vc_scheme \<Rightarrow> 'a vc_scheme option" where
  "mktext yytext s = do {
     s \<leftarrow> mkname yytext s;
     t \<leftarrow> yylval s;
     x \<leftarrow> symb_at t s;
     Some (set_symb t (x\<lparr>s_type := T_TEXT, s_val2 := ValV (next_label s)\<rparr>) s
       \<lparr>next_label := next_label s + 1\<rparr>)
   }"

section \<open>Starting up\<close>

definition vc_decode_args :: "string \<Rightarrow> string list \<Rightarrow> string + string option" where
  "vc_decode_args heap argv =
     (if length argv \<noteq> 2 then Inl (''vc: single argument expected'' @ eol @ eol)
      else
        let rootlen = int (length (argv ! 1)) - 4 in
        if rootlen < 1 \<or> drop (nat rootlen) (argv ! 1) \<noteq> ''.vsl''
        then Inl ''source file must end in \".vsl\"''
        else
          let block = take (nat rootlen) (argv ! 1) @ drop (nat rootlen) (take (nat rootlen + 5) heap);
              str = takeWhile (\<lambda>c. c \<noteq> CHR 0x00) block
          in if length str + 5 \<le> nat rootlen + 5 then Inr (Some (str @ ''.vas'')) else Inr None)"

fun make_consts :: "nat list \<Rightarrow> 'a vc_scheme \<Rightarrow> 'a vc_scheme option" where
  "make_consts [] s = Some s"
| "make_consts (i # is) s = do {
     (c, s) \<leftarrow> get_symb s;
     x \<leftarrow> symb_at c s;
     (let s = set_symb c (x\<lparr>s_type := T_INT, s_val1 := IntV (of_nat i)\<rparr>) s
      in make_consts is (s\<lparr>const_tab := (const_tab s)[i := c]\<rparr>))
   }"

definition init_vc :: "'a vc_scheme \<Rightarrow> 'a vc_scheme option" where
  "init_vc s = do {
     s \<leftarrow> make_consts [0..<CONST_MAX]
       (s\<lparr>symb_list := None, enode_list := None, errors_found := False, next_tmp := 0,
         next_label := LAB_MIN, symbtab := replicate HASHSIZE None\<rparr>);
     (l, s) \<leftarrow> mklabel 2 s;
     (let (t, s) = mktac TAC_LABEL (Var l) Null Null s;
          s = s\<lparr>library := (library s)[LIB_PRINTN := t]\<rparr>
      in do {
        (l, s) \<leftarrow> mklabel 4 s;
        (let (t, s) = mktac TAC_LABEL (Var l) Null Null s
         in Some (s\<lparr>library := (library s)[LIB_PRINTS := t]\<rparr>))
      })
   }"

section \<open>Printing three address code\<close>

definition ts :: "arg \<Rightarrow> 'a vc_scheme \<Rightarrow> (string \<times> 'a vc_scheme) option" where
  "ts a s =
     (case a of
        Null \<Rightarrow> Some (''NULL'', s)
      | Lab _ \<Rightarrow> None
      | Var p \<Rightarrow> do {
          x \<leftarrow> symb_at p s;
          (case s_type x of
             T_FUNC \<Rightarrow> do { t \<leftarrow> TEXT1 x; Some (t, s) }
           | T_VAR \<Rightarrow> do { t \<leftarrow> TEXT1 x; Some (t, s) }
           | T_TEXT \<Rightarrow> do { n \<leftarrow> ADDR2 x; Some (CHR ''L'' # show_d n, s) }
           | T_INT \<Rightarrow> do { n \<leftarrow> VAL1 x; Some (show_d n, s) }
           | _ \<Rightarrow> Some (''?'', error ''unknown TAC arg type'' s))
        })"

text \<open>\<open>x->VA->VAL1\<close> for an operand that points to a label instruction.\<close>

definition label_number :: "arg \<Rightarrow> 'a vc_scheme \<Rightarrow> u32 option" where
  "label_number l s =
     (case l of
        Lab p \<Rightarrow> do {
          t \<leftarrow> tac_at p s;
          (case t_a t of Var v \<Rightarrow> do { x \<leftarrow> symb_at v s; VAL1 x } | _ \<Rightarrow> None)
        }
      | _ \<Rightarrow> None)"

definition print_binary :: "string \<Rightarrow> tac \<Rightarrow> 'a vc_scheme \<Rightarrow> (string \<times> 'a vc_scheme) option" where
  "print_binary sign i s = do {
     (a, s) \<leftarrow> ts (t_a i) s;
     (b, s) \<leftarrow> ts (t_b i) s;
     (c, s) \<leftarrow> ts (t_c i) s;
     Some (a @ '' := '' @ b @ sign @ c @ eol, s)
   }"

definition print_instr :: "tac \<Rightarrow> 'a vc_scheme \<Rightarrow> (string \<times> 'a vc_scheme) option" where
  "print_instr i s = map_option (\<lambda>(t, s). (''       '' @ t, s))
     (case t_op i of
        TAC_UNDEF \<Rightarrow> Some (''undef'' @ eol, s)
      | TAC_ADD \<Rightarrow> print_binary '' + '' i s
      | TAC_SUB \<Rightarrow> print_binary '' - '' i s
      | TAC_MUL \<Rightarrow> print_binary '' * '' i s
      | TAC_DIV \<Rightarrow> print_binary '' / '' i s
      | TAC_NEG \<Rightarrow> do {
          (a, s) \<leftarrow> ts (t_a i) s;
          (b, s) \<leftarrow> ts (t_b i) s;
          Some (a @ '' := - '' @ b @ eol, s)
        }
      | TAC_COPY \<Rightarrow> do {
          (a, s) \<leftarrow> ts (t_a i) s;
          (b, s) \<leftarrow> ts (t_b i) s;
          Some (a @ '' := '' @ b @ eol, s)
        }
      | TAC_GOTO \<Rightarrow> do { l \<leftarrow> label_number (t_a i) s; Some (''goto L'' @ show_d l @ eol, s) }
      | TAC_IFZ \<Rightarrow> do {
          (b, s) \<leftarrow> ts (t_b i) s;
          l \<leftarrow> label_number (t_a i) s;
          Some (''ifz '' @ b @ '' goto L'' @ show_d l @ eol, s)
        }
      | TAC_IFNZ \<Rightarrow> do {
          (b, s) \<leftarrow> ts (t_b i) s;
          l \<leftarrow> label_number (t_a i) s;
          Some (''ifnz '' @ b @ '' goto L'' @ show_d l @ eol, s)
        }
      | TAC_ARG \<Rightarrow> do { (a, s) \<leftarrow> ts (t_a i) s; Some (''arg '' @ a @ eol, s) }
      | TAC_CALL \<Rightarrow>
          (if t_a i = Null
           then do { l \<leftarrow> label_number (t_b i) s; Some (''call L'' @ show_d l @ eol, s) }
           else do {
             (a, s) \<leftarrow> ts (t_a i) s;
             l \<leftarrow> label_number (t_b i) s;
             Some (a @ '' = call L'' @ show_d l @ eol, s)
           })
      | TAC_RETURN \<Rightarrow> do { (a, s) \<leftarrow> ts (t_a i) s; Some (''return '' @ a @ eol, s) }
      | TAC_LABEL \<Rightarrow>
          (case t_a i of
             Var v \<Rightarrow> do { x \<leftarrow> symb_at v s; n \<leftarrow> VAL1 x; Some (''label L'' @ show_d n @ eol, s) }
           | _ \<Rightarrow> None)
      | TAC_VAR \<Rightarrow> do { (a, s) \<leftarrow> ts (t_a i) s; Some (''var '' @ a @ eol, s) }
      | TAC_BEGINFUNC \<Rightarrow> Some (''beginfunc'' @ eol, s)
      | TAC_ENDFUNC \<Rightarrow> Some (''endfunc'' @ eol, s))"

section \<open>The symbol table as an interface\<close>

text \<open>
  What the scanner and parser rely on: looking up ends; entering a name keeps the table, records
  its symbol, and moves no symbol another name has; no two names share a symbol.
\<close>

locale symbol_table =
  fixes inv :: "'s \<Rightarrow> bool"
    and look :: "string \<Rightarrow> 's \<Rightarrow> nat option option"
    and enter :: "string \<Rightarrow> 's \<Rightarrow> 's option"
    and found :: "'s \<Rightarrow> nat option"
  assumes enter_ok: "inv s \<Longrightarrow>
      \<exists>s' p. enter n s = Some s' \<and> inv s' \<and> found s' = Some p \<and> look n s' = Some (Some p)"
    and enter_keeps: "inv s \<Longrightarrow> enter n s = Some s' \<Longrightarrow> look m s = Some (Some p) \<Longrightarrow>
      look m s' = Some (Some p)"
    and look_inj: "inv s \<Longrightarrow> look m s = Some (Some p) \<Longrightarrow> look n s = Some (Some p) \<Longrightarrow> m = n"
begin

fun enter_all :: "string list \<Rightarrow> 's \<Rightarrow> (nat list \<times> 's) option" where
  "enter_all [] s = Some ([], s)"
| "enter_all (n # ns) s = do {
     s \<leftarrow> enter n s;
     p \<leftarrow> found s;
     (ps, s) \<leftarrow> enter_all ns s;
     Some (p # ps, s)
   }"

lemma enter_all_ok:
  "inv s \<Longrightarrow> \<exists>ps s'. enter_all ns s = Some (ps, s') \<and> inv s' \<and>
     list_all2 (\<lambda>n p. look n s' = Some (Some p)) ns ps \<and>
     (\<forall>m q. look m s = Some (Some q) \<longrightarrow> look m s' = Some (Some q))"
proof (induction ns arbitrary: s)
  case (Cons n ns)
  obtain s1 p where s1: "enter n s = Some s1" "inv s1" "found s1 = Some p" "look n s1 = Some (Some p)"
    using enter_ok [OF Cons.prems] by blast
  obtain ps s2 where s2: "enter_all ns s1 = Some (ps, s2)" "inv s2"
    "list_all2 (\<lambda>n p. look n s2 = Some (Some p)) ns ps"
    "\<forall>m q. look m s1 = Some (Some q) \<longrightarrow> look m s2 = Some (Some q)"
    using Cons.IH [OF s1(2)] by blast
  show ?case
    using s1 s2 enter_keeps [OF Cons.prems s1(1)] by auto
qed simp

lemma names_are_symbols:
  assumes "inv s"
  shows "\<exists>ps s'. enter_all ns s = Some (ps, s') \<and> length ps = length ns \<and>
     (\<forall>i < length ns. \<forall>j < length ns. ps ! i = ps ! j \<longleftrightarrow> ns ! i = ns ! j)"
proof -
  obtain ps s' where a: "enter_all ns s = Some (ps, s')" "inv s'"
    "list_all2 (\<lambda>n p. look n s' = Some (Some p)) ns ps"
    using enter_all_ok [OF assms] by blast
  have "ps ! i = ps ! j \<longleftrightarrow> ns ! i = ns ! j" if "i < length ns" "j < length ns" for i j
  proof -
    have "look (ns ! i) s' = Some (Some (ps ! i))" "look (ns ! j) s' = Some (Some (ps ! j))"
      using a(3) that by (auto simp: list_all2_conv_all_nth)
    with look_inj [OF a(2)] show ?thesis by (metis option.inject)
  qed
  with a show ?thesis by (auto simp: list_all2_lengthD)
qed

end

section \<open>The hash table is a symbol table\<close>

lemma hash_bound: "hash str < HASHSIZE"
proof -
  let ?w = "foldl hash_step 0 str AND 0x7fffffff"
  have "?w mod of_nat HASHSIZE < of_nat HASHSIZE"
    by (rule word_mod_less_divisor) (simp add: HASHSIZE_def)
  then show ?thesis by (simp add: hash_def word_less_nat_alt HASHSIZE_def)
qed

fun symb_chain :: "symb list \<Rightarrow> nat option \<Rightarrow> nat list \<Rightarrow> bool" where
  "symb_chain h t [] = (t = None)"
| "symb_chain h t (p # ps) = (t = Some p \<and> p < length h \<and> symb_chain h (s_next (h ! p)) ps)"

definition named :: "string \<Rightarrow> symb \<Rightarrow> bool" where
  "named str x = (s_val1 x = TextV str)"

lemma find_name_chain:
  assumes "symb_chain h t ps" and "\<forall>p \<in> set ps. \<exists>n. named n (h ! p)"
  shows "find_name str t h = Some (List.find (\<lambda>p. named str (h ! p)) ps)"
  using assms
proof (induction h t ps rule: symb_chain.induct)
  case (2 h t p ps)
  then obtain n where "s_val1 (h ! p) = TextV n" by (auto simp: named_def)
  with 2 show ?case by (subst find_name.simps) (simp add: named_def)
qed (simp add: find_name.simps)

lemma symb_chain_bound: "symb_chain h t ps \<Longrightarrow> p \<in> set ps \<Longrightarrow> p < length h"
  by (induction h t ps rule: symb_chain.induct) auto

lemma symb_chain_cong:
  assumes "symb_chain h t ps" and "length h \<le> length h'" and "\<forall>p \<in> set ps. s_next (h' ! p) = s_next (h ! p)"
  shows "symb_chain h' t ps"
  using assms by (induction h t ps rule: symb_chain.induct) auto

definition bucket :: "'a vc_scheme \<Rightarrow> nat \<Rightarrow> nat list \<Rightarrow> bool" where
  "bucket s b ps \<longleftrightarrow> symb_chain (symbs s) (symbtab s ! b) ps \<and>
     (\<forall>p \<in> set ps. \<exists>n. named n (symbs s ! p) \<and> hash n = b)"

definition symtab_inv :: "'a vc_scheme \<Rightarrow> bool" where
  "symtab_inv s \<longleftrightarrow> length (symbtab s) = HASHSIZE \<and> symb_list s = None \<and>
     (\<forall>b < HASHSIZE. \<exists>ps. bucket s b ps)"

lemma lookup_bucket:
  assumes "bucket s (hash str) ps"
  shows "lookup_symb str s = Some (List.find (\<lambda>p. named str (symbs s ! p)) ps)"
  using assms unfolding bucket_def lookup_symb_def by (intro find_name_chain) auto

lemma find_eq_Some: "List.find P xs = Some x \<Longrightarrow> x \<in> set xs \<and> P x"
  by (induction xs) (auto split: if_splits)

lemma lookup_named:
  assumes "symtab_inv s" and "lookup_symb str s = Some (Some p)"
  shows "p < length (symbs s)" and "named str (symbs s ! p)"
proof -
  obtain ps where "bucket s (hash str) ps"
    using assms(1) hash_bound by (auto simp: symtab_inv_def)
  with assms(2) have "p \<in> set ps \<and> named str (symbs s ! p)"
    using lookup_bucket find_eq_Some by fastforce
  with \<open>bucket s (hash str) ps\<close> show "p < length (symbs s)" "named str (symbs s ! p)"
    by (auto simp: bucket_def intro: symb_chain_bound)
qed

text \<open>Entering a name that is not there: a new head for its bucket.\<close>

definition entered :: "string \<Rightarrow> 'a vc_scheme \<Rightarrow> 'a vc_scheme" where
  "entered str s =
     s\<lparr>symbs := symbs s @ [(malloc_symb s)\<lparr>s_type := T_UNDEF, s_val1 := TextV str,
                            s_next := symbtab s ! hash str\<rparr>],
       symbtab := (symbtab s)[hash str := Some (length (symbs s))],
       yylval := Some (length (symbs s))\<rparr>"

lemma mkname_new:
  assumes "symtab_inv s" and "lookup_symb str s = Some None"
  shows "mkname str s = Some (entered str s)"
proof -
  let ?n = "length (symbs s)"
  let ?x = "(malloc_symb s)\<lparr>s_type := T_UNDEF, s_val1 := TextV str\<rparr>"
  let ?s = "s\<lparr>symbs := symbs s @ [malloc_symb s]\<rparr>"
  have "get_symb s = Some (?n, ?s)"
    using assms(1) by (simp add: get_symb_def symtab_inv_def)
  moreover have "symb_at ?n ?s = Some (malloc_symb s)" by (simp add: symb_at_def)
  moreover have "set_symb ?n ?x ?s = s\<lparr>symbs := symbs s @ [?x]\<rparr>" by (simp add: set_symb_def)
  moreover have "insert_symb ?n (s\<lparr>symbs := symbs s @ [?x]\<rparr>) =
      Some (s\<lparr>symbs := symbs s @ [?x\<lparr>s_next := symbtab s ! hash str\<rparr>],
              symbtab := (symbtab s)[hash str := Some ?n]\<rparr>)"
    by (simp add: insert_symb_def symb_at_def set_symb_def Let_def)
  ultimately show ?thesis
    unfolding mkname_def entered_def assms(2) by (simp only: bind.simps option.case prod.case)
qed

lemma bucket_entered:
  assumes "symtab_inv s" and "bucket s b ps" and "b < HASHSIZE"
  shows "bucket (entered str s) b (if hash str = b then length (symbs s) # ps else ps)"
proof -
  let ?h = "symbs (entered str s)"
  have below: "p < length (symbs s)" if "p \<in> set ps" for p
    using assms(2) that by (auto simp: bucket_def intro: symb_chain_bound)
  then have old: "?h ! p = symbs s ! p" if "p \<in> set ps" for p
    using that by (simp add: entered_def nth_append)
  have chain: "symb_chain (symbs s) (symbtab s ! b) ps" using assms(2) by (simp add: bucket_def)
  have new: "symb_chain ?h (symbtab s ! b) ps"
  proof (rule symb_chain_cong [OF chain])
    show "length (symbs s) \<le> length ?h" by (simp add: entered_def)
    show "\<forall>p \<in> set ps. s_next (?h ! p) = s_next (symbs s ! p)" using old by simp
  qed
  have names: "\<forall>p \<in> set ps. \<exists>n. named n (?h ! p) \<and> hash n = b"
    using assms(2) old by (simp add: bucket_def)
  show ?thesis
  proof (cases "hash str = b")
    case True
    with new names assms(1,3) show ?thesis
      by (simp add: bucket_def symtab_inv_def) (simp add: entered_def named_def)
  next
    case False
    with new names show ?thesis by (simp add: bucket_def) (simp add: entered_def)
  qed
qed

lemma symtab_inv_entered:
  assumes "symtab_inv s"
  shows "symtab_inv (entered str s)"
proof -
  have "\<exists>ps. bucket (entered str s) b ps" if b: "b < HASHSIZE" for b
  proof -
    obtain ps where "bucket s b ps" using assms b by (auto simp: symtab_inv_def)
    from bucket_entered [OF assms this b] show ?thesis by blast
  qed
  with assms show ?thesis by (simp add: symtab_inv_def entered_def)
qed

lemma lookup_entered:
  assumes "symtab_inv s"
  shows "lookup_symb m (entered str s) =
     (if m = str then Some (Some (length (symbs s))) else lookup_symb m s)"
proof -
  obtain ps where ps: "bucket s (hash m) ps"
    using assms hash_bound by (auto simp: symtab_inv_def)
  have "List.find (\<lambda>p. named m (symbs (entered str s) ! p)) ps =
      List.find (\<lambda>p. named m (symbs s ! p)) ps"
    using ps by (intro find_cong)
      (auto simp: bucket_def entered_def nth_append dest: symb_chain_bound)
  then show ?thesis
    using lookup_bucket [OF bucket_entered [OF assms ps hash_bound, of str]] lookup_bucket [OF ps]
    by (auto simp: named_def entered_def)
qed

lemma lookup_ends:
  assumes "symtab_inv s"
  shows "\<exists>r. lookup_symb str s = Some r"
  using assms hash_bound [of str] lookup_bucket unfolding symtab_inv_def by blast

interpretation names: symbol_table symtab_inv lookup_symb mkname yylval
proof
  fix s :: "'a vc_scheme" and n
  assume inv: "symtab_inv s"
  obtain r where r: "lookup_symb n s = Some r" using lookup_ends [OF inv] by blast
  show "\<exists>s' p. mkname n s = Some s' \<and> symtab_inv s' \<and> yylval s' = Some p \<and>
      lookup_symb n s' = Some (Some p)"
  proof (cases r)
    case None
    with r inv show ?thesis
      by (simp add: mkname_new symtab_inv_entered lookup_entered) (simp add: entered_def)
  next
    case (Some t)
    with r inv show ?thesis
      by (auto simp: mkname_def symtab_inv_def bucket_def lookup_symb_def)
  qed
next
  fix s s' :: "'a vc_scheme" and n m p
  assume inv: "symtab_inv s" and enter: "mkname n s = Some s'" and m: "lookup_symb m s = Some (Some p)"
  obtain r where r: "lookup_symb n s = Some r" using lookup_ends [OF inv] by blast
  show "lookup_symb m s' = Some (Some p)"
  proof (cases r)
    case None
    with r inv enter m have "s' = entered n s" and "m \<noteq> n" by (auto simp: mkname_new)
    with inv m show ?thesis by (simp add: lookup_entered)
  next
    case (Some t)
    with r enter m show ?thesis by (auto simp: mkname_def lookup_symb_def)
  qed
next
  fix s :: "'a vc_scheme" and m n p
  assume "symtab_inv s" "lookup_symb m s = Some (Some p)" "lookup_symb n s = Some (Some p)"
  then have "named m (symbs s ! p)" "named n (symbs s ! p)" by (blast intro: lookup_named)+
  then show "m = n" by (simp add: named_def)
qed

text \<open>The symbols the scanner returns for a sequence of identifiers.\<close>

fun mknames :: "string list \<Rightarrow> 'a vc_scheme \<Rightarrow> (nat list \<times> 'a vc_scheme) option" where
  "mknames [] s = Some ([], s)"
| "mknames (n # ns) s = do {
     s \<leftarrow> mkname n s;
     p \<leftarrow> yylval s;
     (ps, s) \<leftarrow> mknames ns s;
     Some (p # ps, s)
   }"

lemma mknames_enter_all: "mknames ns s = names.enter_all ns s"
  by (induction ns arbitrary: s) simp_all

section \<open>The initial state\<close>

definition consts_ok :: "'a vc_scheme \<Rightarrow> bool" where
  "consts_ok s \<longleftrightarrow> length (const_tab s) = CONST_MAX \<and>
     (\<forall>i < CONST_MAX. const_tab s ! i < length (symbs s) \<and>
        s_type (symbs s ! (const_tab s ! i)) = T_INT \<and>
        s_val1 (symbs s ! (const_tab s ! i)) = IntV (of_nat i))"

lemma make_const_step:
  assumes "symb_list s = None"
  shows "make_consts (i # is) s = make_consts is (s\<lparr>
      symbs := symbs s @ [(malloc_symb s)\<lparr>s_type := T_INT, s_val1 := IntV (of_nat i)\<rparr>],
      const_tab := (const_tab s)[i := length (symbs s)]\<rparr>)"
  using assms by (simp add: get_symb_def symb_at_def set_symb_def)

lemma make_consts_ok:
  assumes "symb_list s = None" and "length (const_tab s) = CONST_MAX" and "n \<le> CONST_MAX"
    and "\<forall>i < n. const_tab s ! i < length (symbs s) \<and>
        s_type (symbs s ! (const_tab s ! i)) = T_INT \<and>
        s_val1 (symbs s ! (const_tab s ! i)) = IntV (of_nat i)"
  shows "\<exists>s'. make_consts [n..<CONST_MAX] s = Some s' \<and> consts_ok s' \<and> symb_list s' = None \<and>
     symbtab s' = symbtab s \<and> enode_list s' = enode_list s \<and> library s' = library s \<and> length (symbs s) \<le> length (symbs s')"
  using assms
proof (induction "CONST_MAX - n" arbitrary: n s)
  case 0
  then show ?case by (simp add: consts_ok_def)
next
  case (Suc d)
  then have n: "n < CONST_MAX" by simp
  let ?s = "s\<lparr>symbs := symbs s @ [(malloc_symb s)\<lparr>s_type := T_INT, s_val1 := IntV (of_nat n)\<rparr>],
      const_tab := (const_tab s)[n := length (symbs s)]\<rparr>"
  have "\<exists>s'. make_consts [Suc n..<CONST_MAX] ?s = Some s' \<and> consts_ok s' \<and> symb_list s' = None \<and>
     symbtab s' = symbtab ?s \<and> enode_list s' = enode_list ?s \<and> library s' = library ?s \<and> length (symbs ?s) \<le> length (symbs s')"
  proof (rule Suc.hyps(1))
    show "\<forall>i < Suc n. const_tab ?s ! i < length (symbs ?s) \<and>
        s_type (symbs ?s ! (const_tab ?s ! i)) = T_INT \<and>
        s_val1 (symbs ?s ! (const_tab ?s ! i)) = IntV (of_nat i)"
      using Suc.prems n by (auto simp: less_Suc_eq nth_append)
  qed (use Suc n in simp_all)
  then show ?case
    using n Suc.prems(1) by (simp add: upt_conv_Cons make_const_step del: make_consts.simps) (meson Suc_leD)
qed

definition blank_vc :: vc where
  "blank_vc = \<lparr>symbs = [], tacs = [], enodes = [], symbtab = [], library = [0, 0], next_tmp = 0,
     next_label = 0, const_tab = replicate CONST_MAX 0, errors_found = False, symb_list = None,
     enode_list = None, yylval = None,
     malloc_symb = \<lparr>s_next = None, s_type = T_UNDEF, s_val1 = IntV 0, s_val2 = LabV None\<rparr>,
     program_tac = None, err_text = []\<rparr>"

lemma empty_symtab_inv:
  assumes "symbtab s = replicate HASHSIZE None" and "symb_list s = None"
  shows "symtab_inv s"
proof -
  have "bucket s b []" if "b < HASHSIZE" for b using assms that by (simp add: bucket_def)
  with assms show ?thesis by (auto simp: symtab_inv_def)
qed

lemma mklabel_ok:
  assumes "symb_list s = None"
  shows "mklabel l s = Some (length (symbs s), s\<lparr>symbs := symbs s @
      [(malloc_symb s)\<lparr>s_type := T_LABEL, s_val1 := IntV l\<rparr>]\<rparr>)"
  using assms by (simp add: mklabel_def get_symb_def symb_at_def set_symb_def)

lemma consts_ok_grow:
  assumes "consts_ok s" and "const_tab s' = const_tab s" and "symbs s' = symbs s @ xs"
  shows "consts_ok s'"
  using assms by (auto simp: consts_ok_def nth_append intro: trans_less_add1)

lemma init_vc_ok:
  assumes "length (const_tab s) = CONST_MAX"
  shows "\<exists>s'. init_vc s = Some s' \<and> symtab_inv s' \<and> consts_ok s' \<and> enode_list s' = None"
proof -
  let ?s = "s\<lparr>symb_list := None, enode_list := None, errors_found := False, next_tmp := 0,
         next_label := LAB_MIN, symbtab := replicate HASHSIZE None\<rparr>"
  obtain s1 where s1: "make_consts [0..<CONST_MAX] ?s = Some s1" "consts_ok s1" "symb_list s1 = None"
    "symbtab s1 = replicate HASHSIZE None" "enode_list s1 = None"
    using make_consts_ok [of ?s 0] assms by auto
  obtain s2 where s2: "init_vc s = Some s2" "symb_list s2 = None"
    "symbtab s2 = replicate HASHSIZE None" "enode_list s2 = None" "const_tab s2 = const_tab s1" "\<exists>xs. symbs s2 = symbs s1 @ xs"
    using s1 by (simp add: init_vc_def mklabel_ok mktac_def)
  with s1(2) show ?thesis
    by (auto intro: empty_symtab_inv consts_ok_grow)
qed

text \<open>C15: The scanner gives every identifier its own symbol: entering a sequence of names in the symbol
  table always ends, and two of them get the same symbol exactly when they are the same name,
  whatever their hash values.\<close>

theorem names_have_own_symbols:
  assumes "symtab_inv s"
  shows "\<exists>ps s'. mknames ns s = Some (ps, s') \<and> length ps = length ns \<and>
     (\<forall>i < length ns. \<forall>j < length ns. ps ! i = ps ! j \<longleftrightarrow> ns ! i = ns ! j)"
  unfolding mknames_enter_all using assms by (rule names.names_are_symbols)

theorem names_have_own_symbols_witness:
  "\<exists>s ps s'. init_vc blank_vc = Some s \<and> mknames [''x'', ''y'', ''x''] s = Some (ps, s') \<and>
     ps ! 0 \<noteq> ps ! 1 \<and> ps ! 0 = ps ! 2"
proof -
  obtain s where s: "init_vc blank_vc = Some s" "symtab_inv s"
    using init_vc_ok [of blank_vc] by (auto simp: blank_vc_def)
  obtain ps s' where p: "mknames [''x'', ''y'', ''x''] s = Some (ps, s')"
    "\<forall>i < length [''x'', ''y'', ''x'']. \<forall>j < length [''x'', ''y'', ''x''].
       ps ! i = ps ! j \<longleftrightarrow> [''x'', ''y'', ''x''] ! i = [''x'', ''y'', ''x''] ! j"
    using names_have_own_symbols [OF s(2), of "[''x'', ''y'', ''x'']"] by blast
  have "ps ! 0 \<noteq> ps ! 1" "ps ! 0 = ps ! 2"
    using p(2) [rule_format, of 0 1] p(2) [rule_format, of 0 2] by simp_all
  with s p show ?thesis by blast
qed

text \<open>Constants: \<open>mkconst\<close> returns an integer symbol of the value asked for.\<close>

lemma mkconst_ok:
  assumes "consts_ok s" and "symb_list s = None"
  shows "\<exists>p s'. mkconst n s = Some (p, s') \<and> p < length (symbs s') \<and>
     s_type (symbs s' ! p) = T_INT \<and> s_val1 (symbs s' ! p) = IntV n \<and> consts_ok s' \<and>
     enodes s' = enodes s \<and> tacs s' = tacs s \<and> (\<forall>q < length (symbs s). symbs s' ! q = symbs s ! q)"
proof (cases "0 \<le> sint n \<and> sint n < int CONST_MAX")
  case True
  have "uint n = sint n mod 2 ^ 32"
    using uint_word_of_int [where ?'a = 32, of "sint n"] by simp
  with True have "unat n < CONST_MAX" by (auto simp: CONST_MAX_def unat_eq_nat_uint nat_less_iff)
  with assms True show ?thesis by (auto simp: mkconst_def consts_ok_def)
next
  case False
  let ?x = "(malloc_symb s)\<lparr>s_type := T_INT, s_val1 := IntV n\<rparr>"
  have "mkconst n s = Some (length (symbs s), s\<lparr>symbs := symbs s @ [?x]\<rparr>)"
    unfolding mkconst_def if_not_P [OF False]
    using assms(2) by (simp add: get_symb_def symb_at_def set_symb_def)
  with consts_ok_grow [OF assms(1), of "s\<lparr>symbs := symbs s @ [?x]\<rparr>" "[?x]"] show ?thesis
    by (simp add: nth_append)
qed

section \<open>Lists of three address code\<close>

text \<open>The parser holds code by its last instruction: the list follows \<open>prev\<close>, last instruction first.\<close>

fun prev_chain :: "tac list \<Rightarrow> nat option \<Rightarrow> nat list \<Rightarrow> bool" where
  "prev_chain h t [] = (t = None)"
| "prev_chain h t (p # ps) = (t = Some p \<and> p < length h \<and> prev_chain h (t_prev (h ! p)) ps)"

type_synonym quad = "tacop \<times> arg \<times> arg \<times> arg"

definition quad_of :: "tac \<Rightarrow> quad" where
  "quad_of x = (t_op x, t_a x, t_b x, t_c x)"

definition is_code :: "'a vc_scheme \<Rightarrow> nat option \<Rightarrow> nat list \<Rightarrow> quad list \<Rightarrow> bool" where
  "is_code s t ps qs \<longleftrightarrow> prev_chain (tacs s) t ps \<and> map (\<lambda>p. quad_of (tacs s ! p)) (rev ps) = qs"

lemma prev_chain_unique: "prev_chain h t ps \<Longrightarrow> prev_chain h t qs \<Longrightarrow> ps = qs"
proof (induction h t ps arbitrary: qs rule: prev_chain.induct)
  case (1 h t)
  then show ?case by (cases qs) auto
next
  case (2 h t p ps)
  then show ?case by (cases qs) auto
qed

lemma prev_chain_bound: "prev_chain h t ps \<Longrightarrow> p \<in> set ps \<Longrightarrow> p < length h"
  by (induction h t ps rule: prev_chain.induct) auto

lemma prev_chain_suffix: "prev_chain h t (as @ p # bs) \<Longrightarrow> prev_chain h (Some p) (p # bs)"
  by (induction as arbitrary: t) auto

lemma prev_chain_distinct: "prev_chain h t ps \<Longrightarrow> distinct ps"
proof (induction h t ps rule: prev_chain.induct)
  case (2 h t p ps)
  have "p \<notin> set ps"
  proof
    assume "p \<in> set ps"
    then obtain as bs where ps: "ps = as @ p # bs" by (meson split_list)
    with "2.prems" have "prev_chain h (Some p) (p # bs)"
      using prev_chain_suffix [of h t "p # as"] by simp
    moreover have "prev_chain h (Some p) (p # ps)" using "2.prems" by simp
    ultimately have "p # bs = p # ps" by (rule prev_chain_unique)
    with ps show False by (simp add: append_eq_Cons_conv)
  qed
  with 2 show ?case by simp
qed simp

lemma prev_chain_frame:
  assumes "prev_chain h t ps" and "length h \<le> length h'" and "\<forall>p \<in> set ps. t_prev (h' ! p) = t_prev (h ! p)"
  shows "prev_chain h' t ps"
  using assms by (induction h t ps rule: prev_chain.induct) auto

lemma first_tac_chain:
  assumes "prev_chain h (Some t) ps"
  shows "first_tac t h = Some (last ps)"
  using assms
proof (induction ps arbitrary: t)
  case (Cons p ps)
  then show ?case
    by (subst first_tac.simps) (cases "t_prev (h ! p)"; cases ps; auto)
qed simp

lemma prev_chain_relink:
  assumes "prev_chain h (Some t) ys" and "prev_chain h c xs" and "set xs \<inter> set ys = {}"
  shows "prev_chain (h[last ys := (h ! last ys)\<lparr>t_prev := c\<rparr>]) (Some t) (ys @ xs)"
  using assms(1,3)
proof (induction ys arbitrary: t)
  case (Cons y ys)
  let ?h = "h[last (y # ys) := (h ! last (y # ys))\<lparr>t_prev := c\<rparr>]"
  show ?case
  proof (cases ys)
    case Nil
    have "prev_chain ?h c xs"
    proof (rule prev_chain_frame [OF assms(2)])
      have "y \<notin> set xs" using Cons.prems(2) by auto
      then show "\<forall>p \<in> set xs. t_prev (?h ! p) = t_prev (h ! p)"
        using Nil by (metis last.simps nth_list_update_neq)
    qed simp
    with Nil Cons.prems show ?thesis by simp
  next
    case (Cons z zs)
    have "y \<noteq> last ys"
      using prev_chain_distinct [OF Cons.prems(1)] Cons by auto
    with Cons.prems Cons.IH [of z] Cons show ?thesis by auto
  qed
qed simp

lemma is_code_join:
  assumes "is_code s c1 xs qs1" and "is_code s c2 ys qs2" and "set xs \<inter> set ys = {}"
  shows "\<exists>t s'. join_tac c1 c2 s = Some (t, s') \<and> is_code s' t (ys @ xs) (qs1 @ qs2) \<and>
     (\<exists>h. s' = s\<lparr>tacs := h\<rparr> \<and> length h = length (tacs s) \<and>
        (\<forall>p. quad_of (h ! p) = quad_of (tacs s ! p)) \<and>
        (\<forall>p. p \<notin> set ys \<longrightarrow> h ! p = tacs s ! p))"
proof (cases c1)
  case None
  with assms show ?thesis by (cases xs) (auto simp: join_tac_def is_code_def intro: exI [of _ "tacs s"])
next
  case (Some p1)
  show ?thesis
  proof (cases c2)
    case None
    with assms Some show ?thesis
      by (cases ys) (auto simp: join_tac_def is_code_def intro: exI [of _ "tacs s"])
  next
    case c2: (Some p2)
    let ?l = "last ys"
    let ?h = "(tacs s)[?l := (tacs s ! ?l)\<lparr>t_prev := c1\<rparr>]"
    have chains: "prev_chain (tacs s) c1 xs" "prev_chain (tacs s) (Some p2) ys"
      using assms(1,2) c2 by (simp_all add: is_code_def)
    have "ys \<noteq> []" using chains(2) by (cases ys) auto
    then have l: "?l \<in> set ys" "?l < length (tacs s)"
      using prev_chain_bound [OF chains(2)] by auto
    have same: "quad_of (?h ! p) = quad_of (tacs s ! p)" for p
      using l(2) by (cases "p = ?l") (simp_all add: quad_of_def)
    have "join_tac c1 c2 s = Some (c2, s\<lparr>tacs := ?h\<rparr>)"
      using first_tac_chain [OF chains(2)] l(2) Some c2
      by (simp add: join_tac_def tac_at_def set_tac_def)
    moreover have "prev_chain ?h (Some p2) (ys @ xs)"
      by (rule prev_chain_relink [OF chains(2,1) assms(3)])
    moreover have "?h ! p = tacs s ! p" if "p \<notin> set ys" for p
      using l(1) that by (metis nth_list_update_neq)
    ultimately show ?thesis
      using assms(1,2) c2 same by (auto simp: is_code_def)
  qed
qed

text \<open>Joining two pieces of code is concatenation: for code lists with no instruction in common
  \<open>join_tac\<close> ends, and following \<open>prev\<close> from its result reads the instructions of the first list
  and then those of the second, each with its operands unchanged.\<close>

theorem join_tac_appends:
  assumes "is_code s c1 xs qs1" and "is_code s c2 ys qs2" and "set xs \<inter> set ys = {}"
  shows "\<exists>t s'. join_tac c1 c2 s = Some (t, s') \<and> is_code s' t (ys @ xs) (qs1 @ qs2)"
  using is_code_join [OF assms] by blast

theorem join_tac_appends_witness:
  "\<exists>t s'. join_tac (Some 1) (Some 2)
       (blank_vc\<lparr>tacs := [\<lparr>t_next = None, t_prev = None, t_op = TAC_VAR, t_a = Var 0, t_b = Null, t_c = Null\<rparr>,
          \<lparr>t_next = None, t_prev = Some 0, t_op = TAC_COPY, t_a = Var 0, t_b = Var 1, t_c = Null\<rparr>,
          \<lparr>t_next = None, t_prev = None, t_op = TAC_RETURN, t_a = Var 0, t_b = Null, t_c = Null\<rparr>]\<rparr>) =
       Some (t, s') \<and> is_code s' t [2, 1, 0]
         [(TAC_VAR, Var 0, Null, Null), (TAC_COPY, Var 0, Var 1, Null), (TAC_RETURN, Var 0, Null, Null)]"
  using join_tac_appends [where s = "blank_vc\<lparr>tacs := [\<lparr>t_next = None, t_prev = None, t_op = TAC_VAR, t_a = Var 0, t_b = Null, t_c = Null\<rparr>,
          \<lparr>t_next = None, t_prev = Some 0, t_op = TAC_COPY, t_a = Var 0, t_b = Var 1, t_c = Null\<rparr>,
          \<lparr>t_next = None, t_prev = None, t_op = TAC_RETURN, t_a = Var 0, t_b = Null, t_c = Null\<rparr>]\<rparr>"
      and ?c1.0 = "Some 1" and xs = "[1, 0]" and ?qs1.0 = "[(TAC_VAR, Var 0, Null, Null), (TAC_COPY, Var 0, Var 1, Null)]"
      and ?c2.0 = "Some 2" and ys = "[2]" and ?qs2.0 = "[(TAC_RETURN, Var 0, Null, Null)]"]
  by (simp add: is_code_def quad_of_def)

end
