(* ===== verification/VC_Parse.thy ===== *)
theory VC_Parse
  imports VC_Data "HOL-Library.Signed_Division"
begin

text \<open>
  The semantic actions of the VSL compiler's parser (\<open>csibe/src/compiler/parser.c\<close>): the routines
  that build three address code for functions, statements and expressions, and the switch over
  rule numbers that calls them, as the generated parser runs it on its value stack.
\<close>

section \<open>Routines\<close>

abbreviation symb_arg :: "nat option \<Rightarrow> arg" where
  "symb_arg x \<equiv> (case x of None \<Rightarrow> Null | Some p \<Rightarrow> Var p)"

abbreviation tac_arg :: "nat option \<Rightarrow> arg" where
  "tac_arg x \<equiv> (case x of None \<Rightarrow> Null | Some p \<Rightarrow> Lab p)"

text \<open>Reading an operand as a pointer to code: \<open>LA\<close>, \<open>LB\<close>.\<close>

fun as_tac :: "arg \<Rightarrow> nat option option" where
  "as_tac Null = Some None"
| "as_tac (Lab p) = Some (Some p)"
| "as_tac (Var p) = None"

definition set_prev :: "nat \<Rightarrow> nat option \<Rightarrow> 'a vc_scheme \<Rightarrow> 'a vc_scheme option" where
  "set_prev t c s = do { x \<leftarrow> tac_at t s; Some (set_tac t (x\<lparr>t_prev := c\<rparr>) s) }"

definition mkenode :: "nat option \<Rightarrow> nat option \<Rightarrow> nat option \<Rightarrow> 'a vc_scheme \<Rightarrow> (nat \<times> 'a vc_scheme) option" where
  "mkenode nxt res cod s = do {
     (e, s) \<leftarrow> get_enode s;
     x \<leftarrow> enode_at e s;
     Some (e, set_enode e (x\<lparr>e_next := nxt, e_res := res, e_tac := cod\<rparr>) s)
   }"

text \<open>\<open>mktac( TAC_LABEL, mklabel( next_label++ ), NULL, NULL )\<close>\<close>

definition new_label :: "'a vc_scheme \<Rightarrow> (nat \<times> 'a vc_scheme) option" where
  "new_label s = do {
     (l, s) \<leftarrow> mklabel (next_label s) (s\<lparr>next_label := next_label s + 1\<rparr>);
     Some (mktac TAC_LABEL (Var l) Null Null s)
   }"

text \<open>Running down the list of calls that wait for a function's address.\<close>

partial_function (option) backpatch :: "nat option \<Rightarrow> nat \<Rightarrow> tac list \<Rightarrow> tac list option" where
  "backpatch tlist tlab h =
     (case tlist of
        None \<Rightarrow> Some h
      | Some t \<Rightarrow>
          if t < length h
          then (case as_tac (t_b (h ! t)) of
                  None \<Rightarrow> None
                | Some tnext \<Rightarrow> backpatch tnext tlab (h[t := (h ! t)\<lparr>t_b := Lab tlab\<rparr>]))
          else None)"

declare backpatch.simps [code]

definition do_func :: "nat \<Rightarrow> nat option \<Rightarrow> nat option \<Rightarrow> 'a vc_scheme \<Rightarrow> (nat option \<times> 'a vc_scheme) option" where
  "do_func func args cod s = do {
     f \<leftarrow> symb_at func s;
     if s_type f \<noteq> T_UNDEF then Some (None, error ''function already declared'' s)
     else do {
       (tlab, s) \<leftarrow> new_label s;
       (let (tbegin, s) = mktac TAC_BEGINFUNC Null Null Null s;
            (tend, s) = mktac TAC_ENDFUNC Null Null Null s
        in do {
          s \<leftarrow> set_prev tbegin (Some tlab) s;
          (cod, s) \<leftarrow> join_tac args cod s;
          (body, s) \<leftarrow> join_tac (Some tbegin) cod s;
          s \<leftarrow> set_prev tend body s;
          f \<leftarrow> symb_at func s;
          tlist \<leftarrow> LABEL2 f;
          h \<leftarrow> backpatch tlist tlab (tacs s);
          Some (Some tend, set_symb func (f\<lparr>s_type := T_FUNC, s_val2 := LabV (Some tlab)\<rparr>) (s\<lparr>tacs := h\<rparr>))
        })
     }
   }"

definition declare_var :: "nat \<Rightarrow> 'a vc_scheme \<Rightarrow> (nat option \<times> 'a vc_scheme) option" where
  "declare_var var s = do {
     x \<leftarrow> symb_at var s;
     if s_type x \<noteq> T_UNDEF then Some (None, error ''variable already declared'' s)
     else
       let (t, s) = mktac TAC_VAR (Var var) Null Null
                      (set_symb var (x\<lparr>s_type := T_VAR, s_val2 := ValV (- 1)\<rparr>) s)
       in Some (Some t, s)
   }"

definition do_assign :: "nat \<Rightarrow> nat option \<Rightarrow> 'a vc_scheme \<Rightarrow> (nat option \<times> 'a vc_scheme) option" where
  "do_assign var expr s = do {
     x \<leftarrow> symb_at var s;
     (let s = (if s_type x \<noteq> T_VAR then error ''assignment to non-variable'' s else s)
      in do {
        e \<leftarrow> expr;
        n \<leftarrow> enode_at e s;
        (let (cod, s) = mktac TAC_COPY (Var var) (symb_arg (e_res n)) Null s
         in do {
           s \<leftarrow> set_prev cod (e_tac n) s;
           s \<leftarrow> free_enode e s;
           Some (Some cod, s)
         })
      })
   }"

text \<open>\<open>newval\<close>: the signed arithmetic of the host; dividing by zero or overflowing a division traps.\<close>

definition fold_const :: "tacop \<Rightarrow> u32 \<Rightarrow> u32 \<Rightarrow> u32 option" where
  "fold_const binop x y =
     (case binop of
        TAC_ADD \<Rightarrow> Some (x + y)
      | TAC_SUB \<Rightarrow> Some (x - y)
      | TAC_MUL \<Rightarrow> Some (x * y)
      | TAC_DIV \<Rightarrow> (if y = 0 \<or> (x = 0x80000000 \<and> y = - 1) then None
                     else Some (word_of_int (sint x sdiv sint y)))
      | _ \<Rightarrow> None)"

text \<open>\<open>expr->ETYPE\<close>: the type of an expression's result symbol.\<close>

definition res_symb :: "enode \<Rightarrow> 'a vc_scheme \<Rightarrow> symb option" where
  "res_symb n s = do { r \<leftarrow> e_res n; symb_at r s }"

definition do_bin :: "tacop \<Rightarrow> nat option \<Rightarrow> nat option \<Rightarrow> 'a vc_scheme \<Rightarrow> (nat option \<times> 'a vc_scheme) option" where
  "do_bin binop expr1 expr2 s = do {
     e1 \<leftarrow> expr1;
     n1 \<leftarrow> enode_at e1 s;
     r1 \<leftarrow> res_symb n1 s;
     e2 \<leftarrow> expr2;
     n2 \<leftarrow> enode_at e2 s;
     both \<leftarrow> (if s_type r1 = T_INT then map_option (\<lambda>r2. s_type r2 = T_INT) (res_symb n2 s)
             else Some False);
     if both
     then do {
       r2 \<leftarrow> res_symb n2 s;
       x \<leftarrow> VAL1 r1;
       y \<leftarrow> VAL1 r2;
       newval \<leftarrow> fold_const binop x y;
       (c, s) \<leftarrow> mkconst newval s;
       s \<leftarrow> free_enode e2 (set_enode e1 (n1\<lparr>e_res := Some c\<rparr>) s);
       Some (Some e1, s)
     }
     else do {
       (t, s) \<leftarrow> mktmp s;
       (let (temp, s) = mktac TAC_VAR (Var t) Null Null s
        in do {
          (cod, s) \<leftarrow> join_tac (e_tac n1) (e_tac n2) s;
          s \<leftarrow> set_prev temp cod s;
          (let (res, s) = mktac binop (Var t) (symb_arg (e_res n1)) (symb_arg (e_res n2)) s
           in do {
             s \<leftarrow> set_prev res (Some temp) s;
             s \<leftarrow> free_enode e2 (set_enode e1 (n1\<lparr>e_res := Some t, e_tac := Some res\<rparr>) s);
             Some (Some e1, s)
           })
        })
     }
   }"

text \<open>The operand of a unary instruction goes into its third field.\<close>

definition do_un :: "tacop \<Rightarrow> nat option \<Rightarrow> 'a vc_scheme \<Rightarrow> (nat option \<times> 'a vc_scheme) option" where
  "do_un unop expr s = do {
     e \<leftarrow> expr;
     n \<leftarrow> enode_at e s;
     r \<leftarrow> e_res n;
     x \<leftarrow> symb_at r s;
     if s_type x = T_INT
     then (if unop = TAC_NEG
           then do { v \<leftarrow> VAL1 x; Some (Some e, set_symb r (x\<lparr>s_val1 := IntV (- v)\<rparr>) s) }
           else Some (Some e, s))
     else do {
       (t, s) \<leftarrow> mktmp s;
       (let (temp, s) = mktac TAC_VAR (Var t) Null Null s
        in do {
          s \<leftarrow> set_prev temp (e_tac n) s;
          (let (res, s) = mktac unop (Var t) Null (Var r) s
           in do {
             s \<leftarrow> set_prev res (Some temp) s;
             Some (Some e, set_enode e (n\<lparr>e_res := Some t, e_tac := Some res\<rparr>) s)
           })
        })
     }
   }"

text \<open>The two loops of \<open>do_fnap\<close> over the argument list.\<close>

partial_function (option) join_args ::
  "nat option \<Rightarrow> nat option \<Rightarrow> 'a vc_scheme \<Rightarrow> (nat option \<times> 'a vc_scheme) option" where
  "join_args alt cod s =
     (case alt of
        None \<Rightarrow> Some (cod, s)
      | Some e \<Rightarrow> do {
          n \<leftarrow> enode_at e s;
          (cod, s) \<leftarrow> join_tac cod (e_tac n) s;
          n \<leftarrow> enode_at e s;
          join_args (e_next n) cod s
        })"

partial_function (option) make_args ::
  "nat option \<Rightarrow> nat option \<Rightarrow> 'a vc_scheme \<Rightarrow> (nat option \<times> 'a vc_scheme) option" where
  "make_args arglist cod s =
     (case arglist of
        None \<Rightarrow> Some (cod, s)
      | Some e \<Rightarrow> do {
          n \<leftarrow> enode_at e s;
          (let (temp, s) = mktac TAC_ARG (symb_arg (e_res n)) Null Null s
           in do {
             s \<leftarrow> set_prev temp cod s;
             s \<leftarrow> free_enode e s;
             make_args (e_next n) (Some temp) s
           })
        })"

declare join_args.simps [code] make_args.simps [code]

definition do_fnap :: "nat \<Rightarrow> nat option \<Rightarrow> 'a vc_scheme \<Rightarrow> (nat option \<times> 'a vc_scheme) option" where
  "do_fnap func arglist s = do {
     f \<leftarrow> symb_at func s;
     if s_type f \<noteq> T_UNDEF \<and> s_type f \<noteq> T_FUNC
     then Some (None, error ''function declared other than function'' s)
     else do {
       (res, s) \<leftarrow> mktmp s;
       (let (cod, s) = mktac TAC_VAR (Var res) Null Null s
        in do {
          (cod, s) \<leftarrow> join_args arglist (Some cod) s;
          (cod, s) \<leftarrow> make_args arglist cod s;
          f \<leftarrow> symb_at func s;
          l \<leftarrow> LABEL2 f;
          (let (temp, s) = mktac TAC_CALL (Var res) (tac_arg l) Null s
           in do {
             s \<leftarrow> set_prev temp cod s;
             (let s = (if s_type f = T_UNDEF then set_symb func (f\<lparr>s_val2 := LabV (Some temp)\<rparr>) s else s)
              in do {
                (e, s) \<leftarrow> mkenode None (Some res) (Some temp) s;
                Some (Some e, s)
              })
           })
        })
     }
   }"

definition do_lib :: "nat \<Rightarrow> nat option \<Rightarrow> 'a vc_scheme \<Rightarrow> (nat option \<times> 'a vc_scheme) option" where
  "do_lib rtn arg s =
     (let (a, s) = mktac TAC_ARG (symb_arg arg) Null Null s;
          (c, s) = mktac TAC_CALL Null (Lab (library s ! rtn)) Null s
      in do { s \<leftarrow> set_prev c (Some a) s; Some (Some c, s) })"

definition do_if :: "nat option \<Rightarrow> nat option \<Rightarrow> 'a vc_scheme \<Rightarrow> (nat option \<times> 'a vc_scheme) option" where
  "do_if expr stmt s = do {
     (label, s) \<leftarrow> new_label s;
     e \<leftarrow> expr;
     n \<leftarrow> enode_at e s;
     (let (cod, s) = mktac TAC_IFZ (Lab label) (symb_arg (e_res n)) Null s
      in do {
        s \<leftarrow> set_prev cod (e_tac n) s;
        (cod, s) \<leftarrow> join_tac (Some cod) stmt s;
        s \<leftarrow> set_prev label cod s;
        s \<leftarrow> free_enode e s;
        Some (Some label, s)
      })
   }"

definition do_test ::
  "nat option \<Rightarrow> nat option \<Rightarrow> nat option \<Rightarrow> 'a vc_scheme \<Rightarrow> (nat option \<times> 'a vc_scheme) option" where
  "do_test expr stmt1 stmt2 s = do {
     (label1, s) \<leftarrow> new_label s;
     (label2, s) \<leftarrow> new_label s;
     e \<leftarrow> expr;
     n \<leftarrow> enode_at e s;
     (let (code1, s) = mktac TAC_IFZ (Lab label1) (symb_arg (e_res n)) Null s;
          (code2, s) = mktac TAC_GOTO (Lab label2) Null Null s
      in do {
        s \<leftarrow> set_prev code1 (e_tac n) s;
        (c1, s) \<leftarrow> join_tac (Some code1) stmt1 s;
        s \<leftarrow> set_prev code2 c1 s;
        s \<leftarrow> set_prev label1 (Some code2) s;
        (l1, s) \<leftarrow> join_tac (Some label1) stmt2 s;
        s \<leftarrow> set_prev label2 l1 s;
        s \<leftarrow> free_enode e s;
        Some (Some label2, s)
      })
   }"

definition do_while :: "nat option \<Rightarrow> nat option \<Rightarrow> 'a vc_scheme \<Rightarrow> (nat option \<times> 'a vc_scheme) option" where
  "do_while expr stmt s = do {
     (label, s) \<leftarrow> new_label s;
     (let (cod, s) = mktac TAC_GOTO (Lab label) Null Null s
      in do {
        s \<leftarrow> set_prev cod stmt s;
        (c, s) \<leftarrow> do_if expr (Some cod) s;
        join_tac (Some label) c s
      })
   }"

section \<open>The action switch\<close>

text \<open>The union of semantic values: which member a value was stored through.\<close>

datatype yystype = YSymb "nat option" | YTac "nat option" | YEnode "nat option"

fun y_symb :: "yystype \<Rightarrow> nat option option" where
  "y_symb (YSymb p) = Some p"
| "y_symb _ = None"

fun y_tac :: "yystype \<Rightarrow> nat option option" where
  "y_tac (YTac p) = Some p"
| "y_tac _ = None"

fun y_enode :: "yystype \<Rightarrow> nat option option" where
  "y_enode (YEnode p) = Some p"
| "y_enode _ = None"

definition act_binary ::
  "tacop \<Rightarrow> (nat \<Rightarrow> yystype) \<Rightarrow> 'a vc_scheme \<Rightarrow> (yystype \<times> 'a vc_scheme) option" where
  "act_binary binop v s = do {
     e1 \<leftarrow> y_enode (v 2);
     e2 \<leftarrow> y_enode (v 0);
     (e, s) \<leftarrow> do_bin binop e1 e2 s;
     Some (YEnode e, s)
   }"

definition act_variable :: "(nat \<Rightarrow> yystype) \<Rightarrow> 'a vc_scheme \<Rightarrow> (yystype \<times> 'a vc_scheme) option" where
  "act_variable v s = do {
     p \<leftarrow> y_symb (v 0);
     p \<leftarrow> p;
     x \<leftarrow> symb_at p s;
     if s_type x \<noteq> T_VAR
     then do {
       (c, s) \<leftarrow> mkconst 0 (error ''Undeclared variable in expression'' s);
       (e, s) \<leftarrow> mkenode None (Some c) None s;
       Some (YEnode (Some e), s)
     }
     else do { (e, s) \<leftarrow> mkenode None (Some p) None s; Some (YEnode (Some e), s) }
   }"

definition act_print_expr :: "(nat \<Rightarrow> yystype) \<Rightarrow> 'a vc_scheme \<Rightarrow> (yystype \<times> 'a vc_scheme) option" where
  "act_print_expr v s = do {
     e \<leftarrow> y_enode (v 0);
     e \<leftarrow> e;
     n \<leftarrow> enode_at e s;
     (c, s) \<leftarrow> do_lib LIB_PRINTN (e_res n) s;
     (t, s) \<leftarrow> join_tac (e_tac n) c s;
     Some (YTac t, s)
   }"

definition act_return :: "(nat \<Rightarrow> yystype) \<Rightarrow> 'a vc_scheme \<Rightarrow> (yystype \<times> 'a vc_scheme) option" where
  "act_return v s = do {
     e \<leftarrow> y_enode (v 0);
     e \<leftarrow> e;
     n \<leftarrow> enode_at e s;
     (let (t, s) = mktac TAC_RETURN (symb_arg (e_res n)) Null Null s
      in do {
        s \<leftarrow> set_prev t (e_tac n) s;
        s \<leftarrow> free_enode e s;
        Some (YTac (Some t), s)
      })
   }"

definition act_expr_list :: "(nat \<Rightarrow> yystype) \<Rightarrow> 'a vc_scheme \<Rightarrow> (yystype \<times> 'a vc_scheme) option" where
  "act_expr_list v s = do {
     e1 \<leftarrow> y_enode (v 2);
     e2 \<leftarrow> y_enode (v 0);
     e \<leftarrow> e1;
     n \<leftarrow> enode_at e s;
     Some (YEnode e1, set_enode e (n\<lparr>e_next := e2\<rparr>) s)
   }"

definition act_join :: "nat \<Rightarrow> nat \<Rightarrow> (nat \<Rightarrow> yystype) \<Rightarrow> 'a vc_scheme \<Rightarrow> (yystype \<times> 'a vc_scheme) option" where
  "act_join i j v s = do {
     c1 \<leftarrow> y_tac (v i);
     c2 \<leftarrow> y_tac (v j);
     (t, s) \<leftarrow> join_tac c1 c2 s;
     Some (YTac t, s)
   }"

text \<open>
  \<open>v k\<close> is \<open>yyvsp[-k]\<close> and \<open>d\<close> the default for \<open>yyval\<close>. Rules without an action keep the default.
\<close>

definition vc_action ::
  "nat \<Rightarrow> (nat \<Rightarrow> yystype) \<Rightarrow> yystype \<Rightarrow> 'a vc_scheme \<Rightarrow> (yystype \<times> 'a vc_scheme) option" where
  "vc_action rule v d s =
     (let tac = map_option (\<lambda>(t, s). (YTac t, s)); enode = map_option (\<lambda>(e, s). (YEnode e, s)) in
      if rule = 1 then do { t \<leftarrow> y_tac (v 0); Some (d, s\<lparr>program_tac := t\<rparr>) }
      else if rule = 3 then act_join 1 0 v s
      else if rule = 4 then do {
        f \<leftarrow> y_symb (v 4); f \<leftarrow> f; args \<leftarrow> y_tac (v 2); cod \<leftarrow> y_tac (v 0);
        tac (do_func f args cod s) }
      else if rule = 5 then Some (YTac None, error ''Bad function syntax'' s)
      else if rule = 7 then Some (YTac None, s)
      else if rule = 8 then do { p \<leftarrow> y_symb (v 0); p \<leftarrow> p; tac (declare_var p s) }
      else if rule = 9 then do {
        p \<leftarrow> y_symb (v 0); p \<leftarrow> p; (t, s) \<leftarrow> declare_var p s;
        c \<leftarrow> y_tac (v 2); tac (join_tac t c s) }
      else if rule = 17 then Some (YTac None, error ''Bad statement syntax'' s)
      else if rule = 18 then do {
        p \<leftarrow> y_symb (v 2); p \<leftarrow> p; e \<leftarrow> y_enode (v 0); tac (do_assign p e s) }
      else if rule = 19 then act_binary TAC_ADD v s
      else if rule = 20 then act_binary TAC_SUB v s
      else if rule = 21 then act_binary TAC_MUL v s
      else if rule = 22 then act_binary TAC_DIV v s
      else if rule = 23 then do { e \<leftarrow> y_enode (v 0); enode (do_un TAC_NEG e s) }
      else if rule = 24 then do { e \<leftarrow> y_enode (v 1); Some (YEnode e, s) }
      else if rule = 25 then do {
        p \<leftarrow> y_symb (v 0); (e, s) \<leftarrow> mkenode None p None s; Some (YEnode (Some e), s) }
      else if rule = 26 then act_variable v s
      else if rule = 27 then do {
        f \<leftarrow> y_symb (v 3); f \<leftarrow> f; e \<leftarrow> y_enode (v 1); enode (do_fnap f e s) }
      else if rule = 28 then do {
        (e, s) \<leftarrow> mkenode None None None (error ''Bad expression syntax'' s);
        Some (YEnode (Some e), s) }
      else if rule = 29 then Some (YEnode None, s)
      else if rule = 32 then act_expr_list v s
      else if rule = 33 then do { t \<leftarrow> y_tac (v 0); Some (YTac t, s) }
      else if rule = 35 then act_join 2 0 v s
      else if rule = 36 then act_print_expr v s
      else if rule = 37 then do { p \<leftarrow> y_symb (v 0); tac (do_lib LIB_PRINTS p s) }
      else if rule = 38 then act_return v s
      else if rule = 39 then Some (YTac None, s)
      else if rule = 40 then do {
        e \<leftarrow> y_enode (v 3); t \<leftarrow> y_tac (v 1); tac (do_if e t s) }
      else if rule = 41 then do {
        e \<leftarrow> y_enode (v 5); t1 \<leftarrow> y_tac (v 3); t2 \<leftarrow> y_tac (v 1); tac (do_test e t1 t2 s) }
      else if rule = 42 then do {
        e \<leftarrow> y_enode (v 3); t \<leftarrow> y_tac (v 1); tac (do_while e t s) }
      else if rule = 43 then act_join 2 1 v s
      else if rule = 44 then Some (YTac None, s)
      else if rule = 45 then act_join 1 0 v s
      else if rule = 46 then do { t \<leftarrow> y_tac (v 0); Some (YTac t, s) }
      else if rule = 48 then act_join 1 0 v s
      else Some (d, s))"

section \<open>The code statements are translated to\<close>

lemma is_code_frame:
  assumes "is_code s t ps qs" and "\<forall>p \<in> set ps. tacs s' ! p = tacs s ! p"
    and "length (tacs s) \<le> length (tacs s')"
  shows "is_code s' t ps qs"
  using assms prev_chain_frame [of "tacs s" t ps "tacs s'"] by (auto simp: is_code_def)

lemma is_code_bound: "is_code s t ps qs \<Longrightarrow> p \<in> set ps \<Longrightarrow> p < length (tacs s)"
  by (auto simp: is_code_def dest: prev_chain_bound)

definition relink :: "nat \<Rightarrow> nat option \<Rightarrow> 'a vc_scheme \<Rightarrow> 'a vc_scheme" where
  "relink n t s = s\<lparr>tacs := (tacs s)[n := (tacs s ! n)\<lparr>t_prev := t\<rparr>]\<rparr>"

lemma set_prev_relink:
  "n < length (tacs s) \<Longrightarrow> set_prev n t s = Some (relink n t s)"
  by (simp add: set_prev_def tac_at_def set_tac_def relink_def)

lemma relink_simps [simp]:
  "length (tacs (relink n t s)) = length (tacs s)"
  "p \<noteq> n \<Longrightarrow> tacs (relink n t s) ! p = tacs s ! p"
  "quad_of (tacs (relink n t s) ! p) = quad_of (tacs s ! p)"
  "symbs (relink n t s) = symbs s" "enodes (relink n t s) = enodes s"
  "symb_list (relink n t s) = symb_list s" "enode_list (relink n t s) = enode_list s"
  "next_label (relink n t s) = next_label s"
proof -
  show "quad_of (tacs (relink n t s) ! p) = quad_of (tacs s ! p)"
    by (cases "p = n"; cases "n < length (tacs s)")
       (simp_all add: relink_def quad_of_def list_update_beyond)
qed (simp_all add: relink_def)

lemma is_code_relink:
  assumes "is_code s t ps qs" and "n < length (tacs s)" and "n \<notin> set ps"
  shows "is_code (relink n t s) (Some n) (n # ps) (qs @ [quad_of (tacs s ! n)])"
proof -
  have "prev_chain (tacs (relink n t s)) t ps"
  proof (rule prev_chain_frame)
    show "prev_chain (tacs s) t ps" using assms(1) by (simp add: is_code_def)
    show "\<forall>p \<in> set ps. t_prev (tacs (relink n t s) ! p) = t_prev (tacs s ! p)"
      using assms(3) by (metis relink_simps(2))
  qed simp
  moreover have "t_prev (tacs (relink n t s) ! n) = t" using assms(2) by (simp add: relink_def)
  ultimately show ?thesis
    using assms by (simp add: is_code_def)
qed

definition with_tac :: "quad \<Rightarrow> 'a vc_scheme \<Rightarrow> 'a vc_scheme" where
  "with_tac q s = (case q of (op, a, b, c) \<Rightarrow>
     s\<lparr>tacs := tacs s @ [\<lparr>t_next = None, t_prev = None, t_op = op, t_a = a, t_b = b, t_c = c\<rparr>]\<rparr>)"

lemma mktac_with_tac: "mktac op a b c s = (length (tacs s), with_tac (op, a, b, c) s)"
  by (simp add: mktac_def with_tac_def)

lemma with_tac_simps [simp]:
  "length (tacs (with_tac q s)) = Suc (length (tacs s))"
  "p < length (tacs s) \<Longrightarrow> tacs (with_tac q s) ! p = tacs s ! p"
  "quad_of (tacs (with_tac q s) ! length (tacs s)) = q"
  "symbs (with_tac q s) = symbs s" "enodes (with_tac q s) = enodes s"
  "symb_list (with_tac q s) = symb_list s" "enode_list (with_tac q s) = enode_list s"
  "next_label (with_tac q s) = next_label s"
  by (simp_all add: with_tac_def quad_of_def nth_append split: prod.splits)

lemma is_code_with_tac: "is_code s t ps qs \<Longrightarrow> is_code (with_tac q s) t ps qs"
  by (rule is_code_frame) (auto dest: is_code_bound)

text \<open>A new label instruction at the end of the store.\<close>

definition with_label :: "'a vc_scheme \<Rightarrow> 'a vc_scheme" where
  "with_label s = with_tac (TAC_LABEL, Var (length (symbs s)), Null, Null)
     (s\<lparr>next_label := next_label s + 1,
        symbs := symbs s @ [(malloc_symb s)\<lparr>s_type := T_LABEL, s_val1 := IntV (next_label s)\<rparr>]\<rparr>)"

lemma new_label_with_label:
  "symb_list s = None \<Longrightarrow> new_label s = Some (length (tacs s), with_label s)"
  by (simp add: new_label_def mklabel_ok mktac_with_tac with_label_def)

lemma with_label_simps [simp]:
  "length (tacs (with_label s)) = Suc (length (tacs s))"
  "p < length (tacs s) \<Longrightarrow> tacs (with_label s) ! p = tacs s ! p"
  "quad_of (tacs (with_label s) ! length (tacs s)) = (TAC_LABEL, Var (length (symbs s)), Null, Null)"
  "symbs (with_label s) = symbs s @ [(malloc_symb s)\<lparr>s_type := T_LABEL, s_val1 := IntV (next_label s)\<rparr>]"
  "enodes (with_label s) = enodes s" "symb_list (with_label s) = symb_list s"
  "enode_list (with_label s) = enode_list s" "next_label (with_label s) = next_label s + 1"
proof -
  have "quad_of (tacs (with_tac q (s\<lparr>next_label := l, symbs := h\<rparr>)) ! length (tacs s)) = q" for q l h
    using with_tac_simps(3) [of q "s\<lparr>next_label := l, symbs := h\<rparr>"] by simp
  then show "quad_of (tacs (with_label s) ! length (tacs s)) =
      (TAC_LABEL, Var (length (symbs s)), Null, Null)"
    by (simp add: with_label_def)
  show "tacs (with_label s) ! p = tacs s ! p" if "p < length (tacs s)"
    using that with_tac_simps(2) [of p "s\<lparr>next_label := l, symbs := h\<rparr>" for l h]
    by (simp add: with_label_def)
qed (simp_all add: with_label_def)

lemma is_code_with_label: "is_code s t ps qs \<Longrightarrow> is_code (with_label s) t ps qs"
  by (rule is_code_frame) (auto dest: is_code_bound)

lemma free_enode_ok:
  assumes "e < length (enodes s)"
  shows "\<exists>s'. free_enode e s = Some s' \<and> tacs s' = tacs s \<and> symbs s' = symbs s \<and>
     symb_list s' = symb_list s \<and> next_label s' = next_label s"
  using assms by (simp add: free_enode_def enode_at_def set_enode_def)

lemma is_code_tacs: "tacs s' = tacs s \<Longrightarrow> is_code s' t ps qs = is_code s t ps qs"
  by (simp add: is_code_def)

text \<open>The label an instruction carries.\<close>

definition label_is :: "'a vc_scheme \<Rightarrow> nat \<Rightarrow> u32 \<Rightarrow> bool" where
  "label_is s v n \<longleftrightarrow> v < length (symbs s) \<and> s_type (symbs s ! v) = T_LABEL \<and> s_val1 (symbs s ! v) = IntV n"

lemma do_if_code:
  assumes "symb_list s = None" and "e < length (enodes s)"
    and "is_code s (e_tac (enodes s ! e)) xs cond" and "is_code s stmt ys body"
    and "set xs \<inter> set ys = {}"
  shows "\<exists>l v zs s'. do_if (Some e) stmt s = Some (Some l, s') \<and>
     is_code s' (Some l) zs
       (cond @ [(TAC_IFZ, Lab l, symb_arg (e_res (enodes s ! e)), Null)] @ body @
        [(TAC_LABEL, Var v, Null, Null)]) \<and>
     label_is s' v (next_label s) \<and> next_label s' = next_label s + 1 \<and> symb_list s' = None \<and>
     set zs \<subseteq> set xs \<union> set ys \<union> {length (tacs s)..} \<and>
     (\<exists>x. symbs s' = symbs s @ [x]) \<and> l = length (tacs s) \<and>
     length (tacs s) \<le> length (tacs s') \<and>
     (\<forall>p < length (tacs s). p \<notin> set ys \<longrightarrow> tacs s' ! p = tacs s ! p)"
proof -
  let ?n = "length (tacs s)"
  let ?ifz = "(TAC_IFZ, Lab ?n, symb_arg (e_res (enodes s ! e)), Null)"
  let ?lab = "(TAC_LABEL, Var (length (symbs s)), Null, Null)"
  let ?s1 = "with_tac ?ifz (with_label s)"
  let ?s2 = "relink (Suc ?n) (e_tac (enodes s ! e)) ?s1"
  have below: "\<forall>p \<in> set xs \<union> set ys. p < ?n"
    using assms(3,4) is_code_bound by blast
  have new: "p \<noteq> ?n \<and> p \<noteq> Suc ?n" if "p \<in> set xs \<union> set ys" for p
    using bspec [OF below that] by simp
  have old: "?s2 = ?s2" "tacs ?s2 ! p = tacs s ! p" if "p < ?n" for p
    using that by simp_all
  have q: "quad_of (tacs ?s1 ! Suc ?n) = ?ifz"
    using with_tac_simps(3) [of ?ifz "with_label s"] by simp
  have "is_code ?s1 (e_tac (enodes s ! e)) xs cond"
    by (intro is_code_with_tac is_code_with_label assms)
  moreover have "Suc ?n \<notin> set xs" using new by blast
  ultimately have c1: "is_code ?s2 (Some (Suc ?n)) (Suc ?n # xs) (cond @ [?ifz])"
    using is_code_relink [of ?s1 _ xs cond "Suc ?n"] q by simp
  have "is_code ?s1 stmt ys body" by (intro is_code_with_tac is_code_with_label assms)
  then have c2: "is_code ?s2 stmt ys body"
  proof (rule is_code_frame)
    show "\<forall>p \<in> set ys. tacs ?s2 ! p = tacs ?s1 ! p" using new by (simp add: ball_Un)
  qed simp
  have "set (Suc ?n # xs) \<inter> set ys = {}" using assms(5) new by auto
  from is_code_join [OF c1 c2 this] obtain t s3 h where j:
    "join_tac (Some (Suc ?n)) stmt ?s2 = Some (t, s3)"
    "is_code s3 t (ys @ Suc ?n # xs) ((cond @ [?ifz]) @ body)"
    "s3 = ?s2\<lparr>tacs := h\<rparr>" "length h = length (tacs ?s2)"
    "\<forall>p. quad_of (h ! p) = quad_of (tacs ?s2 ! p)" "\<forall>p. p \<notin> set ys \<longrightarrow> h ! p = tacs ?s2 ! p"
    by blast
  have "quad_of (tacs s3 ! ?n) = ?lab"
    using j(3,5) with_tac_simps(2) [of ?n "with_label s" ?ifz] by simp
  moreover have "?n \<notin> set (ys @ Suc ?n # xs)" using new by auto
  ultimately have c3: "is_code (relink ?n t s3) (Some ?n) (?n # ys @ Suc ?n # xs)
      (((cond @ [?ifz]) @ body) @ [?lab])"
    using is_code_relink [OF j(2), of ?n] j(3,4) by simp
  obtain s4 where f: "free_enode e (relink ?n t s3) = Some s4" "tacs s4 = tacs (relink ?n t s3)"
    "symbs s4 = symbs (relink ?n t s3)" "symb_list s4 = symb_list (relink ?n t s3)"
    "next_label s4 = next_label (relink ?n t s3)"
    using free_enode_ok [of e "relink ?n t s3"] assms(2) j(3) by auto
  have "do_if (Some e) stmt s = Some (Some ?n, s4)"
    using assms(1,2) j(1,3,4) f(1)
    by (simp add: do_if_def new_label_with_label enode_at_def mktac_with_tac set_prev_relink)
  moreover have "is_code s4 (Some ?n) (?n # ys @ Suc ?n # xs) (cond @ [?ifz] @ body @ [?lab])"
    using c3 is_code_tacs [OF f(2)] by simp
  moreover have "tacs s4 ! p = tacs s ! p" if "p < ?n" "p \<notin> set ys" for p
    using that f(2) j(3,6) by simp
  moreover have "label_is s4 (length (symbs s)) (next_label s)"
    using f(3) j(3) by (simp add: label_is_def nth_append)
  moreover have "next_label s4 = next_label s + 1" "symb_list s4 = None"
    "\<exists>x. symbs s4 = symbs s @ [x]" "?n \<le> length (tacs s4)"
    using f j(3,4) assms(1) by simp_all
  moreover have "set (?n # ys @ Suc ?n # xs) \<subseteq> set xs \<union> set ys \<union> {?n..}" by auto
  ultimately show ?thesis by blast
qed

lemma is_code_last:
  assumes "is_code s (Some l) zs (qs @ [q])"
  shows "l < length (tacs s) \<and> quad_of (tacs s ! l) = q"
proof -
  obtain z zs' where "zs = z # zs'" using assms by (cases zs) (auto simp: is_code_def)
  with assms show ?thesis by (auto simp: is_code_def)
qed

lemma label_number_of:
  assumes "l < length (tacs s)" and "quad_of (tacs s ! l) = (TAC_LABEL, Var v, Null, Null)"
    and "label_is s v n"
  shows "label_number (Lab l) s = Some n"
  using assms by (auto simp: label_number_def tac_at_def symb_at_def quad_of_def label_is_def)

lemma do_while_code:
  assumes "symb_list s = None" and "e < length (enodes s)"
    and "is_code s (e_tac (enodes s ! e)) xs cond" and "is_code s stmt ys body"
    and "set xs \<inter> set ys = {}"
  shows "\<exists>t zs l0 l1 v0 v1 s'. do_while (Some e) stmt s = Some (Some t, s') \<and>
     is_code s' (Some t) zs
       ([(TAC_LABEL, Var v0, Null, Null)] @ cond @
        [(TAC_IFZ, Lab l1, symb_arg (e_res (enodes s ! e)), Null)] @ body @
        [(TAC_GOTO, Lab l0, Null, Null), (TAC_LABEL, Var v1, Null, Null)]) \<and>
     label_number (Lab l0) s' = Some (next_label s) \<and> label_is s' v0 (next_label s) \<and>
     label_number (Lab l1) s' = Some (next_label s + 1) \<and> label_is s' v1 (next_label s + 1)"
proof -
  let ?n = "length (tacs s)"
  let ?goto = "(TAC_GOTO, Lab ?n, Null, Null)"
  let ?v0 = "length (symbs s)"
  let ?lab0 = "(TAC_LABEL, Var ?v0, Null, Null)"
  let ?s1 = "with_tac ?goto (with_label s)"
  let ?s2 = "relink (Suc ?n) stmt ?s1"
  let ?ifz = "\<lambda>l. (TAC_IFZ, Lab l, symb_arg (e_res (enodes s ! e)), Null)"
  have below: "\<forall>p \<in> set xs \<union> set ys. p < ?n" using assms(3,4) is_code_bound by blast
  have new: "p \<noteq> ?n \<and> p \<noteq> Suc ?n" if "p \<in> set xs \<union> set ys" for p
    using bspec [OF below that] by simp
  have q: "quad_of (tacs ?s1 ! Suc ?n) = ?goto"
    using with_tac_simps(3) [of ?goto "with_label s"] by simp
  have "is_code ?s1 stmt ys body" by (intro is_code_with_tac is_code_with_label assms)
  then have c1: "is_code ?s2 (Some (Suc ?n)) (Suc ?n # ys) (body @ [?goto])"
    using is_code_relink [of ?s1 stmt ys body "Suc ?n"] q new by auto
  have c2: "is_code ?s2 (e_tac (enodes ?s2 ! e)) xs cond"
  proof (rule is_code_frame)
    show "is_code ?s1 (e_tac (enodes ?s2 ! e)) xs cond"
      using assms(3) by (simp add: is_code_with_tac is_code_with_label)
    show "\<forall>p \<in> set xs. tacs ?s2 ! p = tacs ?s1 ! p" using new by (simp add: ball_Un)
  qed simp
  have "set xs \<inter> set (Suc ?n # ys) = {}" using assms(5) new by auto
  from do_if_code [OF _ _ c2 c1 this] assms(1,2) obtain l1 v1 zs s3 x where i:
    "do_if (Some e) (Some (Suc ?n)) ?s2 = Some (Some l1, s3)"
    "is_code s3 (Some l1) zs (cond @ [?ifz l1] @ (body @ [?goto]) @ [(TAC_LABEL, Var v1, Null, Null)])"
    "label_is s3 v1 (next_label s + 1)" "symbs s3 = symbs ?s2 @ [x]"
    "set zs \<subseteq> set xs \<union> set (Suc ?n # ys) \<union> {length (tacs ?s2)..}"
    "length (tacs ?s2) \<le> length (tacs s3)"
    "\<forall>p < length (tacs ?s2). p \<notin> set (Suc ?n # ys) \<longrightarrow> tacs s3 ! p = tacs ?s2 ! p"
    by auto
  have "?n \<notin> set zs"
  proof
    assume "?n \<in> set zs"
    with i(5) have "?n \<in> set xs \<union> set ys" by auto
    from new [OF this] show False by simp
  qed
  have "?n \<notin> set ys" using new by blast
  then have tn: "tacs s3 ! ?n = tacs (with_label s) ! ?n"
    using i(7) by simp
  have tnp: "t_prev (tacs (with_label s) ! ?n) = None"
    by (simp add: with_label_def with_tac_def nth_append)
  have c3: "is_code s3 (Some ?n) [?n] [?lab0]"
    using tn tnp i(6) by (simp add: is_code_def)
  have "set [?n] \<inter> set zs = {}" using \<open>?n \<notin> set zs\<close> by simp
  from is_code_join [OF c3 i(2) this] obtain t s4 h where j:
    "join_tac (Some ?n) (Some l1) s3 = Some (t, s4)"
    "is_code s4 t (zs @ [?n]) ([?lab0] @ cond @ [?ifz l1] @ (body @ [?goto]) @
       [(TAC_LABEL, Var v1, Null, Null)])"
    "s4 = s3\<lparr>tacs := h\<rparr>" "length h = length (tacs s3)"
    "\<forall>p. quad_of (h ! p) = quad_of (tacs s3 ! p)"
    by blast
  obtain t' where t: "t = Some t'"
    using j(2) by (cases t; cases zs) (auto simp: is_code_def)
  have w: "do_while (Some e) stmt s = Some (Some t', s4)"
    using assms(1) i(1) j(1) t
    by (simp add: do_while_def new_label_with_label mktac_with_tac set_prev_relink)
  have l1: "l1 < length (tacs s4)" "quad_of (tacs s4 ! l1) = (TAC_LABEL, Var v1, Null, Null)"
    using is_code_last [of s3 l1 zs "cond @ [?ifz l1] @ (body @ [?goto])"] i(2) j(3-5) by simp_all
  have l0: "?n < length (tacs s4)" "quad_of (tacs s4 ! ?n) = ?lab0"
    using i(6) j(3-5) tn by simp_all
  have lab: "label_is s4 v1 (next_label s + 1)" "label_is s4 ?v0 (next_label s)"
    using i(3,4) j(3) by (simp_all add: label_is_def nth_append)
  have code: "is_code s4 (Some t') (zs @ [?n]) ([?lab0] @ cond @ [?ifz l1] @ body @
      [?goto, (TAC_LABEL, Var v1, Null, Null)])"
    using j(2) t by simp
  show ?thesis
    using w code label_number_of [OF l0 lab(2)] label_number_of [OF l1 lab(1)] lab by blast
qed

section \<open>Functions and the calls that wait for them\<close>

fun call_chain :: "tac list \<Rightarrow> nat option \<Rightarrow> nat list \<Rightarrow> bool" where
  "call_chain h t [] = (t = None)"
| "call_chain h t (c # cs) = (t = Some c \<and> c < length h \<and>
     (case as_tac (t_b (h ! c)) of None \<Rightarrow> False | Some nx \<Rightarrow> call_chain h nx cs))"

lemma call_chain_unique: "call_chain h t cs \<Longrightarrow> call_chain h t ds \<Longrightarrow> cs = ds"
proof (induction h t cs arbitrary: ds rule: call_chain.induct)
  case (1 h t)
  then show ?case by (cases ds) auto
next
  case (2 h t c cs)
  then show ?case by (cases ds) (auto split: option.splits)
qed

lemma call_chain_suffix: "call_chain h t (as @ c # cs) \<Longrightarrow> call_chain h (Some c) (c # cs)"
proof (induction as arbitrary: t)
  case (Cons a as)
  then obtain nx where "call_chain h nx (as @ c # cs)" by (auto split: option.splits)
  then show ?case by (rule Cons.IH)
qed simp

lemma call_chain_distinct: "call_chain h t cs \<Longrightarrow> distinct cs"
proof (induction h t cs rule: call_chain.induct)
  case (2 h t c cs)
  have "c \<notin> set cs"
  proof
    assume "c \<in> set cs"
    then obtain as bs where cs: "cs = as @ c # bs" by (meson split_list)
    with "2.prems" have "call_chain h (Some c) (c # bs)"
      using call_chain_suffix [of h t "c # as"] by simp
    moreover have "call_chain h (Some c) (c # cs)" using "2.prems" by simp
    ultimately have "c # bs = c # cs" by (rule call_chain_unique)
    with cs show False by (simp add: append_eq_Cons_conv)
  qed
  with 2 show ?case by (auto split: option.splits)
qed simp

lemma call_chain_frame:
  assumes "call_chain h t cs" and "length h \<le> length h'" and "\<forall>c \<in> set cs. t_b (h' ! c) = t_b (h ! c)"
  shows "call_chain h' t cs"
  using assms by (induction h t cs rule: call_chain.induct) (auto split: option.splits)

definition patched :: "nat list \<Rightarrow> nat \<Rightarrow> tac list \<Rightarrow> tac list" where
  "patched cs l h = map (\<lambda>p. if p \<in> set cs then (h ! p)\<lparr>t_b := Lab l\<rparr> else h ! p) [0..<length h]"

lemma patched_simps [simp]:
  "length (patched cs l h) = length h"
  "p < length h \<Longrightarrow> patched cs l h ! p = (if p \<in> set cs then (h ! p)\<lparr>t_b := Lab l\<rparr> else h ! p)"
  by (simp_all add: patched_def)

lemma backpatch_all:
  assumes "call_chain h t cs"
  shows "backpatch t l h = Some (patched cs l h)"
  using assms
proof (induction cs arbitrary: h t)
  case Nil
  then show ?case by (subst backpatch.simps) (simp add: patched_def map_nth)
next
  case (Cons c cs)
  then obtain nx where nx: "t = Some c" "c < length h" "as_tac (t_b (h ! c)) = Some nx" "call_chain h nx cs"
    by (auto split: option.splits)
  let ?h = "h[c := (h ! c)\<lparr>t_b := Lab l\<rparr>]"
  have "c \<notin> set cs" using call_chain_distinct [OF Cons.prems] by simp
  then have "call_chain ?h nx cs"
    by (intro call_chain_frame [OF nx(4)]) (auto, metis nth_list_update_neq)
  then have "backpatch nx l ?h = Some (patched cs l ?h)" by (rule Cons.IH)
  moreover have "patched cs l ?h = patched (c # cs) l h"
    using nx(2) \<open>c \<notin> set cs\<close> by (intro nth_equalityI) (auto simp: nth_list_update)
  ultimately show ?case using nx by (subst backpatch.simps) simp
qed

text \<open>The instructions at these places of the store, with the calls among them aimed at a label.\<close>

definition aimed :: "nat list \<Rightarrow> nat \<Rightarrow> nat \<Rightarrow> quad \<Rightarrow> quad" where
  "aimed cs l p q = (case q of (op, a, b, c) \<Rightarrow> (op, a, if p \<in> set cs then Lab l else b, c))"

definition aim_code :: "nat list \<Rightarrow> nat \<Rightarrow> nat list \<Rightarrow> quad list \<Rightarrow> quad list" where
  "aim_code cs l ps qs = map2 (aimed cs l) (rev ps) qs"

lemma quad_of_patched:
  "p < length h \<Longrightarrow> quad_of (patched cs l h ! p) = aimed cs l p (quad_of (h ! p))"
  by (simp add: quad_of_def aimed_def)

lemma is_code_patched:
  assumes "is_code s t ps qs"
  shows "is_code (s\<lparr>tacs := patched cs l (tacs s)\<rparr>) t ps (aim_code cs l ps qs)"
proof -
  let ?h = "patched cs l (tacs s)"
  have b: "\<forall>p \<in> set ps. p < length (tacs s)" using assms is_code_bound by blast
  have "prev_chain ?h t ps"
  proof (rule prev_chain_frame)
    show "prev_chain (tacs s) t ps" using assms by (simp add: is_code_def)
    show "\<forall>p \<in> set ps. t_prev (?h ! p) = t_prev (tacs s ! p)" using b by simp
  qed simp
  moreover have aim: "map2 (aimed cs l) ps' (map (\<lambda>p. quad_of (tacs s ! p)) ps') = map (\<lambda>p. quad_of (?h ! p)) ps'"
    if "set ps' \<subseteq> set ps" for ps'
    using that b by (induction ps') (auto simp: quad_of_patched simp del: patched_simps(2))
  moreover have "map2 (aimed cs l) (rev ps) qs = map (\<lambda>p. quad_of (?h ! p)) (rev ps)"
    using aim [of "rev ps"] assms by (simp add: is_code_def)
  ultimately show ?thesis by (simp add: is_code_def aim_code_def)
qed

lemma aim_code_append:
  assumes "length ps = length qs" and "length ps' = length qs'"
  shows "aim_code cs l (ps' @ ps) (qs @ qs') = aim_code cs l ps qs @ aim_code cs l ps' qs'"
  using assms by (simp add: aim_code_def zip_append)

lemma aim_code_fresh:
  assumes "set cs \<inter> set ps = {}" and "length ps = length qs"
  shows "aim_code cs l ps qs = qs"
proof -
  have "map2 (aimed cs l) ps' qs = qs" if "set cs \<inter> set ps' = {}" "length ps' = length qs" for ps'
    using that(2,1) by (induction ps' qs rule: list_induct2) (auto simp: aimed_def split: prod.splits)
  with assms show ?thesis by (simp add: aim_code_def)
qed

lemma is_code_length: "is_code s t ps qs \<Longrightarrow> length ps = length qs"
  by (auto simp: is_code_def)

lemma do_func_code:
  assumes "symb_list s = None" and "func < length (symbs s)" and "s_type (symbs s ! func) = T_UNDEF"
    and "s_val2 (symbs s ! func) = LabV waiting" and "call_chain (tacs s) waiting cs"
    and "is_code s args xs qa" and "is_code s cod ys qb" and "set xs \<inter> set ys = {}"
  shows "\<exists>t b l v s'. do_func func args cod s = Some (Some t, s') \<and>
     is_code s' (Some t) (t # ys @ xs @ [b, l])
       ([(TAC_LABEL, Var v, Null, Null), (TAC_BEGINFUNC, Null, Null, Null)] @
        aim_code cs l xs qa @ aim_code cs l ys qb @ [(TAC_ENDFUNC, Null, Null, Null)]) \<and>
     label_is s' v (next_label s) \<and> label_number (Lab l) s' = Some (next_label s) \<and>
     s_type (symbs s' ! func) = T_FUNC \<and> s_val2 (symbs s' ! func) = LabV (Some l) \<and>
     (\<forall>p < length (tacs s). quad_of (tacs s' ! p) = aimed cs l p (quad_of (tacs s ! p)))"
proof -
  let ?n = "length (tacs s)"
  let ?lab = "(TAC_LABEL, Var (length (symbs s)), Null, Null)"
  let ?bfunc = "(TAC_BEGINFUNC, Null, Null, Null)"
  let ?efunc = "(TAC_ENDFUNC, Null, Null, Null)"
  let ?s1 = "with_tac ?efunc (with_tac ?bfunc (with_label s))"
  let ?s2 = "relink (Suc ?n) (Some ?n) ?s1"
  have below: "\<forall>p \<in> set xs \<union> set ys. p < ?n" using assms(6,7) is_code_bound by blast
  have new: "p \<noteq> ?n \<and> p \<noteq> Suc ?n \<and> p \<noteq> Suc (Suc ?n)" if "p \<in> set xs \<union> set ys" for p
    using bspec [OF below that] by simp
  have tn: "tacs ?s1 ! ?n = tacs (with_label s) ! ?n" by simp
  have tnp: "t_prev (tacs (with_label s) ! ?n) = None"
    by (simp add: with_label_def with_tac_def nth_append)
  have qs: "quad_of (tacs ?s1 ! ?n) = ?lab" "quad_of (tacs ?s1 ! Suc ?n) = ?bfunc"
    "quad_of (tacs ?s1 ! Suc (Suc ?n)) = ?efunc"
    using with_tac_simps(3) [of ?efunc "with_tac ?bfunc (with_label s)"]
      with_tac_simps(3) [of ?bfunc "with_label s"] by simp_all
  have "is_code ?s1 (Some ?n) [?n] [?lab]"
    using tn tnp by (simp add: is_code_def)
  from is_code_relink [OF this, of "Suc ?n"] qs(2)
  have c0: "is_code ?s2 (Some (Suc ?n)) [Suc ?n, ?n] [?lab, ?bfunc]" by simp
  have frame: "is_code ?s2 t ps q" if "is_code s t ps q" "set ps \<subseteq> set xs \<union> set ys" for t ps q
  proof (rule is_code_frame)
    show "is_code ?s1 t ps q" by (intro is_code_with_tac is_code_with_label that)
    show "\<forall>p \<in> set ps. tacs ?s2 ! p = tacs ?s1 ! p" using new that(2) by (simp add: subset_iff)
  qed simp
  from is_code_join [OF frame [OF assms(6)] frame [OF assms(7)] assms(8)] obtain t3 s3 h3 where j3:
    "join_tac args cod ?s2 = Some (t3, s3)" "is_code s3 t3 (ys @ xs) (qa @ qb)"
    "s3 = ?s2\<lparr>tacs := h3\<rparr>" "length h3 = length (tacs ?s2)"
    "\<forall>p. quad_of (h3 ! p) = quad_of (tacs ?s2 ! p)" "\<forall>p. p \<notin> set ys \<longrightarrow> h3 ! p = tacs ?s2 ! p"
    by auto
  have "is_code s3 (Some (Suc ?n)) [Suc ?n, ?n] [?lab, ?bfunc]"
  proof (rule is_code_frame [OF c0])
    have "?n \<notin> set ys" "Suc ?n \<notin> set ys" using new by blast+
    then show "\<forall>p \<in> set [Suc ?n, ?n]. tacs s3 ! p = tacs ?s2 ! p" using j3(3,6) by simp
  qed (simp add: j3(3,4))
  moreover have "set [Suc ?n, ?n] \<inter> set (ys @ xs) = {}" using new by auto
  ultimately obtain t4 s4 h4 where j4:
    "join_tac (Some (Suc ?n)) t3 s3 = Some (t4, s4)"
    "is_code s4 t4 ((ys @ xs) @ [Suc ?n, ?n]) ([?lab, ?bfunc] @ qa @ qb)"
    "s4 = s3\<lparr>tacs := h4\<rparr>" "length h4 = length (tacs s3)"
    "\<forall>p. quad_of (h4 ! p) = quad_of (tacs s3 ! p)"
    using is_code_join [OF _ j3(2), of "Some (Suc ?n)" "[Suc ?n, ?n]" "[?lab, ?bfunc]"] by blast
  have q4: "quad_of (tacs s4 ! p) = quad_of (tacs ?s1 ! p)" for p
    using j3(3,5) j4(3,5) by simp
  let ?s5 = "relink (Suc (Suc ?n)) t4 s4"
  have len: "length (tacs s4) = Suc (Suc (Suc ?n))" using j3(3,4) j4(3,4) by simp
  have "Suc (Suc ?n) \<notin> set ((ys @ xs) @ [Suc ?n, ?n])" using new by auto
  from is_code_relink [OF j4(2) _ this] len q4 qs(3)
  have c5: "is_code ?s5 (Some (Suc (Suc ?n))) (Suc (Suc ?n) # ys @ xs @ [Suc ?n, ?n])
      ([?lab, ?bfunc] @ qa @ qb @ [?efunc])" by simp
  have q5: "quad_of (tacs ?s5 ! p) = quad_of (tacs ?s1 ! p)" for p using q4 by simp
  then have q5s: "quad_of (tacs ?s5 ! p) = quad_of (tacs s ! p)" if "p < ?n" for p
    using that by simp
  have cs: "\<forall>c \<in> set cs. c < ?n"
    using assms(5) by (induction "tacs s" waiting cs rule: call_chain.induct) (auto split: option.splits)
  have "call_chain (tacs ?s5) waiting cs"
    using assms(5) cs q5s len by (intro call_chain_frame [OF assms(5)]) (auto simp: quad_of_def)
  note bp = backpatch_all [OF this, of ?n]
  let ?h = "patched cs ?n (tacs ?s5)"
  let ?f = "(symbs s ! func)\<lparr>s_type := T_FUNC, s_val2 := LabV (Some ?n)\<rparr>"
  let ?s6 = "set_symb func ?f (?s5\<lparr>tacs := ?h\<rparr>)"
  have sy: "symbs ?s5 = symbs (with_label s)" using j3(3) j4(3) by simp
  then have f5: "symb_at func ?s5 = Some (symbs s ! func)"
    using assms(2) by (simp add: symb_at_def nth_append)
  have "do_func func args cod s = Some (Some (Suc (Suc ?n)), ?s6)"
    using assms(1-4) j3(1,3,4) j4(1,3,4) f5 bp len
    by (simp add: do_func_def symb_at_def [of _ s] new_label_with_label mktac_with_tac set_prev_relink)
  moreover have "is_code ?s6 (Some (Suc (Suc ?n))) (Suc (Suc ?n) # ys @ xs @ [Suc ?n, ?n])
      ([?lab, ?bfunc] @ aim_code cs ?n xs qa @ aim_code cs ?n ys qb @ [?efunc])"
  proof -
    have "is_code ?s6 t ps qs = is_code (?s5\<lparr>tacs := ?h\<rparr>) t ps qs" for t ps qs
      by (intro is_code_tacs) (simp add: set_symb_def)
    moreover have "aim_code cs ?n (Suc (Suc ?n) # ys @ xs @ [Suc ?n, ?n]) ([?lab, ?bfunc] @ qa @ qb @ [?efunc]) =
        [?lab, ?bfunc] @ aim_code cs ?n xs qa @ aim_code cs ?n ys qb @ [?efunc]"
    proof -
      have "aim_code cs ?n ([Suc (Suc ?n)] @ ys @ xs @ [Suc ?n, ?n]) ([?lab, ?bfunc] @ qa @ qb @ [?efunc]) =
          aim_code cs ?n [Suc ?n, ?n] [?lab, ?bfunc] @ aim_code cs ?n xs qa @ aim_code cs ?n ys qb @
          aim_code cs ?n [Suc (Suc ?n)] [?efunc]"
        using is_code_length [OF assms(6)] is_code_length [OF assms(7)]
          aim_code_append [of "ys @ xs @ [Suc ?n, ?n]" "[?lab, ?bfunc] @ qa @ qb" "[Suc (Suc ?n)]" "[?efunc]" cs ?n]
          aim_code_append [of "xs @ [Suc ?n, ?n]" "[?lab, ?bfunc] @ qa" ys qb cs ?n]
          aim_code_append [of "[Suc ?n, ?n]" "[?lab, ?bfunc]" xs qa cs ?n]
        by simp
      moreover have "aim_code cs ?n [Suc ?n, ?n] [?lab, ?bfunc] = [?lab, ?bfunc]"
        and "aim_code cs ?n [Suc (Suc ?n)] [?efunc] = [?efunc]"
        using cs by (auto intro!: aim_code_fresh)
      ultimately show ?thesis by simp
    qed
    ultimately show ?thesis using is_code_patched [OF c5, of cs ?n] by simp
  qed
  moreover have v: "label_is ?s6 (length (symbs s)) (next_label s)"
    using assms(2) sy by (simp add: label_is_def set_symb_def nth_append)
  moreover have "label_number (Lab ?n) ?s6 = Some (next_label s)"
  proof -
    have "tacs ?s6 ! ?n = tacs ?s5 ! ?n" using cs len by (auto simp: set_symb_def)
    then have "quad_of (tacs ?s6 ! ?n) = ?lab" using q5 qs(1) by simp
    with v show ?thesis using len by (intro label_number_of) (simp_all add: set_symb_def)
  qed
  moreover have "s_type (symbs ?s6 ! func) = T_FUNC" "s_val2 (symbs ?s6 ! func) = LabV (Some ?n)"
    using assms(2) sy by (simp_all add: set_symb_def)
  moreover have "\<forall>p < ?n. quad_of (tacs ?s6 ! p) = aimed cs ?n p (quad_of (tacs s ! p))"
    using q5s len by (simp add: set_symb_def quad_of_patched del: patched_simps(2))
  ultimately show ?thesis by blast
qed

lemma do_bin_const:
  assumes "consts_ok s" and "symb_list s = None"
    and "e1 < length (enodes s)" and "e2 < length (enodes s)" and "e1 \<noteq> e2"
    and "res_symb (enodes s ! e1) s = Some r1" and "s_type r1 = T_INT" and "s_val1 r1 = IntV x"
    and "res_symb (enodes s ! e2) s = Some r2" and "s_type r2 = T_INT" and "s_val1 r2 = IntV y"
    and "fold_const binop x y = Some v"
  shows "\<exists>s' r. do_bin binop (Some e1) (Some e2) s = Some (Some e1, s') \<and>
     res_symb (enodes s' ! e1) s' = Some r \<and> s_type r = T_INT \<and> s_val1 r = IntV v \<and>
     e_tac (enodes s' ! e1) = e_tac (enodes s ! e1) \<and> tacs s' = tacs s \<and> consts_ok s'"
proof -
  obtain c s1 where c: "mkconst v s = Some (c, s1)" "c < length (symbs s1)" "s_type (symbs s1 ! c) = T_INT"
    "s_val1 (symbs s1 ! c) = IntV v" "consts_ok s1" "enodes s1 = enodes s" "tacs s1 = tacs s"
    using mkconst_ok [OF assms(1,2), of v] by blast
  let ?s2 = "set_enode e1 ((enodes s ! e1)\<lparr>e_res := Some c\<rparr>) s1"
  let ?s3 = "(set_enode e2 ((enodes s ! e2)\<lparr>e_next := enode_list ?s2\<rparr>) ?s2)\<lparr>enode_list := Some e2\<rparr>"
  have free: "free_enode e2 ?s2 = Some ?s3"
    using assms(4,5) c(6) by (simp add: free_enode_def enode_at_def set_enode_def)
  have "do_bin binop (Some e1) (Some e2) s = Some (Some e1, ?s3)"
    using assms(3,4,6-12) c(1) free by (simp add: do_bin_def enode_at_def)
  moreover have "res_symb (enodes ?s3 ! e1) ?s3 = Some (symbs s1 ! c)"
    using assms(3,5) c(2,6) by (simp add: set_enode_def res_symb_def symb_at_def)
  moreover have "e_tac (enodes ?s3 ! e1) = e_tac (enodes s ! e1)"
    using assms(3,5) c(6) by (simp add: set_enode_def)
  moreover have "tacs ?s3 = tacs s" "consts_ok ?s3"
    using c(5,7) by (simp_all add: set_enode_def consts_ok_def)
  ultimately show ?thesis using c(3,4) by blast
qed

text \<open>C27: The code of a loop: a WHILE statement becomes a label, the code of the condition, a branch
  on zero to a second label, the code of the body, a jump to the first label, and the second
  label, and the two labels have fresh, different numbers.\<close>

theorem while_layout:
  assumes "symb_list s = None" and "e < length (enodes s)"
    and "is_code s (e_tac (enodes s ! e)) xs cond" and "is_code s stmt ys body"
    and "set xs \<inter> set ys = {}"
  shows "\<exists>t zs l0 l1 v0 v1 s'. do_while (Some e) stmt s = Some (Some t, s') \<and>
     is_code s' (Some t) zs
       ([(TAC_LABEL, Var v0, Null, Null)] @ cond @
        [(TAC_IFZ, Lab l1, symb_arg (e_res (enodes s ! e)), Null)] @ body @
        [(TAC_GOTO, Lab l0, Null, Null), (TAC_LABEL, Var v1, Null, Null)]) \<and>
     label_number (Lab l0) s' = Some (next_label s) \<and> label_is s' v0 (next_label s) \<and>
     label_number (Lab l1) s' = Some (next_label s + 1) \<and> label_is s' v1 (next_label s + 1)"
  using assms by (rule do_while_code)

text \<open>A state with one variable, x, an expression node for it and the code of a return.\<close>

definition small_state :: vc where
  "small_state = blank_vc\<lparr>
     symbs := [\<lparr>s_next = None, s_type = T_VAR, s_val1 = TextV ''x'', s_val2 = ValV (- 1)\<rparr>,
               \<lparr>s_next = None, s_type = T_UNDEF, s_val1 = TextV ''f'', s_val2 = LabV (Some 1)\<rparr>],
     tacs := [\<lparr>t_next = None, t_prev = None, t_op = TAC_RETURN, t_a = Var 0, t_b = Null, t_c = Null\<rparr>,
              \<lparr>t_next = None, t_prev = None, t_op = TAC_CALL, t_a = Var 0, t_b = Null, t_c = Null\<rparr>],
     enodes := [\<lparr>e_next = None, e_tac = None, e_res = Some 0\<rparr>], next_label := 10\<rparr>"

theorem while_layout_witness:
  "\<exists>t zs l0 l1 v0 v1 s'. do_while (Some 0) (Some 0) small_state = Some (Some t, s') \<and>
     is_code s' (Some t) zs
       ([(TAC_LABEL, Var v0, Null, Null), (TAC_IFZ, Lab l1, Var 0, Null),
         (TAC_RETURN, Var 0, Null, Null), (TAC_GOTO, Lab l0, Null, Null),
         (TAC_LABEL, Var v1, Null, Null)]) \<and>
     label_number (Lab l0) s' = Some 10 \<and> label_number (Lab l1) s' = Some 11"
proof -
  have "symb_list small_state = None" "0 < length (enodes small_state)"
    "is_code small_state (e_tac (enodes small_state ! 0)) [] []"
    "is_code small_state (Some 0) [0] [(TAC_RETURN, Var 0, Null, Null)]" "set [] \<inter> set [0::nat] = {}"
    by (simp_all add: small_state_def blank_vc_def is_code_def quad_of_def)
  from while_layout [OF this] obtain t zs l0 l1 v0 v1 s' where
    w: "do_while (Some 0) (Some 0) small_state = Some (Some t, s')"
    "is_code s' (Some t) zs ([(TAC_LABEL, Var v0, Null, Null)] @ [] @
        [(TAC_IFZ, Lab l1, symb_arg (e_res (enodes small_state ! 0)), Null)] @
        [(TAC_RETURN, Var 0, Null, Null)] @
        [(TAC_GOTO, Lab l0, Null, Null), (TAC_LABEL, Var v1, Null, Null)])"
    "label_number (Lab l0) s' = Some (next_label small_state)"
    "label_number (Lab l1) s' = Some (next_label small_state + 1)" by blast
  have "symb_arg (e_res (enodes small_state ! 0)) = Var 0" "next_label small_state = 10"
    by (simp_all add: small_state_def)
  with w have "is_code s' (Some t) zs
       [(TAC_LABEL, Var v0, Null, Null), (TAC_IFZ, Lab l1, Var 0, Null),
         (TAC_RETURN, Var 0, Null, Null), (TAC_GOTO, Lab l0, Null, Null),
         (TAC_LABEL, Var v1, Null, Null)]"
    "label_number (Lab l0) s' = Some 10" "label_number (Lab l1) s' = Some 11" by simp_all
  with w(1) show ?thesis by blast
qed

text \<open>C17: Declaring a function backpatches it. Its code is a fresh label, the begin marker, exactly the
  instructions of the parameters and of the body, and the end marker; the symbol becomes a function
  whose label is the instruction at the head of that code; and every call that was waiting for the
  function is aimed at that label, whether it is in the body or elsewhere, while no other
  existing instruction changes.\<close>

theorem do_func_backpatches:
  assumes "symb_list s = None" and "func < length (symbs s)" and "s_type (symbs s ! func) = T_UNDEF"
    and "s_val2 (symbs s ! func) = LabV waiting" and "call_chain (tacs s) waiting cs"
    and "is_code s args xs qa" and "is_code s cod ys qb" and "set xs \<inter> set ys = {}"
  shows "\<exists>t b l v s'. do_func func args cod s = Some (Some t, s') \<and>
     is_code s' (Some t) (t # ys @ xs @ [b, l])
       ([(TAC_LABEL, Var v, Null, Null), (TAC_BEGINFUNC, Null, Null, Null)] @
        aim_code cs l xs qa @ aim_code cs l ys qb @ [(TAC_ENDFUNC, Null, Null, Null)]) \<and>
     label_is s' v (next_label s) \<and> label_number (Lab l) s' = Some (next_label s) \<and>
     s_type (symbs s' ! func) = T_FUNC \<and> s_val2 (symbs s' ! func) = LabV (Some l) \<and>
     (\<forall>p < length (tacs s). quad_of (tacs s' ! p) = aimed cs l p (quad_of (tacs s ! p)))"
  using assms by (rule do_func_code)

theorem do_func_backpatches_witness:
  "\<exists>t b l v s'. do_func 1 None (Some 0) small_state = Some (Some t, s') \<and>
     is_code s' (Some t) [t, 0, b, l]
       [(TAC_LABEL, Var v, Null, Null), (TAC_BEGINFUNC, Null, Null, Null),
        (TAC_RETURN, Var 0, Null, Null), (TAC_ENDFUNC, Null, Null, Null)] \<and>
     label_is s' v 10 \<and> s_type (symbs s' ! 1) = T_FUNC \<and> s_val2 (symbs s' ! 1) = LabV (Some l) \<and>
     quad_of (tacs s' ! 1) = (TAC_CALL, Var 0, Lab l, Null)"
proof -
  have "call_chain (tacs small_state) (Some 1) [1]" by (simp add: small_state_def)
  moreover have "is_code small_state None [] []"
    "is_code small_state (Some 0) [0] [(TAC_RETURN, Var 0, Null, Null)]"
    by (simp_all add: is_code_def small_state_def quad_of_def)
  ultimately obtain t b l v s' where w: "do_func 1 None (Some 0) small_state = Some (Some t, s')"
    "is_code s' (Some t) (t # [0] @ [] @ [b, l])
       ([(TAC_LABEL, Var v, Null, Null), (TAC_BEGINFUNC, Null, Null, Null)] @ aim_code [1] l [] [] @
        aim_code [1] l [0] [(TAC_RETURN, Var 0, Null, Null)] @ [(TAC_ENDFUNC, Null, Null, Null)])"
    "label_is s' v (next_label small_state)" "s_type (symbs s' ! 1) = T_FUNC"
    "s_val2 (symbs s' ! 1) = LabV (Some l)"
    "\<forall>p < length (tacs small_state). quad_of (tacs s' ! p) = aimed [1] l p (quad_of (tacs small_state ! p))"
    using do_func_backpatches [of small_state 1 "Some 1" "[1]" None "[]" "[]" "Some 0" "[0]"
        "[(TAC_RETURN, Var 0, Null, Null)]"]
    by (auto simp: small_state_def blank_vc_def)
  have "quad_of (tacs s' ! 1) = (TAC_CALL, Var 0, Lab l, Null)"
    using w(6) by (simp add: small_state_def aimed_def quad_of_def)
  moreover have "next_label small_state = 10" by (simp add: small_state_def)
  ultimately show ?thesis using w(1-5) by (auto simp: aim_code_def aimed_def simp del: prev_chain.simps)
qed

text \<open>C28: Constant folding: an operator applied to two integer constants adds no code, and the result
  is a constant of the operator's value: sum, difference and product modulo 2^32 and the signed
  quotient rounded towards zero; the shared table of small constants keeps its values. A division by
  zero, or of the least integer by -1, is undefined at compile time.\<close>

theorem do_bin_folds:
  assumes "consts_ok s" and "symb_list s = None"
    and "e1 < length (enodes s)" and "e2 < length (enodes s)" and "e1 \<noteq> e2"
    and "res_symb (enodes s ! e1) s = Some r1" and "s_type r1 = T_INT" and "s_val1 r1 = IntV x"
    and "res_symb (enodes s ! e2) s = Some r2" and "s_type r2 = T_INT" and "s_val1 r2 = IntV y"
    and "binop \<in> {TAC_ADD, TAC_SUB, TAC_MUL, TAC_DIV}"
  shows "if binop = TAC_DIV \<and> (y = 0 \<or> x = 0x80000000 \<and> y = - 1)
    then do_bin binop (Some e1) (Some e2) s = None
    else \<exists>s' r. do_bin binop (Some e1) (Some e2) s = Some (Some e1, s') \<and>
      res_symb (enodes s' ! e1) s' = Some r \<and> s_type r = T_INT \<and>
      s_val1 r = IntV (if binop = TAC_ADD then x + y else if binop = TAC_SUB then x - y
        else if binop = TAC_MUL then x * y else word_of_int (sint x sdiv sint y)) \<and>
      e_tac (enodes s' ! e1) = e_tac (enodes s ! e1) \<and> tacs s' = tacs s \<and> consts_ok s'"
proof -
  have "do_bin binop (Some e1) (Some e2) s = None" if "fold_const binop x y = None"
    using assms(3,4,6-11) that by (simp add: do_bin_def enode_at_def)
  with do_bin_const [OF assms(1-11)] assms(12) show ?thesis
    by (auto simp: fold_const_def)
qed

theorem do_bin_folds_witness:
  "\<exists>(s::vc) s' r. do_bin TAC_DIV (Some 0) (Some 1) s = Some (Some 0, s') \<and>
     res_symb (enodes s' ! 0) s' = Some r \<and> s_val1 r = IntV (- 2) \<and> consts_ok s'"
proof -
  let ?int = "\<lambda>n. \<lparr>s_next = None, s_type = T_INT, s_val1 = IntV n, s_val2 = LabV None\<rparr>"
  let ?s = "blank_vc\<lparr>symbs := map ?int [0, 1, 2, 3, 4, - 4], const_tab := [0, 1, 2, 3, 4],
      enodes := [\<lparr>e_next = None, e_tac = None, e_res = Some 5\<rparr>, \<lparr>e_next = None, e_tac = None, e_res = Some 2\<rparr>]\<rparr>"
  have small: "i = 0 \<or> i = 1 \<or> i = 2 \<or> i = 3 \<or> i = 4" if "i < (5::nat)" for i
    using that by linarith
  have "consts_ok ?s" by (auto simp: consts_ok_def CONST_MAX_def dest!: small)
  moreover have "sint (- 4 :: u32) sdiv sint (2 :: u32) = - 2" by simp
  ultimately show ?thesis
    using do_bin_folds [where ?s = ?s and ?e1.0 = 0 and ?e2.0 = 1 and ?r1.0 = "?int (- 4)" and ?r2.0 = "?int 2"
        and x = "- 4" and y = 2 and binop = TAC_DIV]
    by (simp add: blank_vc_def res_symb_def symb_at_def) blast
qed

text \<open>C35: Negating a small constant changes the constant for the rest of the program: the constants 1
  to 4 (like 0, which negation does not change) are shared symbols, and when an expression whose
  result is one of them is negated, its value is changed in place, so that every later use of the
  same constant in the source reads minus its value.\<close>

theorem negation_corrupts_constant:
  assumes "consts_ok s" and "e < length (enodes s)" and "0 < i" and "i < CONST_MAX"
    and "mkconst (of_nat i) s = Some (p, s)" and "e_res (enodes s ! e) = Some p"
  shows "\<exists>s'. s_val1 (symbs s ! p) = IntV (of_nat i) \<and> do_un TAC_NEG (Some e) s = Some (Some e, s') \<and>
     mkconst (of_nat i) s' = Some (p, s') \<and> s_val1 (symbs s' ! p) = IntV (- of_nat i) \<and>
     - of_nat i \<noteq> (of_nat i :: u32)"
proof -
  have i: "i = 1 \<or> i = 2 \<or> i = 3 \<or> i = 4" using assms(3,4) by (auto simp: CONST_MAX_def)
  then have shared: "mkconst (of_nat i) t = Some (const_tab t ! i, t)" for t :: "'a vc_scheme"
    by (auto simp: mkconst_def CONST_MAX_def)
  with assms(5) have p: "p = const_tab s ! i" by simp
  then have sp: "p < length (symbs s)" "s_type (symbs s ! p) = T_INT" "s_val1 (symbs s ! p) = IntV (of_nat i)"
    using assms(1,4) by (auto simp: consts_ok_def)
  let ?s = "set_symb p ((symbs s ! p)\<lparr>s_val1 := IntV (- of_nat i)\<rparr>) s"
  have "do_un TAC_NEG (Some e) s = Some (Some e, ?s)"
    using assms(2,6) sp by (simp add: do_un_def enode_at_def symb_at_def)
  moreover have "s_val1 (symbs ?s ! p) = IntV (- of_nat i)" "const_tab ?s = const_tab s"
    using sp(1) by (simp_all add: set_symb_def)
  moreover have "- of_nat i \<noteq> (of_nat i :: u32)" using i by auto
  ultimately show ?thesis using shared [of ?s] sp(3) p by auto
qed

theorem negation_corrupts_constant_witness:
  "\<exists>(s::vc) p s'. mkconst 3 s = Some (p, s) \<and> s_val1 (symbs s ! p) = IntV 3 \<and>
     do_un TAC_NEG (Some 0) s = Some (Some 0, s') \<and>
     mkconst 3 s' = Some (p, s') \<and> s_val1 (symbs s' ! p) = IntV (- 3)"
proof -
  let ?int = "\<lambda>n. \<lparr>s_next = None, s_type = T_INT, s_val1 = IntV n, s_val2 = LabV None\<rparr>"
  let ?s = "blank_vc\<lparr>symbs := map ?int [0, 1, 2, 3, 4], const_tab := [0, 1, 2, 3, 4],
      enodes := [\<lparr>e_next = None, e_tac = None, e_res = Some 3\<rparr>]\<rparr>"
  have small: "i = 0 \<or> i = 1 \<or> i = 2 \<or> i = 3 \<or> i = 4" if "i < (5::nat)" for i
    using that by linarith
  have "consts_ok ?s" by (auto simp: consts_ok_def CONST_MAX_def dest!: small)
  moreover have "mkconst (of_nat 3) ?s = Some (3, ?s)"
    by (simp add: mkconst_def CONST_MAX_def)
  ultimately obtain s' where w: "s_val1 (symbs ?s ! 3) = IntV (of_nat 3)"
    "do_un TAC_NEG (Some 0) ?s = Some (Some 0, s')" "mkconst (of_nat 3) s' = Some (3, s')"
    "s_val1 (symbs s' ! 3) = IntV (- of_nat 3)"
    using negation_corrupts_constant [of ?s 0 3 3] by (auto simp: CONST_MAX_def)
  show ?thesis
  proof (intro exI conjI)
    show "mkconst 3 ?s = Some (3, ?s)" by (simp add: mkconst_def CONST_MAX_def)
  qed (use w in simp_all)
qed

end
