(* ===== verification/VC_Cg.thy ===== *)
theory VC_Cg
  imports VC_Data VAS
begin

text \<open>
  The code generator of the VSL compiler (\<open>csibe/src/compiler/cg.c\<close>): the register descriptor, the
  stack frame counters, and the lines of assembler text it prints, over the compiler's globals.
\<close>

section \<open>State\<close>

definition R_ZERO :: nat where "R_ZERO = 0"
definition R_P :: nat where "R_P = 1"
definition R_CALL :: nat where "R_CALL = 2"
definition R_RET :: nat where "R_RET = 3"
definition R_RES :: nat where "R_RES = 4"
definition R_GEN :: nat where "R_GEN = 5"
definition R_MAX :: nat where "R_MAX = 16"

lemmas cg_regs = R_ZERO_def R_P_def R_CALL_def R_RET_def R_RES_def R_GEN_def R_MAX_def

definition P_OFF :: u32 where "P_OFF = 0"
definition PC_OFF :: u32 where "PC_OFF = 4"
definition VAR_OFF :: u32 where "VAR_OFF = 8"

text \<open>A line printed: an instruction, a label, or text copied as it is.\<close>

datatype line = Code asm | LabelLine u32 | Text string

record cg = vc +
  rdesc :: "(nat option \<times> bool) list"
  tos :: u32
  next_arg :: u32
  lines :: "line list"

abbreviation rname :: "'a cg_scheme \<Rightarrow> nat \<Rightarrow> nat option" where
  "rname s r \<equiv> fst (rdesc s ! r)"

abbreviation rmod :: "'a cg_scheme \<Rightarrow> nat \<Rightarrow> bool" where
  "rmod s r \<equiv> snd (rdesc s ! r)"

definition emit :: "line \<Rightarrow> 'a cg_scheme \<Rightarrow> 'a cg_scheme" where
  "emit l s = s\<lparr>lines := lines s @ [l]\<rparr>"

abbreviation ins :: "asm \<Rightarrow> 'a cg_scheme \<Rightarrow> 'a cg_scheme" where
  "ins i \<equiv> emit (Code i)"

abbreviation R :: "nat \<Rightarrow> u32" where "R \<equiv> of_nat"

section \<open>The text of a line\<close>

definition two_regs :: "string \<Rightarrow> u32 \<Rightarrow> u32 \<Rightarrow> string" where
  "two_regs op x y = ''       '' @ op @ ''  R'' @ show_u x @ '',R'' @ show_u y @ eol"

definition branch_text :: "string \<Rightarrow> string \<Rightarrow> string" where
  "branch_text op target = ''       '' @ op @ ''  '' @ target @ eol"

fun render_asm :: "asm \<Rightarrow> string" where
  "render_asm AHALT = ''       HALT'' @ eol"
| "render_asm ANOP = ''       NOP'' @ eol"
| "render_asm ATRAP = ''       TRAP'' @ eol"
| "render_asm (AADD x y) = two_regs ''ADD'' x y"
| "render_asm (ASUB x y) = two_regs ''SUB'' x y"
| "render_asm (AMUL x y) = two_regs ''MUL'' x y"
| "render_asm (ADIV x y) = two_regs ''DIV'' x y"
| "render_asm (ALDR x y) = two_regs ''LDR'' x y"
| "render_asm (ABAL x y) = two_regs ''BAL'' x y"
| "render_asm (ASTI x d y) =
     ''       STI  R'' @ show_u x @ '','' @ show_u d @ ''(R'' @ show_u y @ '')'' @ eol"
| "render_asm (ASTI_L x l) = ''       STI  R'' @ show_u x @ '',L'' @ show_u l @ eol"
| "render_asm (ALDI d x y) =
     ''       LDI  '' @ show_u d @ ''(R'' @ show_u x @ ''),R'' @ show_u y @ eol"
| "render_asm (ALDI_L l y) = ''       LDI  L'' @ show_u l @ '',R'' @ show_u y @ eol"
| "render_asm (ALDA d x y) =
     ''       LDA  '' @ show_u d @ ''(R'' @ show_u x @ ''),R'' @ show_u y @ eol"
| "render_asm (ALDA_L l y) = ''       LDA  L'' @ show_u l @ '',R'' @ show_u y @ eol"
| "render_asm (ABZE d) = branch_text ''BZE'' (show_u d)"
| "render_asm (ABNZ d) = branch_text ''BNZ'' (show_u d)"
| "render_asm (ABRA d) = branch_text ''BRA'' (show_u d)"
| "render_asm (ABZE_L l) = branch_text ''BZE'' (CHR ''L'' # show_u l)"
| "render_asm (ABNZ_L l) = branch_text ''BNZ'' (CHR ''L'' # show_u l)"
| "render_asm (ABRA_L l) = branch_text ''BRA'' (CHR ''L'' # show_u l)"
| "render_asm (ADB n) = ''       DB   '' @ show_u n @ eol"

fun render :: "line \<Rightarrow> string" where
  "render (Code i) = render_asm i"
| "render (LabelLine l) = CHR ''L'' # show_u l @ '':'' @ eol"
| "render (Text t) = t"

section \<open>The register descriptor\<close>

definition clear_desc :: "nat \<Rightarrow> 'a cg_scheme \<Rightarrow> 'a cg_scheme" where
  "clear_desc r s = s\<lparr>rdesc := (rdesc s)[r := (None, rmod s r)]\<rparr>"

text \<open>
  The two search loops: registers that hold the name are cleared, the second and later ones with a
  complaint.
\<close>

definition insert_desc :: "nat \<Rightarrow> nat option \<Rightarrow> bool \<Rightarrow> 'a cg_scheme \<Rightarrow> 'a cg_scheme" where
  "insert_desc r n md s =
     (let hits = filter (\<lambda>q. rname s q = n) [R_GEN..<R_MAX];
          s = fold clear_desc hits s;
          s = fold (\<lambda>_. error ''Duplicate slave found'') (tl hits) s
      in s\<lparr>rdesc := (rdesc s)[r := (n, md)]\<rparr>)"

definition spill_one :: "nat \<Rightarrow> 'a cg_scheme \<Rightarrow> 'a cg_scheme option" where
  "spill_one r s =
     (case rname s r of
        None \<Rightarrow> Some s
      | Some n \<Rightarrow>
          if rmod s r
          then do {
            x \<leftarrow> symb_at n s;
            a \<leftarrow> ADDR2 x;
            (let s = ins (ASTI (R r) a (R R_P)) s
             in Some (s\<lparr>rdesc := (rdesc s)[r := (Some n, False)]\<rparr>))
          }
          else Some s)"

fun spill_each :: "nat list \<Rightarrow> 'a cg_scheme \<Rightarrow> 'a cg_scheme option" where
  "spill_each [] s = Some s"
| "spill_each (r # rs) s = do { s \<leftarrow> spill_one r s; spill_each rs s }"

definition spill_all :: "'a cg_scheme \<Rightarrow> 'a cg_scheme option" where
  "spill_all s = spill_each [R_GEN..<R_MAX] s"

definition flush_all :: "'a cg_scheme \<Rightarrow> 'a cg_scheme option" where
  "flush_all s = do {
     s \<leftarrow> spill_all s;
     Some (clear_desc R_RES (fold clear_desc [R_GEN..<R_MAX] s))
   }"

definition load_reg :: "nat \<Rightarrow> nat option \<Rightarrow> 'a cg_scheme \<Rightarrow> 'a cg_scheme option" where
  "load_reg r n s =
     (case List.find (\<lambda>q. rname s q = n) [0..<R_MAX] of
        Some q \<Rightarrow> Some (insert_desc r n (rmod s q) (ins (ALDR (R q) (R r)) s))
      | None \<Rightarrow> do {
          p \<leftarrow> n;
          x \<leftarrow> symb_at p s;
          s \<leftarrow> (case s_type x of
                 T_INT \<Rightarrow> do { v \<leftarrow> VAL1 x; Some (ins (ALDA v 0 (R r)) s) }
               | T_VAR \<Rightarrow> do { a \<leftarrow> ADDR2 x; Some (ins (ALDI a (R R_P) (R r)) s) }
               | T_TEXT \<Rightarrow> do { l \<leftarrow> ADDR2 x; Some (ins (ALDA_L l (R r)) s) }
               | _ \<Rightarrow> Some s);
          Some (insert_desc r n False s)
        })"

definition get_rreg :: "nat option \<Rightarrow> 'a cg_scheme \<Rightarrow> (nat \<times> 'a cg_scheme) option" where
  "get_rreg c s =
     (case List.find (\<lambda>r. rname s r = c) [R_GEN..<R_MAX] of
        Some r \<Rightarrow> do { s \<leftarrow> spill_one r s; Some (r, s) }
      | None \<Rightarrow>
          (case List.find (\<lambda>r. rname s r = None) [R_GEN..<R_MAX] of
             Some r \<Rightarrow> do { s \<leftarrow> load_reg r c s; Some (r, s) }
           | None \<Rightarrow>
               (case List.find (\<lambda>r. \<not> rmod s r) [R_GEN..<R_MAX] of
                  Some r \<Rightarrow> do { s \<leftarrow> load_reg r c (clear_desc r s); Some (r, s) }
                | None \<Rightarrow> do {
                    s \<leftarrow> spill_one R_GEN s;
                    s \<leftarrow> load_reg R_GEN c (clear_desc R_GEN s);
                    Some (R_GEN, s)
                  })))"

definition get_areg :: "nat option \<Rightarrow> nat \<Rightarrow> 'a cg_scheme \<Rightarrow> (nat \<times> 'a cg_scheme) option" where
  "get_areg b cr s =
     (case List.find (\<lambda>r. rname s r = b) [R_ZERO..<R_MAX] of
        Some r \<Rightarrow> Some (r, s)
      | None \<Rightarrow>
          (case List.find (\<lambda>r. rname s r = None) [R_GEN..<R_MAX] of
             Some r \<Rightarrow> do { s \<leftarrow> load_reg r b s; Some (r, s) }
           | None \<Rightarrow>
               (case List.find (\<lambda>r. \<not> rmod s r \<and> r \<noteq> cr) [R_GEN..<R_MAX] of
                  Some r \<Rightarrow> do { s \<leftarrow> load_reg r b (clear_desc r s); Some (r, s) }
                | None \<Rightarrow> do {
                    r \<leftarrow> List.find (\<lambda>r. r \<noteq> cr) [R_GEN..<R_MAX];
                    s \<leftarrow> spill_one r s;
                    s \<leftarrow> load_reg r b (clear_desc r s);
                    Some (r, s)
                  })))"

section \<open>Instructions\<close>

definition cg_bin ::
  "(u32 \<Rightarrow> u32 \<Rightarrow> asm) \<Rightarrow> nat option \<Rightarrow> nat option \<Rightarrow> nat option \<Rightarrow> 'a cg_scheme \<Rightarrow> 'a cg_scheme option" where
  "cg_bin op a b c s = do {
     (cr, s) \<leftarrow> get_rreg c s;
     (br, s) \<leftarrow> get_areg b cr s;
     (let s = ins (op (R br) (R cr)) s
      in Some (insert_desc cr a True (clear_desc cr s)))
   }"

definition cg_copy :: "nat option \<Rightarrow> nat option \<Rightarrow> 'a cg_scheme \<Rightarrow> 'a cg_scheme option" where
  "cg_copy a b s = do { (br, s) \<leftarrow> get_rreg b s; Some (insert_desc br a True s) }"

definition cg_cond :: "(u32 \<Rightarrow> asm) \<Rightarrow> nat option \<Rightarrow> u32 \<Rightarrow> 'a cg_scheme \<Rightarrow> 'a cg_scheme option" where
  "cg_cond op a l s = do {
     s \<leftarrow> spill_all s;
     s \<leftarrow> (if a = None then Some s
          else (case List.find (\<lambda>r. rname s r = a) [R_GEN..<R_MAX] of
                  Some r \<Rightarrow> Some (ins (ALDR (R r) (R r)) s)
                | None \<Rightarrow> map_option snd (get_rreg a s)));
     Some (ins (op l) s)
   }"

definition cg_arg :: "nat option \<Rightarrow> 'a cg_scheme \<Rightarrow> 'a cg_scheme option" where
  "cg_arg a s = do {
     (r, s) \<leftarrow> get_rreg a s;
     (let s = ins (ASTI (R r) (tos s + VAR_OFF + next_arg s) (R R_P)) s
      in Some (s\<lparr>next_arg := next_arg s + 4\<rparr>))
   }"

definition cg_call :: "u32 \<Rightarrow> nat option \<Rightarrow> 'a cg_scheme \<Rightarrow> 'a cg_scheme option" where
  "cg_call f res s = do {
     s \<leftarrow> flush_all s;
     (let s = s\<lparr>next_arg := 0\<rparr>;
          s = ins (ALDA_L f (R R_CALL)) s;
          s = ins (ASTI (R R_P) (tos s) (R R_P)) s;
          s = ins (ALDA (tos s) (R R_P) (R R_P)) s;
          s = ins (ABAL (R R_CALL) (R R_RET)) s
      in Some (if res \<noteq> None then insert_desc R_RES res True s else s))
   }"

definition cg_return :: "nat option \<Rightarrow> 'a cg_scheme \<Rightarrow> 'a cg_scheme option" where
  "cg_return a s = do {
     s \<leftarrow> (if a \<noteq> None then do { s \<leftarrow> spill_one R_RES s; load_reg R_RES a s } else Some s);
     (let s = ins (ALDI PC_OFF (R R_P) (R R_CALL)) s;
          s = ins (ALDI P_OFF (R R_P) (R R_P)) s
      in Some (ins (ABAL (R R_CALL) (R R_RET)) s))
   }"

text \<open>Operands read as symbols, and the number of the label a branch or call goes to.\<close>

fun as_symb :: "arg \<Rightarrow> nat option option" where
  "as_symb Null = Some None"
| "as_symb (Var p) = Some (Some p)"
| "as_symb (Lab p) = None"

definition bin_instr ::
  "(u32 \<Rightarrow> u32 \<Rightarrow> asm) \<Rightarrow> tac \<Rightarrow> 'a cg_scheme \<Rightarrow> 'a cg_scheme option" where
  "bin_instr op c s = do {
     x \<leftarrow> as_symb (t_a c);
     y \<leftarrow> as_symb (t_b c);
     z \<leftarrow> as_symb (t_c c);
     cg_bin op x y z s
   }"

definition cg_instr :: "tac \<Rightarrow> 'a cg_scheme \<Rightarrow> 'a cg_scheme option" where
  "cg_instr c s =
     (case t_op c of
        TAC_UNDEF \<Rightarrow> Some (error ''cannot translate TAC_UNDEF'' s)
      | TAC_ADD \<Rightarrow> bin_instr AADD c s
      | TAC_SUB \<Rightarrow> bin_instr ASUB c s
      | TAC_MUL \<Rightarrow> bin_instr AMUL c s
      | TAC_DIV \<Rightarrow> bin_instr ADIV c s
      | TAC_NEG \<Rightarrow> do {
          x \<leftarrow> as_symb (t_a c);
          y \<leftarrow> as_symb (t_b c);
          (z, s) \<leftarrow> mkconst 0 s;
          cg_bin ASUB x (Some z) y s
        }
      | TAC_COPY \<Rightarrow> do { x \<leftarrow> as_symb (t_a c); y \<leftarrow> as_symb (t_b c); cg_copy x y s }
      | TAC_GOTO \<Rightarrow> do { l \<leftarrow> label_number (t_a c) s; cg_cond ABRA_L None l s }
      | TAC_IFZ \<Rightarrow> do { y \<leftarrow> as_symb (t_b c); l \<leftarrow> label_number (t_a c) s; cg_cond ABZE_L y l s }
      | TAC_IFNZ \<Rightarrow> do { y \<leftarrow> as_symb (t_b c); l \<leftarrow> label_number (t_a c) s; cg_cond ABNZ_L y l s }
      | TAC_ARG \<Rightarrow> do { x \<leftarrow> as_symb (t_a c); cg_arg x s }
      | TAC_CALL \<Rightarrow> do { l \<leftarrow> label_number (t_b c) s; x \<leftarrow> as_symb (t_a c); cg_call l x s }
      | TAC_RETURN \<Rightarrow> do { x \<leftarrow> as_symb (t_a c); cg_return x s }
      | TAC_LABEL \<Rightarrow> do {
          s \<leftarrow> flush_all s;
          p \<leftarrow> as_symb (t_a c);
          p \<leftarrow> p;
          x \<leftarrow> symb_at p s;
          l \<leftarrow> VAL1 x;
          Some (emit (LabelLine l) s)
        }
      | TAC_VAR \<Rightarrow> do {
          p \<leftarrow> as_symb (t_a c);
          p \<leftarrow> p;
          x \<leftarrow> symb_at p s;
          Some ((set_symb p (x\<lparr>s_val2 := ValV (tos s)\<rparr>) s)\<lparr>tos := tos s + 4\<rparr>)
        }
      | TAC_BEGINFUNC \<Rightarrow> Some (ins (ASTI (R R_RET) PC_OFF (R R_P)) (s\<lparr>tos := VAR_OFF\<rparr>))
      | TAC_ENDFUNC \<Rightarrow> cg_return None s)"

section \<open>Strings\<close>

text \<open>
  The loop over the text of a string from its second character: it stops before the last one,
  the closing quote; a backslash there would take it past the terminator.
\<close>

fun str_bytes :: "string \<Rightarrow> u32 list option" where
  "str_bytes [] = None"
| "str_bytes [c] = Some []"
| "str_bytes (c # d # cs) =
     (if c = CHR 0x5C
      then map_option ((@) (if d = CHR ''n'' then [10] else if d = CHR 0x22 then [34] else []))
             (str_bytes cs)
      else map_option ((#) (scast (of_char c :: 8 word))) (str_bytes (d # cs)))"

definition cg_str :: "symb \<Rightarrow> 'a cg_scheme \<Rightarrow> 'a cg_scheme option" where
  "cg_str x s = do {
     t \<leftarrow> TEXT1 x;
     l \<leftarrow> ADDR2 x;
     bs \<leftarrow> str_bytes (tl t);
     (let s = emit (LabelLine l) s;
          s = fold (\<lambda>b. ins (ADB b)) bs s
      in Some (ins (ADB 0) s))
   }"

partial_function (option) cg_chain :: "nat option \<Rightarrow> 'a cg_scheme \<Rightarrow> 'a cg_scheme option" where
  "cg_chain sl s =
     (case sl of
        None \<Rightarrow> Some s
      | Some p \<Rightarrow> do {
          x \<leftarrow> symb_at p s;
          s \<leftarrow> (if s_type x = T_TEXT then cg_str x s else Some s);
          cg_chain (s_next x) s
        })"

fun cg_buckets :: "nat list \<Rightarrow> 'a cg_scheme \<Rightarrow> 'a cg_scheme option" where
  "cg_buckets [] s = Some s"
| "cg_buckets (i # is) s = do { s \<leftarrow> cg_chain (symbtab s ! i) s; cg_buckets is s }"

definition cg_strings :: "'a cg_scheme \<Rightarrow> 'a cg_scheme option" where
  "cg_strings s = do {
     s \<leftarrow> cg_buckets [0..<HASHSIZE] s;
     Some (emit (LabelLine 0) s)
   }"

section \<open>The whole program\<close>

text \<open>Reversing the list of instructions: sets \<open>next\<close>, returns the first.\<close>

partial_function (option) link_next ::
  "nat option \<Rightarrow> nat option \<Rightarrow> tac list \<Rightarrow> (nat option \<times> tac list) option" where
  "link_next c p h =
     (case p of
        None \<Rightarrow> Some (c, h)
      | Some q \<Rightarrow>
          if q < length h then link_next (Some q) (t_prev (h ! q)) (h[q := (h ! q)\<lparr>t_next := c\<rparr>])
          else None)"

definition init_cg :: "nat option \<Rightarrow> 'a cg_scheme \<Rightarrow> (nat option \<times> 'a cg_scheme) option" where
  "init_cg trees s = do {
     (z, s) \<leftarrow> mkconst 0 (fold clear_desc [0..<R_MAX] s);
     (let s = insert_desc 0 (Some z) False s
      in do {
        (c, h) \<leftarrow> link_next None trees (tacs s);
        Some (c, s\<lparr>tos := VAR_OFF, next_arg := 0, tacs := h\<rparr>)
      })
   }"

partial_function (option) cg_loop :: "nat option \<Rightarrow> 'a cg_scheme \<Rightarrow> 'a cg_scheme option" where
  "cg_loop tls s =
     (case tls of
        None \<Rightarrow> Some s
      | Some t \<Rightarrow> do {
          x \<leftarrow> tac_at t s;
          (txt, s) \<leftarrow> print_instr x s;
          s \<leftarrow> cg_instr x (emit (Text (CHR 0x5C # CHR '' '' # txt)) s);
          cg_loop (t_next x) s
        })"

declare cg_chain.simps [code] link_next.simps [code] cg_loop.simps [code]

text \<open>
  \<open>cg_sys\<close> copies a system file, whose contents are a parameter; \<open>Exited\<close> is its \<open>exit\<close>.
\<close>

datatype 's outcome = Exited 's | Finished 's

definition cg_sys :: "(string \<Rightarrow> string option) \<Rightarrow> string \<Rightarrow> 'a cg_scheme \<Rightarrow> 'a cg_scheme outcome" where
  "cg_sys files fn s =
     (case files fn of
        None \<Rightarrow> Exited (error ''cannot open system file'' s)
      | Some txt \<Rightarrow> Finished (emit (Text txt) s))"

definition LIB_DIR :: string where "LIB_DIR = ''/jeremy/book/code/''"

definition cg_program :: "(string \<Rightarrow> string option) \<Rightarrow> nat option \<Rightarrow> 'a cg_scheme \<Rightarrow> 'a cg_scheme outcome option" where
  "cg_program files trees s = do {
     (tls, s) \<leftarrow> init_cg trees s;
     (case cg_sys files (LIB_DIR @ ''header'') s of
        Exited s \<Rightarrow> Some (Exited s)
      | Finished s \<Rightarrow> do {
          s \<leftarrow> cg_loop tls s;
          (case cg_sys files (LIB_DIR @ ''lib'') s of
             Exited s \<Rightarrow> Some (Exited s)
           | Finished s \<Rightarrow> do { s \<leftarrow> cg_strings s; Some (Finished s) })
        })
   }"

end
