(* ===== verification/VC_CgProof.thy ===== *)
theory VC_CgProof
  imports VC_Cg
begin

text \<open>
  The code generator is correct: the assembler instructions it prints for three address code
  compute, on the abstract machine, what the code means. The register descriptor is related to the
  machine state by an invariant: a described register holds its symbol's value, and a variable
  that no register holds in modified form has its value in its slot of the stack frame.
\<close>

declare upt_rec_numeral [simp del]

section \<open>Running straight-line code\<close>

fun run :: "(u32 \<Rightarrow> u32) \<Rightarrow> asm list \<Rightarrow> vam \<Rightarrow> vam option" where
  "run lab [] m = Some m"
| "run lab (i # is) m = do {
     ins \<leftarrow> resolve lab (pc m) i;
     m \<leftarrow> exec ins m;
     run lab is m
   }"

lemma run_append: "run lab (is @ js) m = run lab is m \<bind> run lab js"
proof (induction "is" arbitrary: m)
  case (Cons i "is")
  show ?case
  proof (cases "resolve lab (pc m) i")
    case (Some ins)
    then show ?thesis using Cons.IH by (cases "exec ins m") simp_all
  qed simp
qed simp

section \<open>The invariant\<close>

definition val :: "(u32 \<Rightarrow> u32) \<Rightarrow> (nat \<Rightarrow> u32) \<Rightarrow> 'a cg_scheme \<Rightarrow> nat \<Rightarrow> u32" where
  "val lab env c p =
     (case s_type (symbs c ! p) of
        T_INT \<Rightarrow> the (VAL1 (symbs c ! p))
      | T_TEXT \<Rightarrow> lab (the (ADDR2 (symbs c ! p)))
      | _ \<Rightarrow> env p)"

definition frame_addr :: "'a cg_scheme \<Rightarrow> nat \<Rightarrow> u32" where
  "frame_addr c p = the (ADDR2 (symbs c ! p))"

definition is_var :: "nat set \<Rightarrow> 'a cg_scheme \<Rightarrow> nat \<Rightarrow> bool" where
  "is_var V c p \<longleftrightarrow> p \<in> V \<and> p < length (symbs c) \<and> s_type (symbs c ! p) = T_VAR"

definition operand :: "nat set \<Rightarrow> 'a cg_scheme \<Rightarrow> nat \<Rightarrow> bool" where
  "operand V c p \<longleftrightarrow> p < length (symbs c) \<and>
     (is_var V c p \<or>
      s_type (symbs c ! p) = T_INT \<and> (\<exists>n. s_val1 (symbs c ! p) = IntV n) \<or>
      s_type (symbs c ! p) = T_TEXT \<and> (\<exists>l. s_val2 (symbs c ! p) = ValV l))"

text \<open>What the descriptor and the frame layout always satisfy, whatever the machine's state.\<close>

definition desc_ok :: "nat set \<Rightarrow> 'a cg_scheme \<Rightarrow> bool" where
  "desc_ok V c \<longleftrightarrow> length (rdesc c) = 16 \<and>
     (\<exists>z. rdesc c ! 0 = (Some z, False) \<and> z < length (symbs c) \<and> s_type (symbs c ! z) = T_INT \<and>
          s_val1 (symbs c ! z) = IntV 0) \<and>
     (\<forall>r \<in> {1, 2, 3}. rname c r = None) \<and>
     (\<forall>r \<in> {4..<16}. \<forall>p. rname c r = Some p \<longrightarrow> operand V c p \<and> (rmod c r \<longrightarrow> is_var V c p)) \<and>
     (\<forall>r \<in> {5..<16}. \<forall>q \<in> {5..<16}. rname c r = rname c q \<longrightarrow> rname c r \<noteq> None \<longrightarrow> r = q)"

definition frame_ok :: "u32 \<Rightarrow> nat set \<Rightarrow> 'a cg_scheme \<Rightarrow> bool" where
  "frame_ok fp V c \<longleftrightarrow> unat fp + unat (tos c) \<le> 65536 \<and>
     (\<forall>p \<in> V. is_var V c p \<and> s_val2 (symbs c ! p) = ValV (frame_addr c p) \<and>
        unat (frame_addr c p) + 4 \<le> unat (tos c)) \<and>
     (\<forall>p \<in> V. \<forall>q \<in> V. p \<noteq> q \<longrightarrow>
        unat (frame_addr c p) + 4 \<le> unat (frame_addr c q) \<or>
        unat (frame_addr c q) + 4 \<le> unat (frame_addr c p))"

definition slot :: "u32 \<Rightarrow> 'a cg_scheme \<Rightarrow> nat \<Rightarrow> nat" where
  "slot fp c p = unat fp + unat (frame_addr c p)"

definition cached :: "'a cg_scheme \<Rightarrow> nat \<Rightarrow> bool" where
  "cached c p \<longleftrightarrow> (\<exists>r \<in> {4..<16}. rdesc c ! r = (Some p, True))"

text \<open>The machine represents the environment.\<close>

definition rep :: "(u32 \<Rightarrow> u32) \<Rightarrow> u32 \<Rightarrow> nat set \<Rightarrow> (nat \<Rightarrow> u32) \<Rightarrow> 'a cg_scheme \<Rightarrow> vam \<Rightarrow> bool" where
  "rep lab fp V env c m \<longleftrightarrow> length (reg m) = 16 \<and> get_reg 0 m = 0 \<and> get_reg 1 m = fp \<and>
     (\<forall>r \<in> {4..<16}. \<forall>p. rname c r = Some p \<longrightarrow> get_reg r m = val lab env c p) \<and>
     (\<forall>p \<in> V. cached c p \<or> load_word (slot fp c p) (mem m) = env p)"

text \<open>A piece of code generation: what was printed, and that running it keeps the representation.\<close>

definition gen ::
  "(u32 \<Rightarrow> u32) \<Rightarrow> u32 \<Rightarrow> nat set \<Rightarrow> 'a cg_scheme \<Rightarrow> asm list \<Rightarrow> 'a cg_scheme \<Rightarrow> bool" where
  "gen lab fp V c is c' \<longleftrightarrow> lines c' = lines c @ map Code is \<and> symbs c' = symbs c \<and> tos c' = tos c \<and>
     desc_ok V c' \<and>
     (\<forall>env m. rep lab fp V env c m \<longrightarrow> (\<exists>m'. run lab is m = Some m' \<and> rep lab fp V env c' m'))"

lemma gen_refl: "desc_ok V c \<Longrightarrow> gen lab fp V c [] c"
  by (simp add: gen_def)

lemma gen_trans:
  assumes "gen lab fp V c is c1" and "gen lab fp V c1 js c2"
  shows "gen lab fp V c (is @ js) c2"
  unfolding gen_def
proof (intro conjI allI impI)
  fix env m assume "rep lab fp V env c m"
  with assms(1) obtain m1 where "run lab is m = Some m1" "rep lab fp V env c1 m1"
    by (auto simp: gen_def)
  with assms(2) show "\<exists>m'. run lab (is @ js) m = Some m' \<and> rep lab fp V env c2 m'"
    by (auto simp: gen_def run_append)
qed (use assms in \<open>simp_all add: gen_def\<close>)

text \<open>Most steps print one instruction or none and touch one register.\<close>

lemma frame_ok_cong: "symbs c' = symbs c \<Longrightarrow> tos c' = tos c \<Longrightarrow> frame_ok fp V c' = frame_ok fp V c"
  by (simp add: frame_ok_def is_var_def frame_addr_def)

lemma operand_cong: "symbs c' = symbs c \<Longrightarrow> operand V c' p = operand V c p"
  by (simp add: operand_def is_var_def)

lemma is_var_cong: "symbs c' = symbs c \<Longrightarrow> is_var V c' p = is_var V c p"
  by (simp add: is_var_def)

lemma val_cong: "symbs c' = symbs c \<Longrightarrow> val lab env c' p = val lab env c p"
  unfolding val_def by (erule ssubst) (rule refl)

lemma slot_cong: "symbs c' = symbs c \<Longrightarrow> slot fp c' p = slot fp c p"
  by (simp add: slot_def frame_addr_def)

lemmas symb_congs = operand_cong is_var_cong val_cong slot_cong

text \<open>A register that can be given up: nothing is lost when its description goes.\<close>

definition droppable :: "'a cg_scheme \<Rightarrow> nat \<Rightarrow> bool" where
  "droppable c r \<longleftrightarrow> (\<forall>p. rdesc c ! r = (Some p, True) \<longrightarrow> rdesc c ! 4 = (Some p, True))"

section \<open>Descriptor updates\<close>

lemma desc_okD:
  assumes "desc_ok V c"
  shows "length (rdesc c) = 16"
    and "4 \<le> r \<Longrightarrow> r < 16 \<Longrightarrow> rname c r = Some p \<Longrightarrow> operand V c p"
    and "4 \<le> r \<Longrightarrow> r < 16 \<Longrightarrow> rdesc c ! r = (Some p, True) \<Longrightarrow> is_var V c p"
    and "5 \<le> r \<Longrightarrow> r < 16 \<Longrightarrow> 5 \<le> q \<Longrightarrow> q < 16 \<Longrightarrow> rname c r = Some p \<Longrightarrow> rname c q = Some p \<Longrightarrow> r = q"
proof -
  have a: "\<forall>r \<in> {4..<16}. \<forall>p. rname c r = Some p \<longrightarrow> operand V c p \<and> (rmod c r \<longrightarrow> is_var V c p)"
    and b: "\<forall>r \<in> {5..<16}. \<forall>q \<in> {5..<16}. rname c r = rname c q \<longrightarrow> rname c r \<noteq> None \<longrightarrow> r = q"
    using assms by (simp_all add: desc_ok_def)
  show "length (rdesc c) = 16" using assms by (simp add: desc_ok_def)
  show "4 \<le> r \<Longrightarrow> r < 16 \<Longrightarrow> rname c r = Some p \<Longrightarrow> operand V c p"
    using bspec [OF a, of r] by simp
  show "4 \<le> r \<Longrightarrow> r < 16 \<Longrightarrow> rdesc c ! r = (Some p, True) \<Longrightarrow> is_var V c p"
    using bspec [OF a, of r] by simp
  show "5 \<le> r \<Longrightarrow> r < 16 \<Longrightarrow> 5 \<le> q \<Longrightarrow> q < 16 \<Longrightarrow> rname c r = Some p \<Longrightarrow> rname c q = Some p \<Longrightarrow> r = q"
    using bspec [OF bspec [OF b, of r], of q] by simp
qed

lemma desc_okI:
  assumes "length (rdesc c) = 16" and "desc_ok V c0" and "symbs c = symbs c0"
    and "\<And>q. q < 4 \<Longrightarrow> rdesc c ! q = rdesc c0 ! q"
    and "\<And>q p. 4 \<le> q \<Longrightarrow> q < 16 \<Longrightarrow> rname c q = Some p \<Longrightarrow> operand V c0 p \<and> (rmod c q \<longrightarrow> is_var V c0 p)"
    and "\<And>q r p. 5 \<le> q \<Longrightarrow> q < 16 \<Longrightarrow> 5 \<le> r \<Longrightarrow> r < 16 \<Longrightarrow> rname c q = Some p \<Longrightarrow> rname c r = Some p \<Longrightarrow> q = r"
  shows "desc_ok V c"
proof -
  have "\<forall>r \<in> {1, 2, 3}. rname c r = None"
    using assms(2,4) by (simp add: desc_ok_def)
  moreover have "\<forall>r \<in> {4..<16}. \<forall>p. rname c r = Some p \<longrightarrow> operand V c p \<and> (rmod c r \<longrightarrow> is_var V c p)"
    using assms(5) operand_cong [OF assms(3)] is_var_cong [OF assms(3)] by auto
  moreover have "\<forall>r \<in> {5..<16}. \<forall>q \<in> {5..<16}. rname c r = rname c q \<longrightarrow> rname c r \<noteq> None \<longrightarrow> r = q"
    using assms(6) by (metis atLeastLessThan_iff not_Some_eq)
  ultimately show ?thesis
    using assms(1-4) unfolding desc_ok_def by auto
qed

lemma desc_ok_weaken:
  assumes "desc_ok V c0" and "length (rdesc c) = 16" and "symbs c = symbs c0"
    and "\<And>q. q < 4 \<Longrightarrow> rdesc c ! q = rdesc c0 ! q"
    and "\<And>q. 4 \<le> q \<Longrightarrow> q < 16 \<Longrightarrow>
      rname c q = None \<or> rname c q = rname c0 q \<and> (rmod c q \<longrightarrow> rmod c0 q)"
  shows "desc_ok V c"
proof (rule desc_okI [OF assms(2,1,3,4)])
  fix q p assume q: "4 \<le> q" "q < 16" "rname c q = Some p"
  with assms(5) [OF q(1,2)] have "rname c0 q = Some p" "rmod c q \<longrightarrow> rmod c0 q" by auto
  with desc_okD(2,3) [OF assms(1) q(1,2)] show "operand V c0 p \<and> (rmod c q \<longrightarrow> is_var V c0 p)"
    by (metis prod.collapse)
next
  fix q r p assume q: "5 \<le> q" "q < 16" "5 \<le> r" "r < 16" "rname c q = Some p" "rname c r = Some p"
  with assms(5) [of q] assms(5) [of r] have "rname c0 q = Some p" "rname c0 r = Some p" by auto
  with desc_okD(4) [OF assms(1) q(1-4)] show "q = r" by simp
qed simp

text \<open>With at most one register of a name, inserting clears that one and complains of nothing.\<close>

lemma distinct_all_equal:
  assumes "distinct xs" and "\<forall>x \<in> set xs. \<forall>y \<in> set xs. x = y"
  shows "xs = [] \<or> (\<exists>x \<in> set xs. xs = [x])"
proof (cases xs)
  case (Cons x ys)
  have "ys = []"
  proof (rule ccontr)
    assume "ys \<noteq> []"
    then obtain y where "y \<in> set ys" by (cases ys) auto
    with assms Cons have "y = x" "x \<notin> set ys" by (auto simp del: ball_simps)
    with \<open>y \<in> set ys\<close> show False by simp
  qed
  with Cons show ?thesis by simp
qed simp

lemma hits_unique:
  assumes "desc_ok V c"
  shows "filter (\<lambda>q. rname c q = Some p) [5..<16] = [] \<or>
    (\<exists>h. 5 \<le> h \<and> h < 16 \<and> rname c h = Some p \<and> filter (\<lambda>q. rname c q = Some p) [5..<16] = [h])"
proof -
  let ?hits = "filter (\<lambda>q. rname c q = Some p) [5..<16]"
  have "\<forall>h \<in> set ?hits. \<forall>k \<in> set ?hits. h = k"
  proof (intro ballI)
    fix h k assume "h \<in> set ?hits" "k \<in> set ?hits"
    then show "h = k" using desc_okD(4) [OF assms, of h k p] by simp
  qed
  then have "?hits = [] \<or> (\<exists>h \<in> set ?hits. ?hits = [h])"
    by (intro distinct_all_equal) (rule distinct_filter, rule distinct_upt)
  then show ?thesis
  proof
    assume "\<exists>h \<in> set ?hits. ?hits = [h]"
    then obtain h where "h \<in> set ?hits" "?hits = [h]" by blast
    moreover from this(1) have "5 \<le> h \<and> h < 16 \<and> rname c h = Some p" by simp
    ultimately show ?thesis by blast
  qed simp
qed

lemma fold_clear_simps [simp]:
  "symbs (fold clear_desc rs c) = symbs c" "lines (fold clear_desc rs c) = lines c"
  "tos (fold clear_desc rs c) = tos c" "length (rdesc (fold clear_desc rs c)) = length (rdesc c)"
  by (induction rs arbitrary: c) (simp_all add: clear_desc_def)

lemma fold_error_simps [simp]:
  "symbs (fold (\<lambda>_. error t) rs c) = symbs c" "lines (fold (\<lambda>_. error t) rs c) = lines c"
  "tos (fold (\<lambda>_. error t) rs c) = tos c" "rdesc (fold (\<lambda>_. error t) rs c) = rdesc c"
  by (induction rs arbitrary: c) (simp_all add: error_def)

lemma insert_desc_simps [simp]:
  "symbs (insert_desc r n md c) = symbs c" "lines (insert_desc r n md c) = lines c"
  "tos (insert_desc r n md c) = tos c" "length (rdesc (insert_desc r n md c)) = length (rdesc c)"
  by (simp_all add: insert_desc_def Let_def)

lemma insert_desc_nth:
  assumes "desc_ok V c" and "r < 16" and "q < 16"
  shows "rdesc (insert_desc r (Some p) md c) ! q =
    (if q = r then (Some p, md)
     else if 5 \<le> q \<and> rname c q = Some p then (None, rmod c q) else rdesc c ! q)"
proof -
  have len: "length (rdesc c) = 16" using desc_okD(1) [OF assms(1)] .
  from hits_unique [OF assms(1), of p] show ?thesis
  proof
    assume none: "filter (\<lambda>q. rname c q = Some p) [5..<16] = []"
    then have "rname c q \<noteq> Some p" if "5 \<le> q"
      using that assms(3) by (auto simp: filter_empty_conv)
    with none len assms(2,3) show ?thesis
      by (auto simp: insert_desc_def cg_regs Let_def)
  next
    assume "\<exists>h. 5 \<le> h \<and> h < 16 \<and> rname c h = Some p \<and> filter (\<lambda>q. rname c q = Some p) [5..<16] = [h]"
    then obtain h where h: "5 \<le> h" "h < 16" "rname c h = Some p"
      "filter (\<lambda>q. rname c q = Some p) [5..<16] = [h]" by blast
    have eq: "rdesc (insert_desc r (Some p) md c) = (rdesc c)[h := (None, rmod c h), r := (Some p, md)]"
      using h(4) by (simp add: insert_desc_def cg_regs clear_desc_def)
    show ?thesis
    proof (cases "5 \<le> q \<and> rname c q = Some p")
      case True
      then have "q = h" using desc_okD(4) [OF assms(1) _ assms(3) h(1,2) _ h(3)] by simp
      with True h len assms(2) show ?thesis by (simp add: eq nth_list_update)
    next
      case False
      with h have "q \<noteq> h" by auto
      with False len assms(2,3) show ?thesis by (auto simp: eq nth_list_update)
    qed
  qed
qed

section \<open>What single instructions do\<close>

definition sets :: "nat \<Rightarrow> u32 \<Rightarrow> vam \<Rightarrow> vam \<Rightarrow> bool" where
  "sets y v m m' \<longleftrightarrow> length (reg m') = length (reg m) \<and> mem m' = mem m \<and> (z_flag m' \<longleftrightarrow> v = 0) \<and>
     (\<forall>z. get_reg z m' = (if z = y then v else get_reg z m))"

lemma R_nat: "r < 16 \<Longrightarrow> unat (R r) = r"
  by (simp add: unat_of_nat)

lemma sets_put:
  assumes "y < length (reg m)"
  shows "sets y v m (tick n (put y v (m\<lparr>pc := a\<rparr>)))"
  using assms by (simp add: sets_def tick_def put_def DO_Z_def set_reg_def get_reg_def)

lemma run_ldr:
  assumes "length (reg m) = 16" and "q < 16" and "r < 16"
  shows "\<exists>m'. run lab [ALDR (R q) (R r)] m = Some m' \<and> sets r (get_reg q m) m m'"
  using assms sets_put [of r m "get_reg q m" 1] by (simp add: R_nat)

lemma run_lda:
  assumes "length (reg m) = 16" and "r < 16" and "get_reg 0 m = 0"
  shows "\<exists>m'. run lab [ALDA v 0 (R r)] m = Some m' \<and> sets r v m m'"
    and "\<exists>m'. run lab [ALDA_L l (R r)] m = Some m' \<and> sets r (lab l) m m'"
  using assms sets_put [of r m _ 2] by (simp_all add: R_nat)

definition in_frame :: "u32 \<Rightarrow> u32 \<Rightarrow> bool" where
  "in_frame fp a \<longleftrightarrow> unat fp + unat a + 4 \<le> 65536"

lemma in_frame_addr:
  assumes "in_frame fp a"
  shows "a + fp \<le> MEMMAX - 4" and "unat (a + fp) = unat fp + unat a"
proof -
  show "unat (a + fp) = unat fp + unat a"
    using assms by (simp add: in_frame_def unat_word_ariths)
  then show "a + fp \<le> MEMMAX - 4"
    using assms by (simp add: in_frame_def MEMMAX_def word_le_nat_alt)
qed

lemma run_ldi:
  assumes "length (reg m) = 16" and "r < 16" and "get_reg 1 m = fp" and "in_frame fp a"
  shows "\<exists>m'. run lab [ALDI a (R R_P) (R r)] m = Some m' \<and>
     sets r (load_word (unat fp + unat a) (mem m)) m m'"
  using assms in_frame_addr [OF assms(4)] sets_put [of r m _ 2]
  by (simp add: R_nat R_P_def Let_def)

lemma run_sti:
  assumes "r < 16" and "get_reg 1 m = fp" and "in_frame fp a"
  shows "\<exists>m'. run lab [ASTI (R r) a (R R_P)] m = Some m' \<and> reg m' = reg m \<and>
     mem m' = store_word (unat fp + unat a) (get_reg r m) (mem m)"
  using assms in_frame_addr [OF assms(3)]
  by (simp add: R_nat R_P_def Let_def tick_def DO_Z_def get_reg_def)

lemma frame_okD:
  assumes "frame_ok fp V c" and "p \<in> V"
  shows "is_var V c p" and "s_val2 (symbs c ! p) = ValV (frame_addr c p)"
    and "in_frame fp (frame_addr c p)"
    and "q \<in> V \<Longrightarrow> p \<noteq> q \<Longrightarrow> slot fp c p + 4 \<le> slot fp c q \<or> slot fp c q + 4 \<le> slot fp c p"
proof -
  have "unat fp + unat (tos c) \<le> 65536" "unat (frame_addr c p) + 4 \<le> unat (tos c)"
    using assms by (simp_all add: frame_ok_def)
  then show "in_frame fp (frame_addr c p)" by (simp add: in_frame_def)
  show "is_var V c p" "s_val2 (symbs c ! p) = ValV (frame_addr c p)"
    using assms by (simp_all add: frame_ok_def)
  assume "q \<in> V" "p \<noteq> q"
  with assms show "slot fp c p + 4 \<le> slot fp c q \<or> slot fp c q + 4 \<le> slot fp c p"
    unfolding frame_ok_def slot_def by fastforce
qed

lemma val_var: "is_var V c p \<Longrightarrow> val lab env c p = env p"
  by (simp add: is_var_def val_def)

lemma repD:
  assumes "rep lab fp V env c m"
  shows "length (reg m) = 16" and "get_reg 0 m = 0" and "get_reg 1 m = fp"
    and "4 \<le> r \<Longrightarrow> r < 16 \<Longrightarrow> rname c r = Some p \<Longrightarrow> get_reg r m = val lab env c p"
    and "p \<in> V \<Longrightarrow> \<not> cached c p \<Longrightarrow> load_word (slot fp c p) (mem m) = env p"
  using assms by (auto simp: rep_def)

section \<open>Spilling\<close>

lemma gen_spill:
  assumes ok: "desc_ok V c" and fr: "frame_ok fp V c" and r: "4 \<le> r" "r < 16"
  shows "\<exists>is c'. spill_one r c = Some c' \<and> gen lab fp V c is c' \<and>
     (rname c r \<noteq> None \<longrightarrow> rdesc c' = (rdesc c)[r := (rname c r, False)]) \<and>
     (rname c r = None \<longrightarrow> c' = c)"
proof (cases "\<exists>p. rdesc c ! r = (Some p, True)")
  case False
  then have "spill_one r c = Some c"
    by (cases "rdesc c ! r") (auto simp: spill_one_def split: option.splits)
  moreover have "rname c r \<noteq> None \<longrightarrow> rdesc c = (rdesc c)[r := (rname c r, False)]"
    using False by (cases "rdesc c ! r") (auto intro!: update_same [symmetric])
  ultimately show ?thesis using gen_refl [OF ok] by blast
next
  case True
  then obtain p where p: "rdesc c ! r = (Some p, True)" by blast
  have var: "is_var V c p" using desc_okD(3) [OF ok r p] .
  then have "p \<in> V" by (simp add: is_var_def)
  note frame = frame_okD [OF fr this]
  let ?i = "ASTI (R r) (frame_addr c p) (R R_P)"
  let ?c = "(ins ?i c)\<lparr>rdesc := (rdesc c)[r := (Some p, False)]\<rparr>"
  have len: "length (rdesc c) = 16" using desc_okD(1) [OF ok] .
  have "spill_one r c = Some ?c"
    using p var frame(2) by (simp add: spill_one_def symb_at_def is_var_def emit_def)
  moreover have "gen lab fp V c [?i] ?c"
    unfolding gen_def
  proof (intro conjI allI impI)
    show "desc_ok V ?c"
      using p r len by (intro desc_ok_weaken [OF ok]) (auto simp: emit_def nth_list_update)
    fix env m assume rep: "rep lab fp V env c m"
    obtain m' where m': "run lab [?i] m = Some m'" "reg m' = reg m"
      "mem m' = store_word (slot fp c p) (get_reg r m) (mem m)"
      using run_sti [OF r(2) repD(3) [OF rep] frame(3)] by (auto simp: slot_def)
    have v: "get_reg r m = env p"
      using repD(4) [OF rep r] p val_var [OF var] by simp
    have "rep lab fp V env ?c m'"
      unfolding rep_def
    proof (intro conjI ballI allI impI)
      fix q x assume "q \<in> {4..<16}" "rname ?c q = Some x"
      then have "rname c q = Some x" using p len r by (auto simp: nth_list_update split: if_splits)
      moreover have "val lab env ?c x = val lab env c x" by (rule val_cong) (simp add: emit_def)
      ultimately show "get_reg q m' = val lab env ?c x"
        using repD(4) [OF rep, of q x] m'(2) \<open>q \<in> {4..<16}\<close> by (simp add: get_reg_def)
    next
      fix x assume x: "x \<in> V"
      show "cached ?c x \<or> load_word (slot fp ?c x) (mem m') = env x"
      proof (cases "x = p")
        case True
        then show ?thesis using m'(3) v vmem.load_store_same
          by (simp add: slot_def frame_addr_def emit_def)
      next
        case False
        have "cached ?c x = cached c x"
          unfolding cached_def
        proof (rule bex_cong [OF refl])
          fix q :: nat assume "q \<in> {4..<16}"
          show "(rdesc ?c ! q = (Some x, True)) = (rdesc c ! q = (Some x, True))"
            using False p len r by (cases "q = r") simp_all
        qed
        moreover have "load_word (slot fp c x) (mem m') = load_word (slot fp c x) (mem m)"
          unfolding m'(3) using frame(4) [OF x] False by (intro vmem.load_store_apart) auto
        ultimately show ?thesis
          using repD(5) [OF rep x] by (auto simp: slot_def frame_addr_def emit_def)
      qed
    qed (use repD(1-3) [OF rep] m'(2) in \<open>simp_all add: get_reg_def\<close>)
    with m'(1) show "\<exists>m'. run lab [?i] m = Some m' \<and> rep lab fp V env ?c m'" by blast
  qed (simp_all add: emit_def)
  ultimately show ?thesis using p by auto
qed

section \<open>Giving up a register, and loading one\<close>

lemma clear_desc_nth:
  "r < length (rdesc c) \<Longrightarrow> rdesc (clear_desc r c) ! q = (if q = r then (None, rmod c r) else rdesc c ! q)"
  by (simp add: clear_desc_def)

lemma clear_desc_simps [simp]:
  "symbs (clear_desc r c) = symbs c" "lines (clear_desc r c) = lines c" "tos (clear_desc r c) = tos c"
  "length (rdesc (clear_desc r c)) = length (rdesc c)"
  by (simp_all add: clear_desc_def)

lemma gen_drop:
  assumes ok: "desc_ok V c" and r: "4 \<le> r" "r < 16"
    and drop: "\<And>p. rdesc c ! r = (Some p, True) \<Longrightarrow> \<exists>q \<in> {4..<16}. q \<noteq> r \<and> rdesc c ! q = (Some p, True)"
  shows "gen lab fp V c [] (clear_desc r c)"
proof -
  let ?c = "clear_desc r c"
  have len: "length (rdesc c) = 16" using desc_okD(1) [OF ok] .
  note nth = clear_desc_nth [of r c, unfolded len, OF r(2)]
  have ok': "desc_ok V ?c"
    using r len by (intro desc_ok_weaken [OF ok]) (auto simp: nth)
  have "rep lab fp V env ?c m" if rep: "rep lab fp V env c m" for env m
    unfolding rep_def
  proof (intro conjI ballI allI impI)
    fix q x assume "q \<in> {4..<16}" "rname ?c q = Some x"
    then show "get_reg q m = val lab env ?c x"
      using repD(4) [OF rep, of q x] val_cong [of ?c c lab env x] by (auto simp: nth split: if_splits)
  next
    fix x assume x: "x \<in> V"
    have "cached ?c x" if c: "cached c x"
    proof -
      from c obtain q where q: "q \<in> {4..<16}" "rdesc c ! q = (Some x, True)" by (auto simp: cached_def)
      have "\<exists>q' \<in> {4..<16}. q' \<noteq> r \<and> rdesc c ! q' = (Some x, True)"
        using drop q by (cases "q = r") blast+
      then show ?thesis by (auto simp: cached_def nth)
    qed
    then show "cached ?c x \<or> load_word (slot fp ?c x) (mem m) = env x"
      using repD(5) [OF rep x] slot_cong [of ?c c fp x] by auto
  qed (use repD(1-3) [OF rep] in simp_all)
  with ok' show ?thesis by (simp add: gen_def)
qed

lemma gen_clear:
  assumes "desc_ok V c" and "5 \<le> r" "r < 16" and "droppable c r"
  shows "gen lab fp V c [] (clear_desc r c)"
proof (rule gen_drop [OF assms(1)])
  fix p assume "rdesc c ! r = (Some p, True)"
  with assms show "\<exists>q \<in> {4..<16}. q \<noteq> r \<and> rdesc c ! q = (Some p, True)"
    unfolding droppable_def by (intro bexI [of _ 4]) simp_all
qed (use assms in simp_all)

text \<open>Code that only loads, and whose last action sets the flag by the value of a symbol.\<close>

definition tests :: "(u32 \<Rightarrow> u32) \<Rightarrow> u32 \<Rightarrow> nat set \<Rightarrow> 'a cg_scheme \<Rightarrow> asm list \<Rightarrow> nat \<Rightarrow> bool" where
  "tests lab fp V c is p \<longleftrightarrow>
     (\<forall>env m m'. rep lab fp V env c m \<longrightarrow> run lab is m = Some m' \<longrightarrow>
        (z_flag m' \<longleftrightarrow> val lab env c p = 0) \<and> mem m' = mem m)"

lemma gen_put:
  assumes ok: "desc_ok V c" and r: "5 \<le> r" "r < 16" and free: "rname c r = None"
    and p: "operand V c p" and new: "\<And>q. 5 \<le> q \<Longrightarrow> q < 16 \<Longrightarrow> rname c q \<noteq> Some p"
    and md: "md \<Longrightarrow> rdesc c ! 4 = (Some p, True)"
    and runs: "\<And>env m. rep lab fp V env c m \<Longrightarrow>
      \<exists>m'. run lab [i] m = Some m' \<and> sets r (val lab env c p) m m'"
  shows "gen lab fp V c [i] (insert_desc r (Some p) md (ins i c))"
    and "rname (insert_desc r (Some p) md (ins i c)) r = Some p"
    and "droppable (insert_desc r (Some p) md (ins i c)) r"
    and "\<And>q. q < 16 \<Longrightarrow> q \<noteq> r \<Longrightarrow> rdesc (insert_desc r (Some p) md (ins i c)) ! q = rdesc c ! q"
    and "tests lab fp V c [i] p"
proof -
  let ?c = "insert_desc r (Some p) md (ins i c)"
  show "tests lab fp V c [i] p"
    unfolding tests_def sets_def
  proof (intro allI impI)
    fix env m m' assume "rep lab fp V env c m" "run lab [i] m = Some m'"
    with runs [of env m] show "z_flag m' = (val lab env c p = 0) \<and> mem m' = mem m"
      by (auto simp: sets_def)
  qed
  have len: "length (rdesc c) = 16" using desc_okD(1) [OF ok] .
  have ok1: "desc_ok V (ins i c)" using ok by (intro desc_ok_weaken [OF ok]) (simp_all add: len emit_def)
  have nth: "rdesc ?c ! q = (if q = r then (Some p, md) else rdesc c ! q)" if "q < 16" for q
    using insert_desc_nth [OF ok1 r(2) that, of p md] new that by (auto simp: emit_def)
  have sym: "symbs ?c = symbs c" by (simp add: emit_def)
  show "rname ?c r = Some p" using nth [OF r(2)] by simp
  show "rdesc ?c ! q = rdesc c ! q" if "q < 16" "q \<noteq> r" for q
    using nth that by simp
  show "droppable ?c r" using nth [OF r(2)] nth [of 4] md r by (auto simp: droppable_def)
  have ok': "desc_ok V ?c"
  proof (rule desc_okI [OF _ ok sym])
    fix q x assume q: "4 \<le> q" "q < 16" "rname ?c q = Some x"
    show "operand V c x \<and> (rmod ?c q \<longrightarrow> is_var V c x)"
    proof (cases "q = r")
      case True
      with q nth [OF r(2)] p md desc_okD(3) [OF ok, of 4 p] show ?thesis by auto
    next
      case False
      with q nth [OF q(2)] have "rname c q = Some x" "rmod ?c q = rmod c q" by simp_all
      with desc_okD(2,3) [OF ok q(1,2), of x] show ?thesis by (metis prod.collapse)
    qed
  next
    fix q s x assume a: "5 \<le> q" "q < 16" "5 \<le> s" "s < 16" "rname ?c q = Some x" "rname ?c s = Some x"
    with nth [OF a(2)] nth [OF a(4)] new [of q] new [of s] desc_okD(4) [OF ok a(1-4), of x]
    show "q = s" by (auto split: if_splits)
  qed (use r len nth in \<open>auto simp: emit_def\<close>)
  have "\<exists>m'. run lab [i] m = Some m' \<and> rep lab fp V env ?c m'" if rep: "rep lab fp V env c m" for env m
  proof -
    obtain m' where m': "run lab [i] m = Some m'" "sets r (val lab env c p) m m'"
      using runs [OF rep] by blast
    note s = m'(2) [unfolded sets_def]
    have "rep lab fp V env ?c m'"
      unfolding rep_def val_cong [OF sym] slot_cong [OF sym]
    proof (intro conjI ballI allI impI)
      fix q x assume "q \<in> {4..<16}" "rname ?c q = Some x"
      then show "get_reg q m' = val lab env c x"
        using s nth [of q] repD(4) [OF rep, of q x] by (auto split: if_splits)
    next
      fix x assume x: "x \<in> V"
      have "cached ?c x" if c: "cached c x"
      proof -
        from c obtain q where q: "q \<in> {4..<16}" "rdesc c ! q = (Some x, True)" by (auto simp: cached_def)
        then have "q \<noteq> r" using free by auto
        with q nth [of q] show ?thesis by (auto simp: cached_def)
      qed
      then show "cached ?c x \<or> load_word (slot fp c x) (mem m') = env x"
        using repD(5) [OF rep x] s by auto
    qed (use repD(1-3) [OF rep] s r in simp_all)
    with m'(1) show ?thesis by blast
  qed
  with ok' show "gen lab fp V c [i] ?c" by (simp add: gen_def emit_def)
qed

text \<open>A register \<open>r\<close> is ready for \<open>p\<close>, and everything else stays described as it was.\<close>

definition ready :: "nat \<Rightarrow> nat \<Rightarrow> 'a cg_scheme \<Rightarrow> 'a cg_scheme \<Rightarrow> bool" where
  "ready r p c c' \<longleftrightarrow> rname c' r = Some p \<and> droppable c' r \<and>
     (\<forall>q < 16. q \<noteq> r \<longrightarrow> rdesc c' ! q = rdesc c ! q)"

lemma find_name_cases:
  assumes "List.find P [a..<b] = Some (q :: nat)"
  shows "a \<le> q" "q < b" "P q"
  using assms by (auto simp: find_Some_iff)

lemma find_name_None:
  assumes "List.find P [a..<b] = None" and "a \<le> q" and "q < (b :: nat)"
  shows "\<not> P q"
  using assms by (auto simp: find_None_iff)

lemma named_reg: "desc_ok V c \<Longrightarrow> q < 16 \<Longrightarrow> rname c q = Some p \<Longrightarrow> q = 0 \<or> 4 \<le> q"
proof -
  assume a: "desc_ok V c" "rname c q = Some p"
  then have "q \<noteq> 1" "q \<noteq> 2" "q \<noteq> 3" by (auto simp: desc_ok_def)
  then show ?thesis by linarith
qed

lemma named_val:
  assumes ok: "desc_ok V c" and rep: "rep lab fp V env c m" and q: "q < 16" "rname c q = Some p"
  shows "get_reg q m = val lab env c p"
proof (cases "q = 0")
  case True
  with q(2) ok have "s_type (symbs c ! p) = T_INT" "s_val1 (symbs c ! p) = IntV 0"
    by (auto simp: desc_ok_def)
  with True repD(2) [OF rep] show ?thesis by (simp add: val_def)
next
  case False
  with named_reg [OF ok q] repD(4) [OF rep _ q] show ?thesis by simp
qed

lemma gen_load:
  assumes ok: "desc_ok V c" and fr: "frame_ok fp V c" and r: "5 \<le> r" "r < 16"
    and free: "rname c r = None" and p: "operand V c p"
    and new: "\<And>q. 5 \<le> q \<Longrightarrow> q < 16 \<Longrightarrow> rname c q \<noteq> Some p"
  shows "\<exists>is c'. load_reg r (Some p) c = Some c' \<and> gen lab fp V c is c' \<and> ready r p c c' \<and>
    tests lab fp V c is p"
proof (cases "List.find (\<lambda>q. rname c q = Some p) [0..<16]")
  case (Some q)
  note q = find_name_cases [OF Some]
  have "\<not> 5 \<le> q" using new [of q] q by blast
  with named_reg [OF ok q(2,3)] have q': "q = 0 \<or> q = 4" by linarith
  have md: "rdesc c ! 4 = (Some p, True)" if "rmod c q"
    using that q' q(3) ok by (cases "q = 0") (auto simp: desc_ok_def prod_eq_iff)
  have runs: "\<exists>m'. run lab [ALDR (R q) (R r)] m = Some m' \<and> sets r (val lab env c p) m m'"
    if rep: "rep lab fp V env c m" for env m
    using run_ldr [OF repD(1) [OF rep] q(2) r(2), of lab] named_val [OF ok rep q(2,3)] by simp
  note put = gen_put [OF ok r free p new md runs]
  have "load_reg r (Some p) c = Some (insert_desc r (Some p) (rmod c q) (ins (ALDR (R q) (R r)) c))"
    using Some by (simp add: load_reg_def cg_regs)
  with put show ?thesis unfolding ready_def by blast
next
  case None
  have no: "\<not> cached c p" using find_name_None [OF None] by (fastforce simp: cached_def)
  have load: "load_reg r (Some p) c = Some (insert_desc r (Some p) False (ins i c))"
    if "(case s_type (symbs c ! p) of
           T_INT \<Rightarrow> do { v \<leftarrow> VAL1 (symbs c ! p); Some (ins (ALDA v 0 (R r)) c) }
         | T_VAR \<Rightarrow> do { a \<leftarrow> ADDR2 (symbs c ! p); Some (ins (ALDI a (R R_P) (R r)) c) }
         | T_TEXT \<Rightarrow> do { l \<leftarrow> ADDR2 (symbs c ! p); Some (ins (ALDA_L l (R r)) c) }
         | _ \<Rightarrow> Some c) = Some (ins i c)" for i
    using that None p by (simp add: load_reg_def cg_regs symb_at_def operand_def)
  have "\<exists>i. load_reg r (Some p) c = Some (insert_desc r (Some p) False (ins i c)) \<and>
      (\<forall>env m. rep lab fp V env c m \<longrightarrow>
         (\<exists>m'. run lab [i] m = Some m' \<and> sets r (val lab env c p) m m'))"
    using p unfolding operand_def
  proof (elim conjE disjE exE)
    assume v: "is_var V c p"
    then have "p \<in> V" by (simp add: is_var_def)
    note f = frame_okD [OF fr this]
    have "load_reg r (Some p) c =
        Some (insert_desc r (Some p) False (ins (ALDI (frame_addr c p) (R R_P) (R r)) c))"
      using v f(2) by (intro load) (simp add: is_var_def)
    moreover have "\<exists>m'. run lab [ALDI (frame_addr c p) (R R_P) (R r)] m = Some m' \<and>
        sets r (val lab env c p) m m'" if rep: "rep lab fp V env c m" for env m
      using run_ldi [OF repD(1) [OF rep] r(2) repD(3) [OF rep] f(3), of lab]
        repD(5) [OF rep \<open>p \<in> V\<close> no] val_var [OF v, of lab env] by (simp add: slot_def)
    ultimately show ?thesis by blast
  next
    fix n assume v: "s_type (symbs c ! p) = T_INT" "s_val1 (symbs c ! p) = IntV n"
    have "load_reg r (Some p) c = Some (insert_desc r (Some p) False (ins (ALDA n 0 (R r)) c))"
      using v by (intro load) simp
    moreover have "\<exists>m'. run lab [ALDA n 0 (R r)] m = Some m' \<and> sets r (val lab env c p) m m'"
      if rep: "rep lab fp V env c m" for env m
      using run_lda(1) [OF repD(1) [OF rep] r(2) repD(2) [OF rep], of lab n] v by (simp add: val_def)
    ultimately show ?thesis by blast
  next
    fix l assume v: "s_type (symbs c ! p) = T_TEXT" "s_val2 (symbs c ! p) = ValV l"
    have "load_reg r (Some p) c = Some (insert_desc r (Some p) False (ins (ALDA_L l (R r)) c))"
      using v by (intro load) simp
    moreover have "\<exists>m'. run lab [ALDA_L l (R r)] m = Some m' \<and> sets r (val lab env c p) m m'"
      if rep: "rep lab fp V env c m" for env m
      using run_lda(2) [OF repD(1) [OF rep] r(2) repD(2) [OF rep], of lab l] v by (simp add: val_def)
    ultimately show ?thesis by blast
  qed
  then obtain i where i: "load_reg r (Some p) c = Some (insert_desc r (Some p) False (ins i c))"
    "\<And>env m. rep lab fp V env c m \<Longrightarrow>
       \<exists>m'. run lab [i] m = Some m' \<and> sets r (val lab env c p) m m'" by blast
  have "False \<Longrightarrow> rdesc c ! 4 = (Some p, True)" by simp
  note put = gen_put [OF ok r free p new this i(2)]
  with i(1) show ?thesis unfolding ready_def by blast
qed

text \<open>Clearing a register that can be given up, then loading it.\<close>

lemma gen_reload:
  assumes ok: "desc_ok V c" and fr: "frame_ok fp V c" and r: "5 \<le> r" "r < 16"
    and drop: "droppable c r" and p: "operand V c p"
    and new: "\<And>q. 5 \<le> q \<Longrightarrow> q < 16 \<Longrightarrow> rname c q \<noteq> Some p"
  shows "\<exists>is c'. load_reg r (Some p) (clear_desc r c) = Some c' \<and> gen lab fp V c is c' \<and>
    ready r p c c' \<and> tests lab fp V (clear_desc r c) is p"
proof -
  have len: "length (rdesc c) = 16" using desc_okD(1) [OF ok] .
  note nth = clear_desc_nth [of r c, unfolded len, OF r(2)]
  have clr: "gen lab fp V c [] (clear_desc r c)" by (rule gen_clear [OF ok r drop])
  then have ok': "desc_ok V (clear_desc r c)" by (simp add: gen_def)
  have fr': "frame_ok fp V (clear_desc r c)" using fr frame_ok_cong [of "clear_desc r c" c] by simp
  have "operand V (clear_desc r c) p" using p operand_cong [of "clear_desc r c" c] by simp
  moreover have "rname (clear_desc r c) q \<noteq> Some p" if "5 \<le> q" "q < 16" for q
    using new [OF that] by (simp add: nth)
  moreover have "rname (clear_desc r c) r = None" by (simp add: nth)
  ultimately obtain "is" c' where "load_reg r (Some p) (clear_desc r c) = Some c'"
    "gen lab fp V (clear_desc r c) is c'" "ready r p (clear_desc r c) c'"
    "tests lab fp V (clear_desc r c) is p"
    using gen_load [OF ok' fr' r, of p lab] by blast
  with gen_trans [OF clr] show ?thesis by (auto simp: ready_def nth)
qed

lemma gen_spill_reload:
  assumes ok: "desc_ok V c" and fr: "frame_ok fp V c" and r: "5 \<le> r" "r < 16"
    and named: "rname c r \<noteq> None" and p: "operand V c p"
    and new: "\<And>q. 5 \<le> q \<Longrightarrow> q < 16 \<Longrightarrow> rname c q \<noteq> Some p"
  shows "\<exists>is c1 c'. spill_one r c = Some c1 \<and> load_reg r (Some p) (clear_desc r c1) = Some c' \<and>
    gen lab fp V c is c' \<and> ready r p c c'"
proof -
  from r have "4 \<le> r" by simp
  from gen_spill [OF ok fr this r(2), of lab] named obtain "is" c1 where
    c1: "spill_one r c = Some c1" "gen lab fp V c is c1" "rdesc c1 = (rdesc c)[r := (rname c r, False)]"
    by blast
  then have sym: "symbs c1 = symbs c" "tos c1 = tos c" and ok1: "desc_ok V c1" by (simp_all add: gen_def)
  have len: "length (rdesc c) = 16" using desc_okD(1) [OF ok] .
  have "droppable c1 r" using c1(3) len r by (simp add: droppable_def)
  moreover have "rname c1 q \<noteq> Some p" if "5 \<le> q" "q < 16" for q
    using new [OF that] new [OF r] c1(3) len that r by (cases "q = r") simp_all
  ultimately obtain js c' where "load_reg r (Some p) (clear_desc r c1) = Some c'"
    "gen lab fp V c1 js c'" "ready r p c1 c'"
    using gen_reload [OF ok1 _ r, of fp p lab] frame_ok_cong [OF sym] fr p operand_cong [OF sym(1)] by blast
  with c1 gen_trans [OF c1(2)] show ?thesis by (fastforce simp: ready_def)
qed

lemma gen_rreg:
  assumes ok: "desc_ok V c" and fr: "frame_ok fp V c" and p: "operand V c p"
  shows "\<exists>r is c'. get_rreg (Some p) c = Some (r, c') \<and> 5 \<le> r \<and> r < 16 \<and>
    gen lab fp V c is c' \<and> ready r p c c'"
proof (cases "List.find (\<lambda>r. rname c r = Some p) [5..<16]")
  case (Some r)
  note r = find_name_cases [OF Some]
  then have "4 \<le> r" by simp
  from gen_spill [OF ok fr this r(2), of lab] r(3) obtain "is" c' where
    c': "spill_one r c = Some c'" "gen lab fp V c is c'" "rdesc c' = (rdesc c)[r := (rname c r, False)]"
    by blast
  then have "ready r p c c'"
    using r desc_okD(1) [OF ok] by (simp add: ready_def droppable_def)
  with Some r c' show ?thesis by (auto simp: get_rreg_def cg_regs)
next
  case None
  note new = find_name_None [OF None]
  show ?thesis
  proof (cases "List.find (\<lambda>r. rname c r = None) [5..<16]")
    case (Some r)
    note r = find_name_cases [OF Some]
    from gen_load [OF ok fr r(1-3) p new, of lab] None Some r show ?thesis
      by (auto simp: get_rreg_def cg_regs)
  next
    case full: None
    show ?thesis
    proof (cases "List.find (\<lambda>r. \<not> rmod c r) [5..<16]")
      case (Some r)
      note r = find_name_cases [OF Some]
      then have "droppable c r" by (auto simp: droppable_def)
      from gen_reload [OF ok fr r(1,2) this p new, of lab] None full Some r show ?thesis
        by (auto simp: get_rreg_def cg_regs)
    next
      case mods: None
      have five: "(5 :: nat) \<le> 5" "(5 :: nat) < 16" by simp_all
      from gen_spill_reload [OF ok fr five find_name_None [OF full five] p new, of lab] None full mods
      show ?thesis by (fastforce simp: get_rreg_def cg_regs)
    qed
  qed
qed

lemma gen_areg:
  assumes ok: "desc_ok V c" and fr: "frame_ok fp V c" and p: "operand V c p"
    and cr: "5 \<le> cr" "cr < 16" "rname c cr \<noteq> None"
  shows "\<exists>r is c'. get_areg (Some p) cr c = Some (r, c') \<and> r < 16 \<and> gen lab fp V c is c' \<and>
    rname c' r = Some p \<and> rdesc c' ! cr = rdesc c ! cr \<and> rdesc c' ! 4 = rdesc c ! 4"
proof (cases "List.find (\<lambda>r. rname c r = Some p) [0..<16]")
  case (Some r)
  from Some find_name_cases [OF Some] gen_refl [OF ok] show ?thesis
    by (auto simp: get_areg_def cg_regs)
next
  case None
  have new: "\<And>q. 5 \<le> q \<Longrightarrow> q < 16 \<Longrightarrow> rname c q \<noteq> Some p" using find_name_None [OF None] by simp
  show ?thesis
  proof (cases "List.find (\<lambda>r. rname c r = None) [5..<16]")
    case (Some r)
    note r = find_name_cases [OF Some]
    with cr(3) have "cr \<noteq> r" by auto
    with gen_load [OF ok fr r(1-3) p new, of lab] None Some r cr show ?thesis
      by (fastforce simp: get_areg_def cg_regs ready_def)
  next
    case full: None
    show ?thesis
    proof (cases "List.find (\<lambda>r. \<not> rmod c r \<and> r \<noteq> cr) [5..<16]")
      case (Some r)
      note r = find_name_cases [OF Some]
      then have "droppable c r" by (auto simp: droppable_def)
      from gen_reload [OF ok fr r(1,2) this p new, of lab] None full Some r cr show ?thesis
        by (fastforce simp: get_areg_def cg_regs ready_def)
    next
      case mods: None
      obtain r where r: "List.find (\<lambda>r. r \<noteq> cr) [5..<16] = Some r"
      proof (cases "List.find (\<lambda>r. r \<noteq> cr) [5..<16]")
        case nil: None
        from find_name_None [OF nil, of 5] find_name_None [OF nil, of 6] show ?thesis by simp
      qed (use that in blast)
      note r' = find_name_cases [OF r]
      from gen_spill_reload [OF ok fr r'(1,2) find_name_None [OF full r'(1,2)] p new, of lab]
        None full mods r r' cr show ?thesis
        by (fastforce simp: get_areg_def cg_regs ready_def)
    qed
  qed
qed

section \<open>Assignments\<close>

lemma desc_ok_insert:
  assumes ok: "desc_ok V c" and r: "5 \<le> r" "r < 16" and a: "is_var V c a"
  shows "desc_ok V (insert_desc r (Some a) True c)"
proof -
  note nth = insert_desc_nth [OF ok r(2)]
  show ?thesis
  proof (rule desc_okI [OF _ ok])
    fix q x assume q: "4 \<le> q" "q < 16" "rname (insert_desc r (Some a) True c) q = Some x"
    show "operand V c x \<and> (rmod (insert_desc r (Some a) True c) q \<longrightarrow> is_var V c x)"
    proof (cases "q = r")
      case True
      with q nth a show ?thesis by (auto simp: operand_def is_var_def)
    next
      case False
      with q nth [OF q(2)] have "rname c q = Some x" "rmod (insert_desc r (Some a) True c) q = rmod c q"
        by (auto split: if_splits)
      with desc_okD(2,3) [OF ok q(1,2), of x] show ?thesis by (metis prod.collapse)
    qed
  next
    fix q s x assume b: "5 \<le> q" "q < 16" "5 \<le> s" "s < 16"
      "rname (insert_desc r (Some a) True c) q = Some x" "rname (insert_desc r (Some a) True c) s = Some x"
    with nth [OF b(2)] nth [OF b(4)] desc_okD(4) [OF ok b(1-4), of x] show "q = s"
      by (auto split: if_splits)
  qed (use desc_okD(1) [OF ok] r nth in auto)
qed

lemma rep_emit: "rep lab fp V env (emit l c) m = rep lab fp V env c m"
proof -
  have "symbs (emit l c) = symbs c" "rdesc (emit l c) = rdesc c" by (simp_all add: emit_def)
  then show ?thesis
    unfolding rep_def cached_def by (simp add: val_cong [of "emit l c" c] slot_cong [of "emit l c" c])
qed

lemma rep_assign:
  assumes ok: "desc_ok V c" and fr: "frame_ok fp V c" and r: "5 \<le> r" "r < 16"
    and drop: "droppable c r" and a: "a \<in> V" and notres: "rname c 4 \<noteq> Some a"
    and rep: "rep lab fp V env c m"
    and m': "length (reg m') = length (reg m)" "mem m' = mem m"
      "\<And>z. get_reg z m' = (if z = r then v else get_reg z m)"
  shows "rep lab fp V (env(a := v)) (insert_desc r (Some a) True c) m'"
proof -
  let ?c = "insert_desc r (Some a) True c"
  note nth = insert_desc_nth [OF ok r(2), of _ a True]
  have sym: "symbs ?c = symbs c" by simp
  have var: "is_var V c a" using frame_okD(1) [OF fr a] .
  have other: "val lab (env(a := v)) c x = val lab env c x" if "x \<noteq> a" for x
    using that by (simp add: val_def split: symtype.split)
  show ?thesis
    unfolding rep_def val_cong [OF sym] slot_cong [OF sym]
  proof (intro conjI ballI allI impI)
    fix q x assume q: "q \<in> {4..<16}" "rname ?c q = Some x"
    show "get_reg q m' = val lab (env(a := v)) c x"
    proof (cases "q = r")
      case True
      with q nth [of r] r have "x = a" by simp
      with True m'(3) val_var [OF var] show ?thesis by simp
    next
      case False
      with q nth [of q] have x: "rname c q = Some x" by (auto split: if_splits)
      moreover have "x \<noteq> a"
      proof
        assume "x = a"
        with x notres q nth [of q] False show False by (cases "q = 4") auto
      qed
      ultimately show ?thesis using False m'(3) repD(4) [OF rep, of q x] q other by simp
    qed
  next
    fix x assume x: "x \<in> V"
    show "cached ?c x \<or> load_word (slot fp c x) (mem m') = (env(a := v)) x"
    proof (cases "x = a")
      case True
      have "rdesc ?c ! r = (Some a, True)" using nth [of r] r by simp
      with True r show ?thesis unfolding cached_def by (intro disjI1 bexI [of _ r]) auto
    next
      case False
      have "cached ?c x" if "cached c x"
      proof -
        from that obtain q where q: "q \<in> {4..<16}" "rdesc c ! q = (Some x, True)" by (auto simp: cached_def)
        then have "\<exists>q' \<in> {4..<16}. q' \<noteq> r \<and> rdesc c ! q' = (Some x, True)"
        proof (cases "q = r")
          case True
          with drop r q show ?thesis unfolding droppable_def by (intro bexI [of _ 4]) simp_all
        qed blast
        then obtain q' where "q' \<in> {4..<16}" "q' \<noteq> r" "rdesc c ! q' = (Some x, True)" by blast
        with nth [of q'] False show ?thesis unfolding cached_def by (intro bexI [of _ q']) auto
      qed
      then show ?thesis using repD(5) [OF rep x] False m'(2) by auto
    qed
  qed (use repD(1-3) [OF rep] m' r in simp_all)
qed

text \<open>What an instruction of the machine's arithmetic computes, when it computes something.\<close>

definition computes :: "(u32 \<Rightarrow> u32 \<Rightarrow> asm) \<Rightarrow> (u32 \<Rightarrow> u32 \<Rightarrow> u32 option) \<Rightarrow> bool" where
  "computes op g \<longleftrightarrow> (\<forall>lab x y m v. x < 16 \<longrightarrow> y < 16 \<longrightarrow> length (reg m) = 16 \<longrightarrow>
     g (get_reg x m) (get_reg y m) = Some v \<longrightarrow>
     (\<exists>m'. run lab [op (R x) (R y)] m = Some m' \<and> sets y v m m'))"

lemma computes_arith:
  "computes AADD (\<lambda>x y. Some (x + y))" "computes ASUB (\<lambda>x y. Some (x - y))"
  "computes AMUL (\<lambda>x y. Some (x * y))" "computes ADIV (\<lambda>x y. if y = 0 then None else Some (x div y))"
  unfolding computes_def using sets_put by (simp_all add: R_nat)

text \<open>An assignment of three address code, as an effect on the environment.\<close>

definition assigns ::
  "(u32 \<Rightarrow> u32) \<Rightarrow> u32 \<Rightarrow> nat set \<Rightarrow> ((nat \<Rightarrow> u32) \<Rightarrow> (nat \<Rightarrow> u32) option) \<Rightarrow>
     'a cg_scheme \<Rightarrow> asm list \<Rightarrow> 'a cg_scheme \<Rightarrow> bool" where
  "assigns lab fp V f c is c' \<longleftrightarrow> lines c' = lines c @ map Code is \<and> symbs c' = symbs c \<and>
     tos c' = tos c \<and> desc_ok V c' \<and> rname c' 4 = rname c 4 \<and>
     (\<forall>env env' m. f env = Some env' \<longrightarrow> rep lab fp V env c m \<longrightarrow>
        (\<exists>m'. run lab is m = Some m' \<and> rep lab fp V env' c' m'))"

lemma cg_copy_assigns:
  assumes ok: "desc_ok V c" and fr: "frame_ok fp V c" and a: "a \<in> V" and b: "operand V c b"
    and notres: "rname c 4 \<noteq> Some a"
  shows "\<exists>is c'. cg_copy (Some a) (Some b) c = Some c' \<and>
    assigns lab fp V (\<lambda>env. Some (env(a := val lab env c b))) c is c'"
proof -
  from gen_rreg [OF ok fr b] obtain r "is" c1 where
    c1: "get_rreg (Some b) c = Some (r, c1)" "5 \<le> r" "r < 16" "gen lab fp V c is c1" "ready r b c c1"
    by blast
  let ?c = "insert_desc r (Some a) True c1"
  have sym: "symbs c1 = symbs c" "tos c1 = tos c" and ok1: "desc_ok V c1"
    using c1(4) by (simp_all add: gen_def)
  have fr1: "frame_ok fp V c1" using fr frame_ok_cong [OF sym] by simp
  have r4: "rdesc c1 ! 4 = rdesc c ! 4" using c1(2,5) by (simp add: ready_def)
  have "\<exists>m'. run lab is m = Some m' \<and> rep lab fp V (env(a := val lab env c b)) ?c m'"
    if rep: "rep lab fp V env c m" for env m
  proof -
    from c1(4) rep obtain m' where m': "run lab is m = Some m'" "rep lab fp V env c1 m'"
      by (auto simp: gen_def)
    have "get_reg r m' = val lab env c b"
      using named_val [OF ok1 m'(2) c1(3), of b] c1(5) val_cong [OF sym(1)] by (simp add: ready_def)
    with rep_assign [OF ok1 fr1 c1(2,3) _ a _ m'(2) refl refl, of "val lab env c b"] c1(5) r4 notres m'(1)
    show ?thesis by (auto simp: ready_def)
  qed
  then have "assigns lab fp V (\<lambda>env. Some (env(a := val lab env c b))) c is ?c"
    using c1(4) sym desc_ok_insert [OF ok1 c1(2,3) frame_okD(1) [OF fr1 a]] r4
      insert_desc_nth [OF ok1 c1(3), of 4 a True] c1(2)
    by (simp add: assigns_def gen_def)
  with c1(1) show ?thesis by (fastforce simp: cg_copy_def)
qed

lemma cg_bin_assigns:
  assumes ok: "desc_ok V c" and fr: "frame_ok fp V c" and a: "a \<in> V"
    and x: "operand V c x" and y: "operand V c y"
    and notres: "rname c 4 \<noteq> Some a" and op: "computes op g"
  shows "\<exists>is c'. cg_bin op (Some a) (Some x) (Some y) c = Some c' \<and>
    assigns lab fp V (\<lambda>env. map_option (\<lambda>v. env(a := v)) (g (val lab env c x) (val lab env c y))) c is c'"
proof -
  from gen_rreg [OF ok fr y] obtain r "is" c1 where
    c1: "get_rreg (Some y) c = Some (r, c1)" "5 \<le> r" "r < 16" "gen lab fp V c is c1" "ready r y c c1"
    by blast
  have sym: "symbs c1 = symbs c" "tos c1 = tos c" and ok1: "desc_ok V c1"
    using c1(4) by (simp_all add: gen_def)
  have fr1: "frame_ok fp V c1" using fr frame_ok_cong [OF sym] by simp
  have x1: "operand V c1 x" using x operand_cong [OF sym(1)] by simp
  have "rname c1 r \<noteq> None" using c1(5) by (simp add: ready_def)
  from gen_areg [OF ok1 fr1 x1 c1(2,3) this, of lab] obtain q js c2 where
    c2: "get_areg (Some x) r c1 = Some (q, c2)" "q < 16" "gen lab fp V c1 js c2"
      "rname c2 q = Some x" "rdesc c2 ! r = rdesc c1 ! r" "rdesc c2 ! 4 = rdesc c1 ! 4"
    by blast
  have g: "gen lab fp V c (is @ js) c2" by (rule gen_trans [OF c1(4) c2(3)])
  have sym2: "symbs c2 = symbs c" "tos c2 = tos c" and ok2: "desc_ok V c2"
    using g by (simp_all add: gen_def)
  have r4: "rdesc c2 ! 4 = rdesc c ! 4" using c2(6) c1(2,5) by (simp add: ready_def)
  have drop: "droppable c2 r" and name: "rname c2 r = Some y"
    using c2(5,6) c1(5) by (auto simp: ready_def droppable_def)
  let ?i = "op (R q) (R r)"
  let ?c3 = "clear_desc r (ins ?i c2)"
  let ?c = "insert_desc r (Some a) True ?c3"
  have ok2': "desc_ok V (ins ?i c2)" and drop2: "droppable (ins ?i c2) r"
    using desc_ok_weaken [OF ok2, of "ins ?i c2"] desc_okD(1) [OF ok2] drop
    by (simp_all add: emit_def droppable_def)
  have clr: "gen lab fp V (ins ?i c2) [] ?c3" by (rule gen_clear [OF ok2' c1(2,3) drop2])
  then have ok3: "desc_ok V ?c3" by (simp add: gen_def)
  have sym3: "symbs ?c3 = symbs c" "tos ?c3 = tos c" using sym2 by (simp_all add: emit_def)
  have fr3: "frame_ok fp V ?c3" using fr frame_ok_cong [OF sym3] by simp
  have len3: "length (rdesc (ins ?i c2)) = 16" using desc_okD(1) [OF ok2'] .
  have d3: "droppable ?c3 r" "rname ?c3 4 \<noteq> Some a"
    using clear_desc_nth [of r "ins ?i c2"] len3 c1(2,3) r4 notres
    by (simp_all add: droppable_def emit_def)
  have "\<exists>m'. run lab (is @ js @ [?i]) m = Some m' \<and> rep lab fp V (env(a := v)) ?c m'"
    if rep: "rep lab fp V env c m" and v: "g (val lab env c x) (val lab env c y) = Some v" for env m v
  proof -
    from g rep obtain m2 where m2: "run lab (is @ js) m = Some m2" "rep lab fp V env c2 m2"
      by (auto simp: gen_def)
    have "get_reg q m2 = val lab env c x" "get_reg r m2 = val lab env c y"
      using named_val [OF ok2 m2(2) c2(2,4)] named_val [OF ok2 m2(2) c1(3) name] val_cong [OF sym2(1)]
      by simp_all
    with v op c2(2) c1(3) repD(1) [OF m2(2)] obtain m3 where
      m3: "run lab [?i] m2 = Some m3" "sets r v m2 m3" unfolding computes_def by metis
    have "rep lab fp V env (ins ?i c2) m2"
      using m2(2) by (simp add: rep_emit)
    with clr have "rep lab fp V env ?c3 m2" by (auto simp: gen_def)
    from rep_assign [OF ok3 fr3 c1(2,3) d3(1) a d3(2) this, of m3 v] m3(2)
    have "rep lab fp V (env(a := v)) ?c m3" by (simp add: sets_def)
    moreover have "run lab (is @ js @ [?i]) m = Some m3"
      using m2(1) m3(1) run_append [of lab "is @ js" "[?i]" m] by simp
    ultimately show ?thesis by blast
  qed
  then have "assigns lab fp V
      (\<lambda>env. map_option (\<lambda>v. env(a := v)) (g (val lab env c x) (val lab env c y))) c (is @ js @ [?i]) ?c"
    using g sym3 desc_ok_insert [OF ok3 c1(2,3) frame_okD(1) [OF fr3 a]] r4
      insert_desc_nth [OF ok3 c1(3), of 4 a True] c1(2) clear_desc_nth [of r "ins ?i c2" 4] len3 c1(3)
    by (auto simp: assigns_def gen_def emit_def)
  moreover have "cg_bin op (Some a) (Some x) (Some y) c = Some ?c"
    using c1(1) c2(1) by (simp add: cg_bin_def)
  ultimately show ?thesis by blast
qed

end
