(* ===== verification/VC_CgCorrect.thy ===== *)
theory VC_CgCorrect
  imports VC_CgProof VC_Parse
begin

text \<open>
  What the code generator's instructions for whole runs of three address code do: a block of
  arithmetic and copies, the spill at a label, the test before a conditional branch; and two
  things it gets wrong, a call's result that a second call loses and the operand of a negation.
\<close>

declare upt_rec_numeral [simp del]

section \<open>Spilling and flushing every register\<close>

lemma gen_spill_each:
  assumes "desc_ok V c" and "frame_ok fp V c" and "set rs \<subseteq> {4..<16}"
  shows "\<exists>is c'. spill_each rs c = Some c' \<and> gen lab fp V c is c' \<and>
    (\<forall>q < 16. rdesc c' ! q =
       (if q \<in> set rs \<and> rname c q \<noteq> None then (rname c q, False) else rdesc c ! q))"
  using assms
proof (induction rs arbitrary: c)
  case Nil
  then show ?case using gen_refl by fastforce
next
  case (Cons r rs)
  then have r: "4 \<le> r" "r < 16" by simp_all
  from gen_spill [OF Cons.prems(1,2) r, of lab] obtain "is" c1 where
    c1: "spill_one r c = Some c1" "gen lab fp V c is c1"
      "rname c r \<noteq> None \<longrightarrow> rdesc c1 = (rdesc c)[r := (rname c r, False)]" "rname c r = None \<longrightarrow> c1 = c"
    by (elim exE conjE) (rule that)
  then have sym: "symbs c1 = symbs c" "tos c1 = tos c" and ok1: "desc_ok V c1"
    by (simp_all add: gen_def)
  from Cons.IH [OF ok1] Cons.prems(2,3) frame_ok_cong [OF sym] obtain js c' where
    c': "spill_each rs c1 = Some c'" "gen lab fp V c1 js c'"
      "\<And>q. q < 16 \<Longrightarrow> rdesc c' ! q =
         (if q \<in> set rs \<and> rname c1 q \<noteq> None then (rname c1 q, False) else rdesc c1 ! q)"
    by auto
  have "rdesc c1 ! q = (if q = r \<and> rname c q \<noteq> None then (rname c q, False) else rdesc c ! q)"
    if "q < 16" for q
    using c1(3,4) that desc_okD(1) [OF Cons.prems(1)] r by (cases "rname c r = None") (auto simp: nth_list_update)
  with c'(3) have "rdesc c' ! q =
      (if q \<in> set (r # rs) \<and> rname c q \<noteq> None then (rname c q, False) else rdesc c ! q)"
    if "q < 16" for q using that by auto
  with c1(1) c'(1) gen_trans [OF c1(2) c'(2)] show ?case by fastforce
qed

definition clean :: "'a cg_scheme \<Rightarrow> nat \<Rightarrow> bool" where
  "clean c r \<longleftrightarrow> (\<forall>p. rdesc c ! r \<noteq> (Some p, True))"

lemma gen_spill_all:
  assumes "desc_ok V c" and "frame_ok fp V c"
  shows "\<exists>is c'. spill_all c = Some c' \<and> gen lab fp V c is c' \<and>
    (\<forall>q < 16. rname c' q = rname c q) \<and> rdesc c' ! 4 = rdesc c ! 4 \<and> (\<forall>q \<in> {5..<16}. clean c' q)"
proof -
  from gen_spill_each [OF assms, of "[5..<16]" lab] obtain "is" c' where
    c': "spill_each [5..<16] c = Some c'" "gen lab fp V c is c'"
      "\<And>q. q < 16 \<Longrightarrow> rdesc c' ! q =
         (if q \<in> set [5..<16] \<and> rname c q \<noteq> None then (rname c q, False) else rdesc c ! q)"
    by auto
  have "rname c' q = rname c q" if "q < 16" for q using c'(3) [OF that] by simp
  moreover have "rdesc c' ! 4 = rdesc c ! 4" using c'(3) [of 4] by simp
  moreover have "clean c' q" if "q \<in> {5..<16}" for q
    using c'(3) [of q] that by (cases "rdesc c ! q") (auto simp: clean_def)
  ultimately show ?thesis using c'(1,2) by (auto simp: spill_all_def cg_regs)
qed

lemma gen_clear_each:
  assumes "desc_ok V c" and "set rs \<subseteq> {4..<16}" and "\<And>q. q \<in> set rs \<Longrightarrow> clean c q"
  shows "gen lab fp V c [] (fold clear_desc rs c)"
    and "\<And>q. q < 16 \<Longrightarrow> rname (fold clear_desc rs c) q = (if q \<in> set rs then None else rname c q)"
proof -
  have "gen lab fp V c [] (fold clear_desc rs c) \<and>
    (\<forall>q < 16. rname (fold clear_desc rs c) q = (if q \<in> set rs then None else rname c q))"
    using assms
  proof (induction rs arbitrary: c)
    case Nil
    then show ?case using gen_refl by simp
  next
    case (Cons r rs)
    have len: "length (rdesc c) = 16" using desc_okD(1) [OF Cons.prems(1)] .
    from Cons.prems have r: "4 \<le> r" "r < 16" "clean c r" by simp_all
    note nth = clear_desc_nth [of r c, unfolded len, OF r(2)]
    have g: "gen lab fp V c [] (clear_desc r c)"
      using r(3) by (intro gen_drop [OF Cons.prems(1) r(1,2)]) (simp add: clean_def)
    then have ok: "desc_ok V (clear_desc r c)" by (simp add: gen_def)
    have "clean (clear_desc r c) q" if "q \<in> set rs" for q
      using Cons.prems(3) [of q] that by (simp add: clean_def nth)
    with Cons.IH [OF ok] Cons.prems(2)
    have ih: "gen lab fp V (clear_desc r c) [] (fold clear_desc rs (clear_desc r c))"
      "\<And>q. q < 16 \<Longrightarrow> rname (fold clear_desc rs (clear_desc r c)) q =
         (if q \<in> set rs then None else rname (clear_desc r c) q)"
      by auto
    have "gen lab fp V c [] (fold clear_desc (r # rs) c)" using gen_trans [OF g ih(1)] by simp
    moreover have "rname (fold clear_desc (r # rs) c) q = (if q \<in> set (r # rs) then None else rname c q)"
      if "q < 16" for q using ih(2) [OF that] by (simp add: nth)
    ultimately show ?case by blast
  qed
  then show "gen lab fp V c [] (fold clear_desc rs c)"
    and "\<And>q. q < 16 \<Longrightarrow> rname (fold clear_desc rs c) q = (if q \<in> set rs then None else rname c q)"
    by blast+
qed

lemma gen_flush_all:
  assumes ok: "desc_ok V c" and fr: "frame_ok fp V c" and res: "clean c 4"
  shows "\<exists>is c'. flush_all c = Some c' \<and> gen lab fp V c is c' \<and> (\<forall>q \<in> {4..<16}. rname c' q = None)"
proof -
  from gen_spill_all [OF ok fr, of lab] obtain "is" c1 where
    c1: "spill_all c = Some c1" "gen lab fp V c is c1" "rdesc c1 ! 4 = rdesc c ! 4"
      "\<And>q. q \<in> {5..<16} \<Longrightarrow> clean c1 q" by blast
  then have ok1: "desc_ok V c1" by (simp add: gen_def)
  let ?c = "fold clear_desc ([5..<16] @ [4]) c1"
  have clean: "clean c1 q" if "q \<in> set ([5..<16] @ [4])" for q
    using c1(3,4) res that by (cases "q = 4") (auto simp: clean_def)
  have sub: "set ([5..<16] @ [4]) \<subseteq> {4..<16 :: nat}" by auto
  have "gen lab fp V c (is @ []) ?c"
    by (rule gen_trans [OF c1(2) gen_clear_each(1) [OF ok1 sub clean]])
  moreover have "rname ?c q = None" if "q \<in> {4..<16}" for q
    using gen_clear_each(2) [OF ok1 sub clean, of q] that by auto
  moreover have "flush_all c = Some ?c" using c1(1) by (simp add: flush_all_def cg_regs)
  ultimately show ?thesis by auto
qed

text \<open>With nothing modified in a register, the frame holds the environment.\<close>

definition home :: "u32 \<Rightarrow> nat set \<Rightarrow> 'a cg_scheme \<Rightarrow> (nat \<Rightarrow> u32) \<Rightarrow> vam \<Rightarrow> bool" where
  "home fp V c env m \<longleftrightarrow> (\<forall>p \<in> V. load_word (slot fp c p) (mem m) = env p)"

lemma rep_home:
  assumes "rep lab fp V env c m" and "\<And>q. q \<in> {4..<16} \<Longrightarrow> clean c q"
  shows "home fp V c env m"
proof -
  have "\<not> cached c p" for p using assms(2) by (auto simp: cached_def clean_def)
  with repD(5) [OF assms(1)] show ?thesis by (simp add: home_def)
qed

section \<open>Blocks of arithmetic\<close>

text \<open>The meaning of three address code that only assigns: \<open>None\<close> for a division by zero.\<close>

fun arith_op :: "tacop \<Rightarrow> (u32 \<Rightarrow> u32 \<Rightarrow> u32 option) option" where
  "arith_op TAC_ADD = Some (\<lambda>x y. Some (x + y))"
| "arith_op TAC_SUB = Some (\<lambda>x y. Some (x - y))"
| "arith_op TAC_MUL = Some (\<lambda>x y. Some (x * y))"
| "arith_op TAC_DIV = Some (\<lambda>x y. if y = 0 then None else Some (x div y))"
| "arith_op _ = None"

definition effect :: "(u32 \<Rightarrow> u32) \<Rightarrow> 'a cg_scheme \<Rightarrow> tac \<Rightarrow> (nat \<Rightarrow> u32) \<Rightarrow> (nat \<Rightarrow> u32) option" where
  "effect lab c t env =
     (case (t_a t, t_b t, t_c t) of
        (Var a, Var x, Var y) \<Rightarrow>
          (case arith_op (t_op t) of
             Some g \<Rightarrow> map_option (\<lambda>v. env(a := v)) (g (val lab env c x) (val lab env c y))
           | None \<Rightarrow> None)
      | (Var a, Var x, Null) \<Rightarrow> if t_op t = TAC_COPY then Some (env(a := val lab env c x)) else None
      | _ \<Rightarrow> None)"

fun block_effect :: "(u32 \<Rightarrow> u32) \<Rightarrow> 'a cg_scheme \<Rightarrow> tac list \<Rightarrow> (nat \<Rightarrow> u32) \<Rightarrow> (nat \<Rightarrow> u32) option" where
  "block_effect lab c [] env = Some env"
| "block_effect lab c (t # us) env = effect lab c t env \<bind> block_effect lab c us"

text \<open>An assignment to a variable of the frame from operands the generator can load.\<close>

definition assignment :: "nat set \<Rightarrow> 'a cg_scheme \<Rightarrow> tac \<Rightarrow> bool" where
  "assignment V c t \<longleftrightarrow>
     (case (t_a t, t_b t, t_c t) of
        (Var a, Var x, Var y) \<Rightarrow> arith_op (t_op t) \<noteq> None \<and> a \<in> V \<and> operand V c x \<and> operand V c y
      | (Var a, Var x, Null) \<Rightarrow> t_op t = TAC_COPY \<and> a \<in> V \<and> operand V c x
      | _ \<Rightarrow> False)"

fun cg_block :: "tac list \<Rightarrow> 'a cg_scheme \<Rightarrow> 'a cg_scheme option" where
  "cg_block [] c = Some c"
| "cg_block (t # us) c = do { c \<leftarrow> cg_instr t c; cg_block us c }"

lemma assignsD:
  assumes "assigns lab fp V f c is c'" and "f env = Some env'" and "rep lab fp V env c m"
  shows "\<exists>m'. run lab is m = Some m' \<and> rep lab fp V env' c' m'"
  using assms unfolding assigns_def by blast

lemma bin_assigns:
  assumes "desc_ok V c" and "frame_ok fp V c" and "a \<in> V" and "operand V c x" and "operand V c y"
    and "rname c 4 \<noteq> Some a" and "arith_op op = Some g"
    and "t_op t = op" and "t_a t = Var a" and "t_b t = Var x" and "t_c t = Var y"
  shows "\<exists>is c'. cg_instr t c = Some c' \<and>
    assigns lab fp V (\<lambda>env. map_option (\<lambda>v. env(a := v)) (g (val lab env c x) (val lab env c y))) c is c'"
proof -
  obtain i where i: "computes i g" "cg_instr t c = cg_bin i (Some a) (Some x) (Some y) c"
    using assms(7-) computes_arith by (cases op) (auto simp: cg_instr_def bin_instr_def)
  from cg_bin_assigns [OF assms(1-6) i(1)] i(2) show ?thesis by simp
qed

lemma instr_assigns:
  assumes "desc_ok V c" and "frame_ok fp V c" and "assignment V c t"
    and "\<And>a. a \<in> V \<Longrightarrow> rname c 4 \<noteq> Some a"
  shows "\<exists>is c'. cg_instr t c = Some c' \<and> assigns lab fp V (effect lab c t) c is c'"
proof (cases "t_c t")
  case Null
  with assms(3) obtain a x where t: "t_a t = Var a" "t_b t = Var x" "t_op t = TAC_COPY" "a \<in> V" "operand V c x"
    by (auto simp: assignment_def split: arg.splits)
  have "effect lab c t = (\<lambda>env. Some (env(a := val lab env c x)))"
    by (rule ext) (simp add: effect_def t Null)
  with cg_copy_assigns [OF assms(1,2) t(4,5) assms(4) [OF t(4)], of lab] t Null show ?thesis
    by (simp add: cg_instr_def)
next
  case (Var y)
  with assms(3) obtain a x g where t: "t_a t = Var a" "t_b t = Var x" "arith_op (t_op t) = Some g"
    "a \<in> V" "operand V c x" "operand V c y"
    by (auto simp: assignment_def split: arg.splits)
  have "effect lab c t =
      (\<lambda>env. map_option (\<lambda>v. env(a := v)) (g (val lab env c x) (val lab env c y)))"
    by (rule ext) (simp add: effect_def t Var)
  with bin_assigns [OF assms(1,2) t(4-6) assms(4) [OF t(4)] t(3) refl t(1,2) Var, of lab] show ?thesis
    by simp
qed (use assms(3) in \<open>auto simp: assignment_def split: arg.splits\<close>)

lemma effect_cong:
  assumes "symbs c' = symbs c"
  shows "effect lab c' = effect lab c"
proof -
  have v: "val lab env c' = val lab env c" for env by (rule ext) (rule val_cong [OF assms])
  show ?thesis by (rule ext) (unfold effect_def v, rule refl)
qed

lemma block_effect_cong: "symbs c' = symbs c \<Longrightarrow> block_effect lab c' us = block_effect lab c us"
  by (induction us; rule ext) (simp_all add: effect_cong [of c' c])

lemma assignment_cong:
  assumes "symbs c' = symbs c"
  shows "assignment V c' t = assignment V c t"
proof -
  have o: "operand V c' = operand V c" by (rule ext) (rule operand_cong [OF assms])
  show ?thesis by (unfold assignment_def o) (rule refl)
qed

lemma block_assigns:
  assumes "desc_ok V c" and "frame_ok fp V c" and "\<And>t. t \<in> set us \<Longrightarrow> assignment V c t"
    and "\<And>a. a \<in> V \<Longrightarrow> rname c 4 \<noteq> Some a"
  shows "\<exists>is c'. cg_block us c = Some c' \<and> assigns lab fp V (block_effect lab c us) c is c'"
  using assms
proof (induction us arbitrary: c)
  case Nil
  then have "assigns lab fp V (block_effect lab c []) c [] c" by (simp add: assigns_def)
  then show ?case by fastforce
next
  case (Cons t us)
  from instr_assigns [OF Cons.prems(1,2), of t lab] Cons.prems(3,4) obtain "is" c1 where
    c1: "cg_instr t c = Some c1" "assigns lab fp V (effect lab c t) c is c1" by auto
  then have sym: "symbs c1 = symbs c" "tos c1 = tos c" and ok1: "desc_ok V c1" and r4: "rname c1 4 = rname c 4"
    by (simp_all add: assigns_def)
  from Cons.IH [OF ok1] frame_ok_cong [OF sym] Cons.prems(2-4) r4 assignment_cong [OF sym(1)]
  obtain js c' where c': "cg_block us c1 = Some c'" "assigns lab fp V (block_effect lab c1 us) c1 js c'"
    by auto
  have "assigns lab fp V (block_effect lab c (t # us)) c (is @ js) c'"
    unfolding assigns_def
  proof (intro conjI allI impI)
    fix env env' m assume e: "block_effect lab c (t # us) env = Some env'" and rep: "rep lab fp V env c m"
    then obtain env1 where e1: "effect lab c t env = Some env1" "block_effect lab c us env1 = Some env'"
      by (cases "effect lab c t env") auto
    from assignsD [OF c1(2) e1(1) rep] obtain m1 where
      m1: "run lab is m = Some m1" "rep lab fp V env1 c1 m1" by blast
    from e1(2) have "block_effect lab c1 us env1 = Some env'" by (simp add: block_effect_cong [OF sym(1)])
    from assignsD [OF c'(2) this m1(2)] m1(1)
    show "\<exists>m'. run lab (is @ js) m = Some m' \<and> rep lab fp V env' c' m'"
      by (simp add: run_append)
  qed (use c1(2) c'(2) in \<open>simp_all add: assigns_def\<close>)
  with c1(1) c'(1) show ?case by fastforce
qed

lemma block_stored:
  assumes ok: "desc_ok V c" and fr: "frame_ok fp V c" and us: "\<And>t. t \<in> set us \<Longrightarrow> assignment V c t"
    and res: "rname c 4 = None"
    and l: "t_op t = TAC_LABEL" "t_a t = Var q" "q < length (symbs c)" "s_val1 (symbs c ! q) = IntV l"
  shows "\<exists>is c'. cg_block (us @ [t]) c = Some c' \<and> lines c' = lines c @ map Code is @ [LabelLine l] \<and>
    (\<forall>env env' m. block_effect lab c us env = Some env' \<longrightarrow> rep lab fp V env c m \<longrightarrow>
       (\<exists>m'. run lab is m = Some m' \<and> home fp V c env' m'))"
proof -
  have append: "cg_block (us @ [t]) c = cg_block us c \<bind> cg_instr t" for c :: "'a cg_scheme"
  proof (induction us arbitrary: c)
    case (Cons u us)
    then show ?case by (cases "cg_instr u c") simp_all
  next
    case Nil
    show ?case by (cases "cg_instr t c") simp_all
  qed
  from block_assigns [OF ok fr, of us lab] us res obtain "is" c1 where
    c1: "cg_block us c = Some c1" "assigns lab fp V (block_effect lab c us) c is c1" by auto
  then have sym: "symbs c1 = symbs c" "tos c1 = tos c" and ok1: "desc_ok V c1" and r4: "rname c1 4 = None"
    using res by (simp_all add: assigns_def)
  have fr1: "frame_ok fp V c1" using fr frame_ok_cong [OF sym] by simp
  have "clean c1 4" using r4 by (auto simp: clean_def)
  from gen_flush_all [OF ok1 fr1 this, of lab] obtain js c' where
    c': "flush_all c1 = Some c'" "gen lab fp V c1 js c'" "\<And>q. q \<in> {4..<16} \<Longrightarrow> rname c' q = None" by blast
  then have sym': "symbs c' = symbs c" using sym by (simp add: gen_def)
  have clean: "clean c' q" if "q \<in> {4..<16}" for q using c'(3) [OF that] by (auto simp: clean_def)
  have "cg_block (us @ [t]) c = Some (emit (LabelLine l) c')"
    using append [of c] c1(1) c'(1) l sym' by (simp add: cg_instr_def symb_at_def)
  moreover have "lines (emit (LabelLine l) c') = lines c @ map Code (is @ js) @ [LabelLine l]"
    using c1(2) c'(2) by (simp add: emit_def assigns_def gen_def)
  moreover have "\<exists>m'. run lab (is @ js) m = Some m' \<and> home fp V c env' m'"
    if e: "block_effect lab c us env = Some env'" "rep lab fp V env c m" for env env' m
  proof -
    from assignsD [OF c1(2) e] obtain m1 where
      m1: "run lab is m = Some m1" "rep lab fp V env' c1 m1" by blast
    with c'(2) obtain m' where "run lab js m1 = Some m'" "rep lab fp V env' c' m'"
      by (auto simp: gen_def)
    with m1(1) rep_home [OF _ clean] show ?thesis
      by (auto simp: run_append home_def slot_cong [OF sym'])
  qed
  ultimately show ?thesis by blast
qed

section \<open>The test before a conditional branch\<close>

lemma rep_same_regs:
  assumes "rep lab fp V env c m" and "mem m' = mem m" and "length (reg m') = length (reg m)"
    and "\<And>z. get_reg z m' = get_reg z m"
  shows "rep lab fp V env c m'"
  using assms by (simp add: rep_def)

lemma gen_rreg_tests:
  assumes ok: "desc_ok V c" and fr: "frame_ok fp V c" and p: "operand V c p"
    and new: "\<And>q. 5 \<le> q \<Longrightarrow> q < 16 \<Longrightarrow> rname c q \<noteq> Some p" and clean: "\<And>q. q \<in> {5..<16} \<Longrightarrow> clean c q"
  shows "\<exists>r is c'. get_rreg (Some p) c = Some (r, c') \<and> gen lab fp V c is c' \<and> ready r p c c' \<and>
    5 \<le> r \<and> tests lab fp V c is p"
proof -
  have none: "List.find (\<lambda>r. rname c r = Some p) [5..<16] = None"
    using new by (auto simp: find_None_iff)
  show ?thesis
  proof (cases "List.find (\<lambda>r. rname c r = None) [5..<16]")
    case (Some r)
    note r = find_name_cases [OF Some]
    from gen_load [OF ok fr r(1-3) p new, of lab] none Some r show ?thesis
      by (auto simp: get_rreg_def cg_regs)
  next
    case full: None
    obtain r where r: "List.find (\<lambda>r. \<not> rmod c r) [5..<16] = Some r"
    proof (cases "List.find (\<lambda>r. \<not> rmod c r) [5..<16]")
      case mods: None
      from find_name_None [OF full, of 5] find_name_None [OF mods, of 5] clean [of 5] show ?thesis
        by (cases "rdesc c ! 5") (auto simp: clean_def)
    qed (use that in blast)
    note r' = find_name_cases [OF r]
    then have drop: "droppable c r" by (auto simp: droppable_def)
    from gen_reload [OF ok fr r'(1,2) drop p new, of lab] obtain "is" c' where
      c': "load_reg r (Some p) (clear_desc r c) = Some c'" "gen lab fp V c is c'" "ready r p c c'"
        "tests lab fp V (clear_desc r c) is p" by blast
    have "rep lab fp V env (clear_desc r c) m" if "rep lab fp V env c m" for env m
      using gen_clear [OF ok r'(1,2) drop, of lab fp] that by (auto simp: gen_def)
    with c'(4) have "tests lab fp V c is p"
      unfolding tests_def val_cong [of "clear_desc r c" c, OF clear_desc_simps(1)] by blast
    with c' none full r r' show ?thesis by (auto simp: get_rreg_def cg_regs)
  qed
qed

lemma cond_tests:
  assumes ok: "desc_ok V c" and fr: "frame_ok fp V c" and a: "operand V c a"
  shows "\<exists>is c'. cg_cond op (Some a) l c = Some c' \<and> lines c' = lines c @ map Code (is @ [op l]) \<and>
    (\<forall>env m. rep lab fp V env c m \<longrightarrow> (\<exists>m'. run lab is m = Some m' \<and>
       (z_flag m' \<longleftrightarrow> val lab env c a = 0) \<and> rep lab fp V env c' m' \<and>
       (clean c 4 \<longrightarrow> home fp V c env m')))"
proof -
  from gen_spill_all [OF ok fr, of lab] obtain "is" c1 where
    c1: "spill_all c = Some c1" "gen lab fp V c is c1" "rdesc c1 ! 4 = rdesc c ! 4"
      "\<And>q. q \<in> {5..<16} \<Longrightarrow> clean c1 q" by blast
  then have sym: "symbs c1 = symbs c" "tos c1 = tos c" and ok1: "desc_ok V c1"
    by (simp_all add: gen_def)
  have fr1: "frame_ok fp V c1" using fr frame_ok_cong [OF sym] by simp
  have a1: "operand V c1 a" using a operand_cong [OF sym(1)] by simp
  have homes: "clean c 4 \<longrightarrow> home fp V c env m" if "rep lab fp V env c1 m" for env m
  proof
    assume "clean c 4"
    then have "clean c1 q" if "q \<in> {4..<16}" for q
      using that c1(3) c1(4) [of q] by (cases "q = 4") (simp_all add: clean_def)
    from rep_home [OF that this] show "home fp V c env m" by (simp add: home_def slot_cong [OF sym(1)])
  qed
  have key: "\<exists>js c2. (case List.find (\<lambda>r. rname c1 r = Some a) [5..<16] of
        Some r \<Rightarrow> Some (ins (ALDR (R r) (R r)) c1)
      | None \<Rightarrow> map_option snd (get_rreg (Some a) c1)) = Some c2 \<and> lines c2 = lines c1 @ map Code js \<and>
    (\<forall>env m. rep lab fp V env c1 m \<longrightarrow> (\<exists>m'. run lab js m = Some m' \<and>
       (z_flag m' \<longleftrightarrow> val lab env c1 a = 0) \<and> rep lab fp V env c2 m' \<and> mem m' = mem m))"
  proof (cases "List.find (\<lambda>r. rname c1 r = Some a) [5..<16]")
    case (Some r)
    note r = find_name_cases [OF Some]
    have "\<exists>m'. run lab [ALDR (R r) (R r)] m = Some m' \<and> (z_flag m' \<longleftrightarrow> val lab env c1 a = 0) \<and>
        rep lab fp V env (ins (ALDR (R r) (R r)) c1) m' \<and> mem m' = mem m"
      if rep: "rep lab fp V env c1 m" for env m
    proof -
      from run_ldr [OF repD(1) [OF rep] r(2,2), of lab] obtain m' where
        m': "run lab [ALDR (R r) (R r)] m = Some m'" "sets r (get_reg r m) m m'" by blast
      with rep_same_regs [OF rep, of m'] named_val [OF ok1 rep r(2,3)] show ?thesis
        by (simp add: sets_def rep_emit)
    qed
    with Some show ?thesis
      by (intro exI [of _ "[ALDR (R r) (R r)]"] exI [of _ "ins (ALDR (R r) (R r)) c1"]) (simp add: emit_def)
  next
    case None
    from gen_rreg_tests [OF ok1 fr1 a1 find_name_None [OF None] c1(4), of lab] obtain r js c2 where
      c2: "get_rreg (Some a) c1 = Some (r, c2)" "gen lab fp V c1 js c2" "tests lab fp V c1 js a"
        "ready r a c1 c2" by blast
    have "\<exists>m'. run lab js m = Some m' \<and> (z_flag m' \<longleftrightarrow> val lab env c1 a = 0) \<and>
        rep lab fp V env c2 m' \<and> mem m' = mem m" if rep: "rep lab fp V env c1 m" for env m
    proof -
      from c2(2) rep obtain m' where m': "run lab js m = Some m'" "rep lab fp V env c2 m'"
        by (auto simp: gen_def)
      moreover from c2(3) rep m'(1) have "(z_flag m' \<longleftrightarrow> val lab env c1 a = 0) \<and> mem m' = mem m"
        unfolding tests_def by blast
      ultimately show ?thesis by blast
    qed
    moreover have "lines c2 = lines c1 @ map Code js" using c2(2) by (simp add: gen_def)
    ultimately show ?thesis using None c2(1)
      by (intro exI [of _ js] exI [of _ c2]) simp
  qed
  then obtain js c2 where c2:
    "(case List.find (\<lambda>r. rname c1 r = Some a) [5..<16] of
        Some r \<Rightarrow> Some (ins (ALDR (R r) (R r)) c1)
      | None \<Rightarrow> map_option snd (get_rreg (Some a) c1)) = Some c2"
    "lines c2 = lines c1 @ map Code js"
    "\<And>env m. rep lab fp V env c1 m \<Longrightarrow> \<exists>m'. run lab js m = Some m' \<and>
       (z_flag m' \<longleftrightarrow> val lab env c1 a = 0) \<and> rep lab fp V env c2 m' \<and> mem m' = mem m" by blast
  have "cg_cond op (Some a) l c = Some (ins (op l) c2)"
    using c1(1) c2(1) by (simp add: cg_cond_def cg_regs)
  moreover have "lines (ins (op l) c2) = lines c @ map Code ((is @ js) @ [op l])"
    using c1(2) c2(2) by (simp add: emit_def gen_def)
  moreover have "\<exists>m'. run lab (is @ js) m = Some m' \<and> (z_flag m' \<longleftrightarrow> val lab env c a = 0) \<and>
      rep lab fp V env (ins (op l) c2) m' \<and> (clean c 4 \<longrightarrow> home fp V c env m')"
    if rep: "rep lab fp V env c m" for env m
  proof -
    from c1(2) rep obtain m1 where m1: "run lab is m = Some m1" "rep lab fp V env c1 m1"
      by (auto simp: gen_def)
    from c2(3) [OF m1(2)] obtain m' where m': "run lab js m1 = Some m'"
      "z_flag m' \<longleftrightarrow> val lab env c1 a = 0" "rep lab fp V env c2 m'" "mem m' = mem m1" by blast
    from homes [OF m1(2)] m'(4) have "clean c 4 \<longrightarrow> home fp V c env m'" by (simp add: home_def)
    with m1(1) m' show ?thesis by (simp add: run_append rep_emit val_cong [OF sym(1)])
  qed
  ultimately show ?thesis by blast
qed

section \<open>Correct code\<close>

text \<open>C1: Code generation for a block of assignments is correct: for any list of additions, subtractions,
  multiplications, divisions and copies followed by a label, the generator prints instructions after
  which, run from any machine state that represents the variables, every variable's slot in the stack
  frame holds what the three address code says, unless that divides by zero.\<close>

theorem cg_block_correct:
  assumes "desc_ok V c" and "frame_ok fp V c" and "\<forall>t \<in> set us. assignment V c t" and "rname c 4 = None"
    and "t_op t = TAC_LABEL" and "t_a t = Var q" and "q < length (symbs c)" and "s_val1 (symbs c ! q) = IntV l"
  shows "\<exists>is c'. cg_block (us @ [t]) c = Some c' \<and> lines c' = lines c @ map Code is @ [LabelLine l] \<and>
    (\<forall>env env' m. block_effect lab c us env = Some env' \<longrightarrow> rep lab fp V env c m \<longrightarrow>
       (\<exists>m'. run lab is m = Some m' \<and> home fp V c env' m'))"
  using assms by (intro block_stored) auto

definition demo_symb :: "symtype \<Rightarrow> u32 \<Rightarrow> u32 \<Rightarrow> symb" where
  "demo_symb t v a = \<lparr>s_next = None, s_type = t, s_val1 = IntV v, s_val2 = ValV a\<rparr>"

definition demo_tac :: "tacop \<Rightarrow> arg \<Rightarrow> arg \<Rightarrow> arg \<Rightarrow> tac" where
  "demo_tac op x y z = \<lparr>t_next = None, t_prev = None, t_op = op, t_a = x, t_b = y, t_c = z\<rparr>"

text \<open>A frame with one variable, symbol 1, after the two link words; symbol 2 is 5, symbol 3 a label.\<close>

definition demo_cg :: cg where
  "demo_cg = \<lparr>symbs = [demo_symb T_INT 0 0, demo_symb T_VAR 0 8, demo_symb T_INT 5 0, demo_symb T_LABEL 7 0],
     tacs = [], enodes = [], symbtab = [], library = [0, 0], next_tmp = 0, next_label = 0,
     const_tab = replicate CONST_MAX 0, errors_found = False, symb_list = None, enode_list = None,
     yylval = None, malloc_symb = demo_symb T_UNDEF 0 0, program_tac = None, err_text = [],
     rdesc = (Some 0, False) # replicate 15 (None, False), tos = 12, next_arg = 0, lines = []\<rparr>"

definition demo_vam :: vam where
  "demo_vam = (reset_vam False)\<lparr>reg := (replicate 16 0)[1 := 100]\<rparr>"

lemma demo_desc: "rdesc demo_cg ! r = (if r = 0 then (Some 0, False) else (None, False))" if "r < 16"
  using that by (cases r) (simp_all add: demo_cg_def)

lemma demo_ok: "desc_ok {1} demo_cg" "frame_ok 100 {1} demo_cg" "rep lab 100 {1} (\<lambda>_. 0) demo_cg demo_vam"
proof -
  show "desc_ok {1} demo_cg"
    unfolding desc_ok_def
  proof (intro conjI)
    show "length (rdesc demo_cg) = 16" by (simp add: demo_cg_def)
    show "\<exists>z. rdesc demo_cg ! 0 = (Some z, False) \<and> z < length (symbs demo_cg) \<and>
        s_type (symbs demo_cg ! z) = T_INT \<and> s_val1 (symbs demo_cg ! z) = IntV 0"
      by (simp add: demo_cg_def demo_symb_def)
  qed (simp_all add: demo_desc)
  show "frame_ok 100 {1} demo_cg"
    by (simp add: frame_ok_def frame_addr_def is_var_def demo_cg_def demo_symb_def)
  have "length (reg demo_vam) = 16" "get_reg 0 demo_vam = 0" "get_reg 1 demo_vam = 100"
    by (simp_all add: demo_vam_def get_reg_def)
  moreover have "load_word a (mem demo_vam) = 0" for a
    by (simp add: demo_vam_def reset_vam_def load_word_def or_bytes_def)
  ultimately show "rep lab 100 {1} (\<lambda>_. 0) demo_cg demo_vam"
    by (simp add: rep_def demo_desc)
qed

text \<open>The block \<open>x := 5 + 5; x := x * x\<close> leaves 100 in the slot of \<open>x\<close>.\<close>

theorem cg_block_correct_witness:
  "\<exists>is c' m'. cg_block [demo_tac TAC_ADD (Var 1) (Var 2) (Var 2), demo_tac TAC_MUL (Var 1) (Var 1) (Var 1),
       demo_tac TAC_LABEL (Var 3) Null Null] demo_cg = Some c' \<and>
     lines c' = map Code is @ [LabelLine 7] \<and> run (\<lambda>_. 0) is demo_vam = Some m' \<and>
     load_word 108 (mem m') = 100"
proof -
  let ?us = "[demo_tac TAC_ADD (Var 1) (Var 2) (Var 2), demo_tac TAC_MUL (Var 1) (Var 1) (Var 1)]"
  let ?t = "demo_tac TAC_LABEL (Var 3) Null Null"
  have sy: "symbs demo_cg = [demo_symb T_INT 0 0, demo_symb T_VAR 0 8, demo_symb T_INT 5 0, demo_symb T_LABEL 7 0]"
    and li: "lines demo_cg = []" by (simp_all add: demo_cg_def)
  have a: "\<forall>t \<in> set ?us. assignment {1} demo_cg t"
    by (simp add: assignment_def demo_tac_def operand_def is_var_def sy demo_symb_def)
  have e: "block_effect (\<lambda>_. 0) demo_cg ?us (\<lambda>_. 0) = Some ((\<lambda>_. 0)(1 := 100))"
    by (simp add: effect_def demo_tac_def val_def sy demo_symb_def)
  have four: "rname demo_cg 4 = None" by (simp add: demo_desc)
  have l: "t_op ?t = TAC_LABEL" "t_a ?t = Var 3" "3 < length (symbs demo_cg)" "s_val1 (symbs demo_cg ! 3) = IntV 7"
    by (simp_all add: demo_tac_def sy demo_symb_def)
  obtain "is" c' where c': "cg_block (?us @ [?t]) demo_cg = Some c'"
    "lines c' = lines demo_cg @ map Code is @ [LabelLine 7]"
    "\<forall>env env' m. block_effect (\<lambda>_. 0) demo_cg ?us env = Some env' \<longrightarrow> rep (\<lambda>_. 0) 100 {1} env demo_cg m \<longrightarrow>
       (\<exists>m'. run (\<lambda>_. 0) is m = Some m' \<and> home 100 {1} demo_cg env' m')"
    using cg_block_correct [OF demo_ok(1,2) a four l, of "\<lambda>_. 0"] by blast
  then obtain m' where "run (\<lambda>_. 0) is demo_vam = Some m'" "home 100 {1} demo_cg ((\<lambda>_. 0)(1 := 100)) m'"
    using e demo_ok(3) by blast
  moreover from this(2) have "load_word 108 (mem m') = 100"
    by (simp add: home_def slot_def frame_addr_def sy demo_symb_def)
  ultimately show ?thesis using c'(1,2) li by auto
qed

text \<open>C16: Code generation for a conditional branch is correct: the instructions printed before the branch
  leave every variable in its slot of the frame and the flag set so that the branch is taken exactly
  when the operand is zero (TAC_IFZ) or not zero (TAC_IFNZ).\<close>

theorem cg_cond_correct:
  assumes "desc_ok V c" and "frame_ok fp V c" and "operand V c a" and "rname c 4 = None"
    and "t_op t = TAC_IFZ \<or> t_op t = TAC_IFNZ" and "t_b t = Var a" and "label_number (t_a t) c = Some l"
  shows "\<exists>is br c'. cg_instr t c = Some c' \<and> lines c' = lines c @ map Code (is @ [br]) \<and>
    (\<forall>env m. rep lab fp V env c m \<longrightarrow> (\<exists>m' i. run lab is m = Some m' \<and> home fp V c env m' \<and>
       resolve lab (pc m') br = Some i \<and> (taken i m' \<longleftrightarrow> (val lab env c a = 0) = (t_op t = TAC_IFZ))))"
proof -
  define op where "op = (if t_op t = TAC_IFZ then ABZE_L else ABNZ_L)"
  from cond_tests [OF assms(1-3), of op l lab] obtain "is" c' where
    c': "cg_cond op (Some a) l c = Some c'" "lines c' = lines c @ map Code (is @ [op l])"
    "\<And>env m. rep lab fp V env c m \<Longrightarrow> \<exists>m'. run lab is m = Some m' \<and>
       (z_flag m' \<longleftrightarrow> val lab env c a = 0) \<and> rep lab fp V env c' m' \<and> (clean c 4 \<longrightarrow> home fp V c env m')"
    by blast
  have "clean c 4" using assms(4) by (auto simp: clean_def)
  have "cg_instr t c = Some c'"
    using c'(1) assms(5-7) by (auto simp: cg_instr_def op_def)
  moreover have "\<exists>m' i. run lab is m = Some m' \<and> home fp V c env m' \<and> resolve lab (pc m') (op l) = Some i \<and>
      (taken i m' \<longleftrightarrow> (val lab env c a = 0) = (t_op t = TAC_IFZ))"
    if rep: "rep lab fp V env c m" for env m
  proof -
    from c'(3) [OF rep] \<open>clean c 4\<close> obtain m' where "run lab is m = Some m'"
      "z_flag m' \<longleftrightarrow> val lab env c a = 0" "home fp V c env m'" by blast
    then show ?thesis by (cases "t_op t = TAC_IFZ") (auto simp: op_def taken_def)
  qed
  ultimately show ?thesis using c'(2) by blast
qed

theorem cg_cond_correct_witness:
  "\<exists>is br c' m' i. cg_instr (demo_tac TAC_IFZ (Lab 0) (Var 1) Null)
       (demo_cg\<lparr>tacs := [demo_tac TAC_LABEL (Var 3) Null Null]\<rparr>) = Some c' \<and>
     lines c' = map Code (is @ [br]) \<and> run (\<lambda>_. 0) is demo_vam = Some m' \<and>
     resolve (\<lambda>_. 0) (pc m') br = Some i \<and> taken i m'"
proof -
  let ?c = "demo_cg\<lparr>tacs := [demo_tac TAC_LABEL (Var 3) Null Null]\<rparr>"
  let ?t = "demo_tac TAC_IFZ (Lab 0) (Var 1) Null"
  have sy: "symbs ?c = symbs demo_cg" "tos ?c = tos demo_cg" "rdesc ?c = rdesc demo_cg" by simp_all
  have sy': "symbs demo_cg = [demo_symb T_INT 0 0, demo_symb T_VAR 0 8, demo_symb T_INT 5 0, demo_symb T_LABEL 7 0]"
    by (simp add: demo_cg_def)
  have ok: "desc_ok {1} ?c" using demo_ok(1) by (intro desc_ok_weaken [OF demo_ok(1)]) (simp_all add: desc_okD(1))
  have fr: "frame_ok 100 {1} ?c" using demo_ok(2) frame_ok_cong [OF sy(1,2)] by simp
  have rep: "rep (\<lambda>_. 0) 100 {1} (\<lambda>_. 0) ?c demo_vam"
    using demo_ok(3) unfolding rep_def cached_def val_cong [OF sy(1)] slot_cong [OF sy(1)] by simp
  have op: "operand {1} ?c 1" by (simp add: operand_def is_var_def sy' demo_symb_def)
  have l: "label_number (t_a ?t) ?c = Some 7"
    by (simp add: label_number_def demo_tac_def symb_at_def tac_at_def sy' demo_symb_def)
  have "val (\<lambda>_. 0) (\<lambda>_. 0) ?c 1 = 0" using val_var [of "{1}" ?c 1] by (simp add: is_var_def sy' demo_symb_def)
  moreover have "rname ?c 4 = None" by (simp add: demo_desc)
  ultimately show ?thesis
    using cg_cond_correct [OF ok fr op _ _ _ l, of "\<lambda>_. 0"] rep
    by (fastforce simp: demo_tac_def demo_cg_def)
qed

section \<open>Code that is wrong\<close>

lemma spill_one_nothing: "rname s r = None \<Longrightarrow> spill_one r s = Some s"
  by (simp add: spill_one_def)

lemma spill_each_nothing: "\<forall>r \<in> set rs. rname s r = None \<Longrightarrow> spill_each rs s = Some s"
  by (induction rs) (simp_all add: spill_one_nothing)

lemma spill_each_length: "spill_each rs s = Some s' \<Longrightarrow> length (rdesc s') = length (rdesc s)"
proof (induction rs arbitrary: s)
  case (Cons r rs)
  have "length (rdesc t) = length (rdesc s)" if "spill_one r s = Some t" for t
    using that by (auto simp: spill_one_def emit_def split: option.splits if_splits bind_splits)
  with Cons show ?case by (auto split: bind_splits)
qed simp

lemma fold_clear_names:
  "q < length (rdesc s) \<Longrightarrow> rname (fold clear_desc rs s) q = (if q \<in> set rs then None else rname s q)"
  by (induction rs arbitrary: s) (auto simp: clear_desc_nth clear_desc_def nth_list_update)

lemma flush_all_empties:
  assumes "flush_all s = Some s'" and "length (rdesc s) = 16"
  shows "\<forall>q \<in> {4..<16}. rname s' q = None" and "length (rdesc s') = 16"
proof -
  from assms obtain t where t: "spill_each [5..<16] s = Some t"
    "s' = fold clear_desc ([5..<16] @ [4]) t"
    by (auto simp: flush_all_def spill_all_def cg_regs split: bind_splits)
  with spill_each_length [OF t(1)] assms(2) have len: "length (rdesc t) = 16" by simp
  then show "length (rdesc s') = 16" using t(2) fold_clear_simps(4) by metis
  show "\<forall>q \<in> {4..<16}. rname s' q = None"
  proof
    fix q :: nat assume "q \<in> {4..<16}"
    then show "rname s' q = None" unfolding t(2) using len by (subst fold_clear_names) auto
  qed
qed

lemma flush_all_silent:
  assumes "\<forall>q \<in> {5..<16}. rname s q = None" and "length (rdesc s) = 16"
  shows "\<exists>s'. flush_all s = Some s' \<and> lines s' = lines s \<and> tos s' = tos s"
  using assms spill_each_nothing [of "[5..<16]" s] by (simp add: flush_all_def spill_all_def cg_regs)

definition call_code :: "u32 \<Rightarrow> u32 \<Rightarrow> asm list" where
  "call_code f sp =
     [ALDA_L f (R R_CALL), ASTI (R R_P) sp (R R_P), ALDA sp (R R_P) (R R_P), ABAL (R R_CALL) (R R_RET)]"

lemma cg_call_shape:
  assumes "flush_all s = Some t" and "length (rdesc s) = 16"
  shows "\<exists>s'. cg_call f (Some p) s = Some s' \<and> rdesc s' = (rdesc t)[4 := (Some p, True)] \<and>
    lines s' = lines t @ map Code (call_code f (tos t)) \<and> tos s' = tos t"
proof -
  let ?c = "(ins (ABAL (R R_CALL) (R R_RET)) (ins (ALDA (tos t) (R R_P) (R R_P))
    (ins (ASTI (R R_P) (tos t) (R R_P)) (ins (ALDA_L f (R R_CALL)) (t\<lparr>next_arg := 0\<rparr>)))))"
  have "filter (\<lambda>q. rname ?c q = Some p) [5..<16] = []"
    using flush_all_empties(1) [OF assms] by (auto simp: filter_empty_conv emit_def)
  then have "rdesc (insert_desc 4 (Some p) True ?c) = (rdesc t)[4 := (Some p, True)]"
    by (simp add: insert_desc_def cg_regs emit_def)
  moreover have "cg_call f (Some p) s = Some (insert_desc 4 (Some p) True ?c)"
    using assms(1) by (simp add: cg_call_def Let_def emit_def cg_regs)
  moreover have "lines (insert_desc 4 (Some p) True ?c) = lines t @ map Code (call_code f (tos t))"
    and "tos (insert_desc 4 (Some p) True ?c) = tos t"
    by (simp_all add: emit_def call_code_def)
  ultimately show ?thesis by blast
qed

lemma cg_call_loses:
  assumes "length (rdesc s) = 16" and "cg_call f (Some p) s = Some s1" and "p \<noteq> u"
  shows "\<exists>s2. cg_call g (Some u) s1 = Some s2 \<and> lines s2 = lines s1 @ map Code (call_code g (tos s1)) \<and>
    rdesc s1 ! 4 = (Some p, True) \<and> (\<forall>q \<in> {4..<16}. rname s2 q \<noteq> Some p)"
proof -
  obtain s0 where s0: "flush_all s = Some s0"
    using assms(2) by (cases "flush_all s") (simp_all add: cg_call_def)
  from cg_call_shape [OF s0 assms(1), of f p] assms(2)
  have d1: "rdesc s1 = (rdesc s0)[4 := (Some p, True)]" by auto
  note n0 = flush_all_empties [OF s0 assms(1)]
  then have n1: "\<forall>q \<in> {5..<16}. rname s1 q = None" and l1: "length (rdesc s1) = 16"
    by (simp_all add: d1 nth_list_update)
  obtain t where t: "flush_all s1 = Some t" "lines t = lines s1" "tos t = tos s1"
    using flush_all_silent [OF n1 l1] by blast
  from cg_call_shape [OF t(1) l1, of g u] t(2,3) obtain s2 where
    s2: "cg_call g (Some u) s1 = Some s2" "rdesc s2 = (rdesc t)[4 := (Some u, True)]"
      "lines s2 = lines s1 @ map Code (call_code g (tos s1))" by auto
  have "rname s2 q \<noteq> Some p" if "q \<in> {4..<16}" for q
    using that flush_all_empties [OF t(1) l1] assms(3) by (auto simp: s2(2) nth_list_update)
  with s2 d1 n0(2) show ?thesis by auto
qed

text \<open>C33: The result of a call is lost by the next call: after the code for t = call f, the result is only
  in R4, marked as not yet stored; the code for a following u = call g prints nothing that stores R4,
  overwrites it, and drops t from the descriptor, so f(x) + g(y) does not see the result of f.\<close>

theorem call_result_lost:
  assumes "length (rdesc s) = 16" and "cg_call f (Some p) s = Some s1" and "p \<noteq> u"
  shows "\<exists>s2. cg_call g (Some u) s1 = Some s2 \<and>
    lines s2 = lines s1 @ map Code [ALDA_L g 2, ASTI 1 (tos s1) 1, ALDA (tos s1) 1 1, ABAL 2 3] \<and>
    rdesc s1 ! 4 = (Some p, True) \<and> (\<forall>q \<in> {4..<16}. rname s2 q \<noteq> Some p)"
  using cg_call_loses [OF assms, of g] by (simp add: call_code_def cg_regs)

theorem call_result_lost_witness:
  "\<exists>s1 s2. cg_call 20 (Some 1) demo_cg = Some s1 \<and> cg_call 21 (Some 2) s1 = Some s2 \<and>
     rdesc s1 ! 4 = (Some 1, True) \<and> rname s2 4 \<noteq> Some 1"
proof -
  have len: "length (rdesc demo_cg) = 16" by (simp add: demo_cg_def)
  have "\<forall>q \<in> {5..<16}. rname demo_cg q = None" by (simp add: demo_desc)
  from flush_all_silent [OF this len] obtain t where "flush_all demo_cg = Some t" by blast
  from cg_call_shape [OF this len, of 20 1] obtain s1 where s1: "cg_call 20 (Some 1) demo_cg = Some s1"
    by blast
  from call_result_lost [OF len this, of 2 21] obtain s2 where "cg_call 21 (Some 2) s1 = Some s2"
    "rdesc s1 ! 4 = (Some 1, True)" "\<forall>q \<in> {4..<16}. rname s2 q \<noteq> Some 1" by auto
  then show ?thesis using s1 by (intro exI [of _ s1] exI [of _ s2]) simp
qed

text \<open>C34: The operand of a negation is ignored: the parser puts the operand of unary minus in the third
  field of the instruction, the generator reads the second, which is null, and takes the first free
  register for it; whatever the operand is, the code printed subtracts that register's content.\<close>

theorem negation_ignores_operand:
  assumes "t_op t = TAC_NEG" and "t_a t = Var a" and "t_b t = Null"
    and "mkconst 0 s = Some (z, s1)" and "rdesc s1 ! 0 = (Some z, md)"
    and "List.find (\<lambda>r. rname s1 r = None) [5..<16] = Some r"
  shows "\<exists>s2. cg_instr t s = Some s2 \<and> lines s2 = lines s1 @ [Code (ASUB 0 (R r))]"
proof -
  have "get_rreg None s1 = Some (r, s1)"
    using assms(6) find_name_cases(3) [OF assms(6)] by (simp add: get_rreg_def cg_regs spill_one_def)
  moreover have "List.find (\<lambda>q. rname s1 q = Some z) [0..<16] = Some 0"
    using assms(5) by (subst upt_conv_Cons) simp_all
  then have "get_areg (Some z) r s1 = Some (0, s1)" by (simp add: get_areg_def cg_regs)
  ultimately show ?thesis using assms(1-4) by (simp add: cg_instr_def cg_bin_def emit_def)
qed

theorem negation_ignores_operand_witness:
  "\<exists>s2. cg_instr (demo_tac TAC_NEG (Var 1) Null (Var 2)) demo_cg = Some s2 \<and>
     lines s2 = [Code (ASUB 0 5)]"
proof -
  have "mkconst 0 demo_cg = Some (0, demo_cg)"
    by (simp add: mkconst_def demo_cg_def CONST_MAX_def)
  moreover have "List.find (\<lambda>r. rname demo_cg r = None) [5..<16] = Some 5"
    by (subst upt_conv_Cons) (simp_all add: demo_desc)
  moreover have "rdesc demo_cg ! 0 = (Some 0, False)" "lines demo_cg = []"
    by (simp_all add: demo_desc) (simp add: demo_cg_def)
  ultimately show ?thesis
    using negation_ignores_operand [of "demo_tac TAC_NEG (Var 1) Null (Var 2)" 1 demo_cg 0 demo_cg False 5]
    by (simp add: demo_tac_def)
qed

end
