(* ===== verification/Spec2Isabelle.thy ===== *)
theory Spec2Isabelle
  imports CoreMark_Main VAM_Run VAS_Text VAS_Safe VC_Tables VC_Parse VC_CgCorrect
begin

text \<open>
  A verification of the two programs of gcc-sh-monitor whose sources carry a program logic of their
  own: the CoreMark benchmark (\<open>src/coremark\<close>), whose CRCs and iteration scores the monitor
  publishes, and the VSL compiler tool chain (\<open>src/csibe/src/compiler\<close>), a compiler, an assembler
  and an abstract machine kept as one of the code size programs. Everything else in the
  repository is a script, a dashboard, or third-party source that is only compiled and measured.

  \<^bold>\<open>Conventions.\<close> A machine integer is a word of its width (\<open>Prelude\<close>: u8, u16, s16, u32, s32); signed
  reads go through \<open>sint\<close> and \<open>scast\<close>, arithmetic wraps. A C array is a list; an access outside it, a
  null or dangling pointer, a division by zero and a loop that does not end are the result \<open>None\<close>
  of the function that does it, so that a theorem that a function returns \<open>Some\<close> says that it
  terminates and that all its accesses are in range. Structs are records, enums and tagged unions
  datatypes; pointers into a pool of structs are indices into a list of records (\<open>nat option\<close>, \<open>None\<close>
  being the null pointer), so aliasing is kept. Loops whose end is not obvious are
  \<open>partial_function\<close>s; counted loops use \<open>for_each\<close>. Only the interpreter loop of the machine, which
  may run for ever, has fuel (\<open>vam_loop\<close>): its theorems hold for every amount of it, or for every
  amount from some on.

  \<^bold>\<open>CoreMark.\<close>
  \<^item> \<open>CoreMark_Util\<close> (\<open>core_util.c\<close>): the CRC functions, the argument parser, the check of the data types.
    \<open>crcu32\<close> is the table-free CRC-16/ARC; its update is injective; printed numbers are read back.
  \<^item> \<open>CoreMark_State\<close> (\<open>core_state.c\<close>): the state machine that recognises numbers, the generator of its
    input, the kernel. The recogniser accepts exactly the integer, float and scientific formats;
    on generated input every scan and corruption stays inside the block; equal seeds restore it.
  \<^item> \<open>CoreMark_Matrix\<close> (\<open>core_matrix.c\<close>): initialisation and kernel. The nested loops are reduced to maps
    over the cells; a run leaves A and B as they were and C with the bit-extracted product; the
    arrays and their elements are what the block and the seed give; they fit an aligned block, and
    it is said exactly when they run past one that is not aligned.
  \<^item> \<open>CoreMark_List\<close> (\<open>core_list_join.c\<close>): the heads and data of the list as two arrays, every list
    operation, the in-place merge sort with its two comparison functions, one of which runs the
    other kernels, and the kernel. \<open>path\<close> and \<open>chain\<close> relate the heap to lists of heads.
  \<^item> \<open>CoreMark_Sort\<close>: bottom-up merge sort on lists is \<open>sort_key\<close>; the interface \<open>comparator\<close> between the
    sort and a comparison function that computes and caches keys; for every comparison function
    that keeps it, the merge sort on the heap ends and is the stable sort by the final keys.
  \<^item> \<open>CoreMark_ListOk\<close>: \<open>cmp_idx\<close> and \<open>cmp_complex\<close> provide the interface, \<open>cmp_complex\<close> a second time with
    the record of the kernels it ran, which shows that each value is computed once; search, reversal,
    removal; a run of the kernel returns and restores the list.
  \<^item> \<open>CoreMark_Init\<close>: \<open>core_list_init\<close> stays inside the block and builds the list in index order.
  \<^item> \<open>CoreMark_Main\<close> (\<open>core_main.c\<close>): parameters, division of the block, initialisation, iterations and
    validation. The parts of the one block are separate arrays here; the set-up is \<open>None\<close> where a
    part's contents would end behind it, so that a run that returns is one for which the separation is
    right. The whole benchmark returns, with the inputs of all kernels intact; when a run is
    reported as validated.

  \<^bold>\<open>VSL tool chain.\<close>
  \<^item> \<open>VAM\<close>, \<open>VAM_Exec\<close>, \<open>VAM_Run\<close> (\<open>vam.c\<close>): the machine's globals, the tracer, one function per instruction,
    the fetch-execute step, the loop, \<open>main\<close>. One step of the loop on an encoded instruction has
    the effect the instruction set gives it (\<open>exec\<close>, \<open>effect\<close>), faults included; a run with the trace
    flag and one without are related step by step and do the same; programs that come to a HALT or
    a bus error leave through it. The interface \<open>word_memory\<close> is what the code generator's proofs use of
    word accesses. Where \<open>vam.txt\<close> describes an instruction differently the model follows the code.
  \<^item> \<open>Bison\<close> (\<open>vas.c\<close>, \<open>parser.c\<close>): the parser bison generates, as a function of its tables: shift, reduce,
    default and error steps, stacks, error recovery; \<open>yyparse\<close> is the loop over the steps. The
    interface \<open>lalr\<close> is what tables and actions must satisfy for the parser to stay inside tables and
    stacks and to return.
  \<^item> \<open>VAS\<close> (\<open>vas.c\<close>): the semantic actions of the grammar by rule number, both passes, the output bytes.
    The two passes put out the encoding of each instruction with every label resolved; a branch to a
    label takes the machine to its address.
  \<^item> \<open>VAS_Tables\<close>, \<open>VAS_Lr\<close>, \<open>VAS_Text\<close>, \<open>VAS_Safe\<close>: the tables of \<open>vas.c\<close>, its scanner (a character is a token) and
    \<open>main\<close>; the tables executed by rewriting; the concrete syntax, on which the parser runs exactly
    the actions of the statements, from text to bytes; lines that cannot go on; and, for every input,
    that the parser returns and that its stack never holds more than fifteen states.
  \<^item> \<open>VC_Data\<close> (\<open>main.c\<close>, \<open>vc.h\<close>, the support code of \<open>scanner.c\<close>): symbols, three address code, expression
    nodes, the chained hash table, printing. The interface \<open>symbol_table\<close> gives names to symbols.
  \<^item> \<open>VC_Tables\<close>, \<open>VC_Parse\<close> (\<open>parser.c\<close>): the parser's tables; the routines that translate functions,
    statements and expressions, and the switch over rule numbers. Layout of loops, backpatching of
    calls, constant folding.
  \<^item> \<open>VC_Cg\<close> (\<open>cg.c\<close>): the register descriptor and the code generator. \<open>VC_CgProof\<close>, \<open>VC_CgCorrect\<close>: the
    invariant between descriptor, frame and machine; the instructions for a block compute what the
    three address code means; conditional branches test their operand; two miscompilations.

  \<^bold>\<open>Parameters.\<close> The library files the code generator copies to its output, the files the machine
  reads, the timer and the address of the benchmark's block, the previous contents of that block, and
  what a parser finds where it reads below the bottom of its value stack for the default value of an
  empty production, or in \<open>yylval\<close> before a token set it. \<open>unsigned long\<close> in the C sources of the
  tool chain has 32 bits, as on the machines it was written for.

  \<^bold>\<open>Not modelled.\<close> The automaton flex generated into \<open>scanner.c\<close>, so that the compiler's actions are run
  on the productions of its grammar and not on text. Opening and renaming of files and failure of
  \<open>malloc\<close> in the compiler's driver; the numeric lines of CoreMark's report, its debugging output,
  its operating system layer and its parallel contexts. The vendored programs (BusyBox, zlib, libpng,
  jpeg, flex, jikespg, teem and the rest of CSiBE), the scripts, the dashboard and the container
  images.
\<close>

end
